(* ===== verification/Lyos_Prelude.thy ===== *)
theory Lyos_Prelude
  imports Main "HOL-Library.Word"
begin

text \<open>
  Shared vocabulary of the development: the C types the sources use, the faults a
  kernel or server routine can run into instead of returning, the error numbers, and the
  generic facts on flag words, lists and chains that the component theories rely on.
\<close>

unbundle bit_operations_syntax

section \<open>Types\<close>

type_synonym u8 = "8 word"
type_synonym u32 = "32 word"
type_synonym u64 = "64 word"

text \<open>
  \<open>endpoint_t\<close> is a C \<open>int\<close>.  \<open>C_int\<close> brings the exact result of an operation into its 32 bits, in two's
  complement; it is written where an operation can leave them.
\<close>

type_synonym endpoint = int

definition C_int :: "int \<Rightarrow> int" where
  "C_int x = signed_take_bit 31 x"

lemma C_int_id: "- (2 ^ 31) \<le> x \<Longrightarrow> x < 2 ^ 31 \<Longrightarrow> C_int x = x"
  by (simp add: C_int_def signed_take_bit_int_eq_self)

lemma C_int_mod: "n \<le> 32 \<Longrightarrow> C_int x mod 2 ^ n = x mod 2 ^ n"
  by (simp add: C_int_def take_bit_signed_take_bit flip: take_bit_eq_mod)

section \<open>Faults\<close>

text \<open>
  What a routine does when it does not return: it dereferences a null pointer, leaves the
  bounds of an array, violates an \<open>assert\<close>, calls \<open>panic\<close>, loops for ever, or runs into an
  operation C leaves undefined.  A
  routine that can do so has the result type \<open>'a res\<close>.
\<close>

datatype fault = NullDeref | OutOfBounds | AssertFail | Panic | Diverge | Undefined

type_synonym 'a res = "fault + 'a"

definition bind_res :: "'a res \<Rightarrow> ('a \<Rightarrow> 'b res) \<Rightarrow> 'b res" where
  "bind_res r k = (case r of Inl e \<Rightarrow> Inl e | Inr x \<Rightarrow> k x)"

lemma bind_res_simps [simp]:
  "bind_res (Inl e) k = Inl e"
  "bind_res (Inr x) k = k x"
  by (simp_all add: bind_res_def)

lemma bind_res_InrE:
  assumes "bind_res r k = Inr y"
  obtains x where "r = Inr x" "k x = Inr y"
  using assms by (cases r) simp_all

lemma bind_res_Inr_conv: "bind_res r k = Inr y \<longleftrightarrow> (\<exists>x. r = Inr x \<and> k x = Inr y)"
  by (cases r) simp_all

section \<open>Runs of events\<close>

text \<open>
  A component as its environment drives it: events that are possible in the current state, one after the
  other, none of them ending in a fault.
\<close>

inductive runs :: "('e \<Rightarrow> 's \<Rightarrow> bool) \<Rightarrow> ('e \<Rightarrow> 's \<Rightarrow> 's res) \<Rightarrow> 's \<Rightarrow> 'e list \<Rightarrow> 's \<Rightarrow> bool"
  for possible handle m where
  start: "runs possible handle m [] m"
| happens: "runs possible handle m es m1 \<Longrightarrow> possible e m1 \<Longrightarrow> handle e m1 = Inr m2 \<Longrightarrow> runs possible handle m (es @ [e]) m2"

text \<open>
  The contract of a component that is safe to drive: in a well-formed state every possible event is handled
  without a fault and leaves a well-formed state.
\<close>

locale safe_events =
  fixes ok :: "'s \<Rightarrow> bool" and possible :: "'e \<Rightarrow> 's \<Rightarrow> bool" and handle :: "'e \<Rightarrow> 's \<Rightarrow> 's res"
  assumes safe: "ok m \<Longrightarrow> possible e m \<Longrightarrow> \<exists>m'. handle e m = Inr m' \<and> ok m'"
begin

lemma run_ok: "runs possible handle m es m' \<Longrightarrow> ok m \<Longrightarrow> ok m'"
proof (induction rule: runs.induct)
  case (happens es m1 e m2)
  then show ?case using safe [of m1 e] by auto
qed

lemma never_faults:
  assumes "ok m" and "runs possible handle m es m'"
  shows "ok m' \<and> (\<forall>e. possible e m' \<longrightarrow> (\<exists>m''. handle e m' = Inr m'' \<and> ok m''))"
  using run_ok [OF assms(2,1)] safe by blast

end

section \<open>Error numbers\<close>

text \<open>\<open>toolchain/patches/newlib/lyos/sys/errno.h\<close>; the kernel returns them positive.\<close>

abbreviation EPERM :: int where "EPERM \<equiv> 1"
abbreviation ENOENT :: int where "ENOENT \<equiv> 2"
abbreviation ESRCH :: int where "ESRCH \<equiv> 3"
abbreviation EAGAIN :: int where "EAGAIN \<equiv> 11"
abbreviation ENOMEM :: int where "ENOMEM \<equiv> 12"
abbreviation EFAULT :: int where "EFAULT \<equiv> 14"
abbreviation EBUSY :: int where "EBUSY \<equiv> 16"
abbreviation EINVAL :: int where "EINVAL \<equiv> 22"
abbreviation ENOSPC :: int where "ENOSPC \<equiv> 28"
abbreviation EDEADLK :: int where "EDEADLK \<equiv> 45"
abbreviation ENOSYS :: int where "ENOSYS \<equiv> 88"
abbreviation ELOOP :: int where "ELOOP \<equiv> 92"

section \<open>Flag words\<close>

text \<open>
  Collection of rewrite rules that decide whether a flag is set after other flags of the
  same word were set or cleared.
\<close>

named_theorems flag_simps

definition has_flag :: "u32 \<Rightarrow> u32 \<Rightarrow> bool" where
  "has_flag w f \<longleftrightarrow> w AND f \<noteq> 0"

lemma and_or_distrib_disjoint: "f AND g = 0 \<Longrightarrow> (w OR f) AND g = w AND (g :: u32)"
  by (simp add: bit.conj_disj_distrib2)

lemma and_not_disjoint: "f AND g = 0 \<Longrightarrow> (w AND NOT f) AND g = w AND (g :: u32)"
  by (auto simp: bit_eq_iff bit_simps)

lemma has_flag_or [flag_simps]: "has_flag (w OR f) g \<longleftrightarrow> has_flag w g \<or> has_flag f g"
  by (auto simp: has_flag_def bit.conj_disj_distrib2 bit_eq_iff bit_simps)

lemma has_flag_clear_other [flag_simps]:
  "f AND g = 0 \<Longrightarrow> has_flag (w AND NOT f) g \<longleftrightarrow> has_flag w g"
  by (simp add: has_flag_def and_not_disjoint)

lemma has_flag_clear_self [flag_simps]: "\<not> has_flag (w AND NOT f) f"
  by (simp add: has_flag_def and.assoc)

lemma has_flag_0 [flag_simps]: "\<not> has_flag 0 f"
  by (simp add: has_flag_def)

text \<open>The same after \<open>NOT f\<close> has been evaluated to a numeral.\<close>

lemma has_flag_mask_keep [flag_simps]: "m AND g = g \<Longrightarrow> has_flag (w AND m) g \<longleftrightarrow> has_flag w g"
  by (metis has_flag_def and.assoc)

lemma has_flag_mask_drop [flag_simps]: "m AND g = 0 \<Longrightarrow> \<not> has_flag (w AND m) g"
  by (simp add: has_flag_def and.assoc)

lemma has_flag_numerals [flag_simps]:
  "has_flag (numeral a) (numeral b) \<longleftrightarrow> (numeral a :: u32) AND numeral b \<noteq> 0"
  "has_flag 1 (numeral b) \<longleftrightarrow> (1 :: u32) AND numeral b \<noteq> 0"
  "has_flag (numeral a) 1 \<longleftrightarrow> (numeral a :: u32) AND 1 \<noteq> 0"
  "has_flag 1 1"
  by (simp_all add: has_flag_def)

lemma has_flag_nonzero: "has_flag w f \<Longrightarrow> w \<noteq> 0"
  by (auto simp: has_flag_def)

section \<open>Linked lists\<close>

text \<open>\<open>as\<close> is the sequence of table entries linked by \<open>n\<close> from \<open>x\<close>.\<close>

fun qpath :: "('a \<Rightarrow> 'a option) \<Rightarrow> 'a option \<Rightarrow> 'a list \<Rightarrow> bool" where
  "qpath n x [] \<longleftrightarrow> x = None"
| "qpath n x (a # as) \<longleftrightarrow> x = Some a \<and> qpath n (n a) as"

lemma qpath_upd_other: "a \<notin> set as \<Longrightarrow> qpath (n(a := v)) x as = qpath n x as"
  by (induction as arbitrary: x) auto

lemma qpath_cong: "(\<And>a. a \<in> set as \<Longrightarrow> n a = n' a) \<Longrightarrow> qpath n x as = qpath n' x as"
  by (induction as arbitrary: x) auto

lemma qpath_last: "qpath n x as \<Longrightarrow> as \<noteq> [] \<Longrightarrow> n (last as) = None"
  by (induction as arbitrary: x) auto

lemma qpath_snoc:
  "qpath n x as \<Longrightarrow> as \<noteq> [] \<Longrightarrow> distinct as \<Longrightarrow> p \<notin> set as \<Longrightarrow>
    qpath (n(last as := Some p, p := None)) x (as @ [p])"
proof (induction as arbitrary: x)
  case (Cons a as)
  then show ?case
    by (cases as) (auto simp: fun_upd_twist)
qed simp

lemma qpath_unlink:
  "qpath n x (as @ b # f # cs) \<Longrightarrow> distinct (as @ b # f # cs) \<Longrightarrow>
    qpath (n(b := n f, f := None)) x (as @ b # cs)"
proof (induction as arbitrary: x)
  case Nil
  then show ?case by (auto simp: qpath_upd_other simp del: fun_upd_apply) (simp add: qpath_upd_other)
qed auto

lemma qpath_same: "qpath n x as \<Longrightarrow> qpath n x bs \<Longrightarrow> as = bs"
proof (induction as arbitrary: x bs)
  case Nil
  then show ?case by (cases bs) auto
next
  case (Cons a as)
  then show ?case by (cases bs) auto
qed

section \<open>Index ranges\<close>

lemma all_range_split:
  fixes a b c :: nat
  assumes "a \<le> b" and "b \<le> c"
  shows "(\<forall>i. a \<le> i \<and> i < c \<longrightarrow> P i) \<longleftrightarrow>
    (\<forall>i. a \<le> i \<and> i < b \<longrightarrow> P i) \<and> (\<forall>i. b \<le> i \<and> i < c \<longrightarrow> P i)"
  using assms by (meson le_less_linear less_le_trans order_trans)

lemma all_offset_range:
  fixes a n :: nat
  shows "(\<forall>i. a \<le> i \<and> i < a + n \<longrightarrow> P i) \<longleftrightarrow> (\<forall>j<n. P (a + j))"
proof (intro iffI allI impI)
  fix i assume "\<forall>j<n. P (a + j)" and "a \<le> i \<and> i < a + n"
  then show "P i" using le_add_diff_inverse [of a i] by (metis nat_add_left_cancel_less)
qed simp

end
