(* ===== verification/List_Head.thy ===== *)
theory List_Head
  imports Lyos_Prelude
begin

text \<open>
  The intrusive doubly linked lists of \<open>include/lyos/list.h\<close>, at the level of their
  pointers: a store of \<open>prev\<close> and \<open>next\<close> fields indexed by node address.  The
  operations are shown to implement finite sequences; the run queues, timer lists, wait
  queues and grant free lists of the other theories are modelled as HOL lists on the
  strength of that refinement.
\<close>

section \<open>The operations\<close>

record list_store =
  prev :: "nat \<Rightarrow> nat"
  nxt :: "nat \<Rightarrow> nat"

definition INIT_LIST_HEAD :: "nat \<Rightarrow> list_store \<Rightarrow> list_store" where
  "INIT_LIST_HEAD p s = s\<lparr>nxt := (nxt s)(p := p), prev := (prev s)(p := p)\<rparr>"

definition list_empty :: "list_store \<Rightarrow> nat \<Rightarrow> bool" where
  "list_empty s l \<longleftrightarrow> nxt s l = l"

definition list_add_between :: "nat \<Rightarrow> nat \<Rightarrow> nat \<Rightarrow> list_store \<Rightarrow> list_store" where
  "list_add_between new pre nx s =
     (let s = s\<lparr>prev := (prev s)(new := pre)\<rparr>;
          s = s\<lparr>nxt := (nxt s)(new := nx)\<rparr>;
          s = s\<lparr>nxt := (nxt s)(pre := new)\<rparr>
      in s\<lparr>prev := (prev s)(nx := new)\<rparr>)"

definition list_add :: "nat \<Rightarrow> nat \<Rightarrow> list_store \<Rightarrow> list_store" where
  "list_add new head s = list_add_between new head (nxt s head) s"

definition list_add_tail :: "nat \<Rightarrow> nat \<Rightarrow> list_store \<Rightarrow> list_store" where
  "list_add_tail new head s = list_add_between new (prev s head) head s"

definition list_del :: "nat \<Rightarrow> list_store \<Rightarrow> list_store" where
  "list_del node s =
     (let s = s\<lparr>nxt := (nxt s)(prev s node := nxt s node)\<rparr>;
          s = s\<lparr>prev := (prev s)(nxt s node := prev s node)\<rparr>;
          s = s\<lparr>prev := (prev s)(node := node)\<rparr>
      in s\<lparr>nxt := (nxt s)(node := node)\<rparr>)"

definition list_splice_between :: "nat \<Rightarrow> nat \<Rightarrow> nat \<Rightarrow> list_store \<Rightarrow> list_store" where
  "list_splice_between l pre nx s =
     (let first = nxt s l;
          last = prev s l;
          s = s\<lparr>prev := (prev s)(first := pre)\<rparr>;
          s = s\<lparr>nxt := (nxt s)(pre := first)\<rparr>;
          s = s\<lparr>nxt := (nxt s)(last := nx)\<rparr>
      in s\<lparr>prev := (prev s)(nx := last)\<rparr>)"

definition list_splice :: "nat \<Rightarrow> nat \<Rightarrow> list_store \<Rightarrow> list_store" where
  "list_splice l head s =
     (if \<not> list_empty s l then list_splice_between l head (nxt s head) s else s)"

definition list_splice_init :: "nat \<Rightarrow> nat \<Rightarrow> list_store \<Rightarrow> list_store" where
  "list_splice_init l head s =
     (if \<not> list_empty s l
      then INIT_LIST_HEAD l (list_splice_between l head (nxt s head) s) else s)"

text \<open>
  \<open>list_for_each_entry\<close>: the nodes visited from \<open>pos\<close> until the head comes round again.
  The loop ends only on a proper ring, so it runs on fuel and \<open>None\<close> is "not yet back".
\<close>

fun list_walk :: "nat \<Rightarrow> list_store \<Rightarrow> nat \<Rightarrow> nat \<Rightarrow> nat list option" where
  "list_walk 0 s head pos = None"
| "list_walk (Suc fuel) s head pos =
     (if pos = head then Some []
      else map_option (\<lambda>ps. pos # ps) (list_walk fuel s head (nxt s pos)))"

definition list_for_each_entry :: "nat \<Rightarrow> list_store \<Rightarrow> nat \<Rightarrow> nat list option" where
  "list_for_each_entry fuel s head = list_walk fuel s head (nxt s head)"

section \<open>Abstraction to sequences\<close>

text \<open>\<open>seg s a xs b\<close>: from \<open>a\<close> the links lead through exactly \<open>xs\<close> to \<open>b\<close>, both ways.\<close>

fun seg :: "list_store \<Rightarrow> nat \<Rightarrow> nat list \<Rightarrow> nat \<Rightarrow> bool" where
  "seg s a [] b \<longleftrightarrow> nxt s a = b \<and> prev s b = a"
| "seg s a (x # xs) b \<longleftrightarrow> nxt s a = x \<and> prev s x = a \<and> seg s x xs b"

definition is_list :: "list_store \<Rightarrow> nat \<Rightarrow> nat list \<Rightarrow> bool" where
  "is_list s h xs \<longleftrightarrow> distinct (h # xs) \<and> seg s h xs h"

lemma seg_append: "seg s a (xs @ y # ys) b \<longleftrightarrow> seg s a xs y \<and> seg s y ys b"
  by (induction xs arbitrary: a) auto

lemma seg_cong:
  assumes "\<forall>x \<in> set (a # xs). nxt s' x = nxt s x"
    and "\<forall>x \<in> set (xs @ [b]). prev s' x = prev s x"
  shows "seg s' a xs b \<longleftrightarrow> seg s a xs b"
  using assms by (induction xs arbitrary: a) auto

lemma is_list_frame:
  assumes "is_list s h xs"
    and "\<forall>x \<in> set (h # xs). nxt s' x = nxt s x \<and> prev s' x = prev s x"
  shows "is_list s' h xs"
  using assms seg_cong [of h xs s' s h] by (auto simp: is_list_def)

lemma seg_prev_last: "seg s a xs b \<Longrightarrow> prev s b = last (a # xs)"
  by (induction xs arbitrary: a) auto

lemma seg_next_hd: "seg s a xs b \<Longrightarrow> nxt s a = hd (xs @ [b])"
  by (cases xs) auto

lemma seg_next_in: "seg s a xs b \<Longrightarrow> x \<in> set (a # xs) \<Longrightarrow> nxt s x \<in> set (xs @ [b])"
  by (induction xs arbitrary: a) auto

lemma seg_prev_in: "seg s a xs b \<Longrightarrow> x \<in> set (xs @ [b]) \<Longrightarrow> prev s x \<in> set (a # xs)"
  by (induction xs arbitrary: a) (auto split: if_splits)

lemma is_list_empty_iff: "is_list s h xs \<Longrightarrow> list_empty s h \<longleftrightarrow> xs = []"
  by (cases xs) (auto simp: is_list_def list_empty_def)

lemma is_list_INIT: "is_list (INIT_LIST_HEAD h s) h []"
  by (simp add: is_list_def INIT_LIST_HEAD_def)

text \<open>Insertion between two adjacent nodes, and removal of a node, on segments.\<close>

lemma add_between_fields:
  "new \<noteq> pre \<Longrightarrow> nxt (list_add_between new pre nx s) = (nxt s)(new := nx, pre := new)"
  "new \<noteq> nx \<Longrightarrow> prev (list_add_between new pre nx s) = (prev s)(new := pre, nx := new)"
  by (auto simp: list_add_between_def Let_def)

lemma seg_insert:
  assumes "seg s a (xs @ ys) b" and "distinct (a # xs @ ys)" and "b \<notin> set (xs @ ys)"
    and "new \<notin> set (a # xs @ ys @ [b])"
  shows "seg (list_add_between new (last (a # xs)) (hd (ys @ [b])) s) a (xs @ new # ys) b"
  using assms
proof (induction xs arbitrary: a)
  case Nil
  show ?case
  proof (cases ys)
    case Nil
    with Nil.prems show ?thesis by (auto simp: add_between_fields)
  next
    case (Cons y ys')
    with Nil.prems have "seg (list_add_between new a y s) y ys' b"
      by (subst seg_cong [of _ _ _ s]) (auto simp: add_between_fields)
    with Cons Nil.prems show ?thesis by (auto simp: add_between_fields)
  qed
next
  case (Cons x xs)
  let ?s' = "list_add_between new (last (x # xs)) (hd (ys @ [b])) s"
  have IH: "seg ?s' x (xs @ new # ys) b"
    using Cons.prems by (intro Cons.IH) auto
  define l where "l = last (x # xs)"
  define f where "f = hd (ys @ [b])"
  have "l \<in> set (x # xs)" unfolding l_def by (rule last_in_set) simp
  moreover have "f \<in> set (ys @ [b])" unfolding f_def by (rule hd_in_set) simp
  ultimately have ne: "l \<noteq> a" "f \<noteq> x" "new \<noteq> l" "new \<noteq> f" "new \<noteq> a" "new \<noteq> x"
    using Cons.prems(2,3,4) by auto
  with Cons.prems(1) have "nxt ?s' a = x \<and> prev ?s' x = a"
    unfolding l_def [symmetric] f_def [symmetric] by (simp add: add_between_fields)
  with IH show ?case by (simp del: last.simps add: last_ConsR)
qed

lemma list_del_fields:
  assumes "seg s a (xs @ n # ys) b" and "distinct (a # xs @ n # ys)" and "b \<notin> set (xs @ n # ys)"
  shows "nxt (list_del n s) = (nxt s)(last (a # xs) := hd (ys @ [b]), n := n)"
    and "prev (list_del n s) = (prev s)(hd (ys @ [b]) := last (a # xs), n := n)"
proof -
  from assms(1) have p: "prev s n = last (a # xs)" and q: "nxt s n = hd (ys @ [b])"
    by (auto simp: seg_append dest: seg_prev_last seg_next_hd)
  have "last (a # xs) \<in> set (a # xs)" by (rule last_in_set) simp
  with assms(2) have "last (a # xs) \<noteq> n" by auto
  moreover have "hd (ys @ [b]) \<in> set (ys @ [b])" by (rule hd_in_set) simp
  with assms(2,3) have "hd (ys @ [b]) \<noteq> n" by auto
  ultimately show "nxt (list_del n s) = (nxt s)(last (a # xs) := hd (ys @ [b]), n := n)"
    and "prev (list_del n s) = (prev s)(hd (ys @ [b]) := last (a # xs), n := n)"
    using p q by (auto simp: list_del_def Let_def)
qed

lemma seg_delete:
  assumes "seg s a (xs @ n # ys) b" and "distinct (a # xs @ n # ys)" and "b \<notin> set (xs @ n # ys)"
  shows "seg (list_del n s) a (xs @ ys) b"
  using assms
proof (induction xs arbitrary: a)
  case Nil
  note fields = list_del_fields [OF Nil.prems]
  show ?case
  proof (cases ys)
    case Nil
    with Nil.prems fields show ?thesis by auto
  next
    case (Cons y ys')
    with Nil.prems fields have "seg (list_del n s) y ys' b"
      by (subst seg_cong [of _ _ _ s]) auto
    with Cons Nil.prems fields show ?thesis by auto
  qed
next
  case (Cons x xs)
  have IH: "seg (list_del n s) x (xs @ ys) b"
    using Cons.prems by (intro Cons.IH) auto
  define l where "l = last (a # x # xs)"
  define f where "f = hd (ys @ [b])"
  note fields = list_del_fields [OF Cons.prems, folded l_def f_def]
  have "l \<in> set (x # xs)" by (simp add: l_def)
  moreover have "f \<in> set (ys @ [b])" unfolding f_def by (rule hd_in_set) simp
  ultimately have "l \<noteq> a \<and> f \<noteq> x \<and> n \<noteq> a \<and> n \<noteq> x"
    using Cons.prems(2,3) by auto
  with Cons.prems(1) have "nxt (list_del n s) a = x \<and> prev (list_del n s) x = a"
    by (simp add: fields)
  with IH show ?case by simp
qed

section \<open>The operations implement sequence operations\<close>

lemma is_list_add:
  assumes "is_list s h xs" and "new \<notin> set (h # xs)"
  shows "is_list (list_add new h s) h (new # xs)"
proof -
  from assms(1) have "nxt s h = hd (xs @ [h])"
    by (auto simp: is_list_def dest: seg_next_hd)
  with assms seg_insert [of s h "[]" xs h new] show ?thesis
    by (auto simp: is_list_def list_add_def)
qed

lemma is_list_add_tail:
  assumes "is_list s h xs" and "new \<notin> set (h # xs)"
  shows "is_list (list_add_tail new h s) h (xs @ [new])"
proof -
  from assms(1) have "prev s h = last (h # xs)"
    by (auto simp: is_list_def dest: seg_prev_last)
  with assms seg_insert [of s h xs "[]" h new] show ?thesis
    by (auto simp: is_list_def list_add_tail_def)
qed

lemma is_list_del:
  assumes "is_list s h (xs @ n # ys)"
  shows "is_list (list_del n s) h (xs @ ys)" and "is_list (list_del n s) n []"
  using assms seg_delete [of s h xs n ys h] list_del_fields [of s h xs n ys h]
  by (auto simp: is_list_def)

lemma list_del_unlinked: "is_list s n [] \<Longrightarrow> list_del n s = s"
  by (auto simp: is_list_def list_del_def Let_def fun_upd_idem)

text \<open>Other rings that share no node with the one changed keep their contents.\<close>

lemma is_list_add_frame:
  assumes "is_list s h xs" and "new \<notin> set (h # xs)" and "is_list s k ys"
    and "set (h # xs) \<inter> set (k # ys) = {}" and "new \<notin> set (k # ys)"
  shows "is_list (list_add new h s) k ys"
proof (rule is_list_frame [OF assms(3)])
  from assms(1) have "nxt s h \<in> set (h # xs)"
    using seg_next_in [of s h xs h h] by (auto simp: is_list_def)
  with assms(2,4,5) show "\<forall>x \<in> set (k # ys). nxt (list_add new h s) x = nxt s x \<and>
      prev (list_add new h s) x = prev s x"
    by (auto simp: list_add_def list_add_between_def Let_def)
qed

lemma is_list_del_frame:
  assumes "is_list s h (xs @ n # zs)" and "is_list s k ys"
    and "set (h # xs @ n # zs) \<inter> set (k # ys) = {}"
  shows "is_list (list_del n s) k ys"
proof (rule is_list_frame [OF assms(2)])
  have "last (h # xs) \<in> set (h # xs)" "hd (zs @ [h]) \<in> set (zs @ [h])"
    by (rule last_in_set hd_in_set; simp)+
  with assms(1,3) show "\<forall>x \<in> set (k # ys). nxt (list_del n s) x = nxt s x \<and>
      prev (list_del n s) x = prev s x"
    using list_del_fields [of s h xs n zs h] by (auto simp: is_list_def)
qed

lemma list_walk_seg:
  assumes "seg s a xs h" and "h \<notin> set xs" and "length xs < fuel"
  shows "list_walk fuel s h (nxt s a) = Some xs"
  using assms
proof (induction xs arbitrary: a fuel)
  case Nil
  then show ?case by (cases fuel) auto
next
  case (Cons x xs)
  then obtain f where "fuel = Suc f" by (cases fuel) auto
  with Cons.prems Cons.IH [of x f] show ?case by auto
qed

text \<open>Splicing: a non-empty ring is opened at its head and put in front of another one.\<close>

lemma seg_relink:
  assumes "seg s a xs b" and "distinct (a # xs)"
    and "\<forall>y \<in> set (butlast (a # xs)). nxt s' y = nxt s y" and "\<forall>y \<in> set xs. prev s' y = prev s y"
    and "nxt s' (last (a # xs)) = c" and "prev s' c = last (a # xs)"
  shows "seg s' a xs c"
  using assms by (induction xs arbitrary: a) (auto split: if_splits)

lemma splice_fields:
  assumes "nxt s l = x" and "prev s l = z" and "h \<noteq> z" and "x \<noteq> nx"
  shows "nxt (list_splice_between l h nx s) = (nxt s)(h := x, z := nx)"
    and "prev (list_splice_between l h nx s) = (prev s)(x := h, nx := z)"
  using assms by (auto simp: list_splice_between_def Let_def)

lemma is_list_splice:
  assumes l: "is_list s l (x # xs)" and h: "is_list s h ys"
    and disj: "set (l # x # xs) \<inter> set (h # ys) = {}"
  shows "is_list (list_splice_between l h (nxt s h) s) h (x # xs @ ys)"
proof -
  define z where "z = last (x # xs)"
  define s' where "s' = list_splice_between l h (nxt s h) s"
  have z: "z \<in> set (x # xs)" unfolding z_def by (rule last_in_set) simp
  from h have nx: "nxt s h = hd (ys @ [h])" by (auto simp: is_list_def dest: seg_next_hd)
  have nxin: "hd (ys @ [h]) \<in> set (ys @ [h])" by (rule hd_in_set) simp
  from l have lz: "nxt s l = x" "prev s l = z" "seg s x xs l" "distinct (x # xs)"
    by (auto simp: is_list_def z_def dest: seg_prev_last)
  from disj z nxin nx have ne: "h \<noteq> z" "x \<noteq> nxt s h" by auto
  note f = splice_fields [OF lz(1,2) ne, folded s'_def]
  have but: "\<forall>y \<in> set (butlast (x # xs)). y \<noteq> z"
    using lz(4) unfolding z_def
    by (metis append_butlast_last_id distinct_append disjoint_iff list.distinct(1) list.set_intros(1))
  have bl: "set (butlast (x # xs)) \<subseteq> set (x # xs)" by (auto dest: in_set_butlastD)
  have "seg s' x xs (nxt s h)"
  proof (rule seg_relink [OF lz(3,4)])
    show "\<forall>y \<in> set (butlast (x # xs)). nxt s' y = nxt s y"
      using f but bl disj by (metis (no_types, lifting) IntI empty_iff fun_upd_apply insertCI
          list.simps(15) subsetD)
    show "\<forall>y \<in> set xs. prev s' y = prev s y"
      using f lz(4) disj nx nxin by auto
    show "nxt s' (last (x # xs)) = nxt s h" "prev s' (nxt s h) = last (x # xs)"
      unfolding f z_def by simp_all
  qed
  moreover have "nxt s' h = x" "prev s' x = h" using ne f by auto
  moreover have "ys \<noteq> [] \<Longrightarrow> seg s' (hd ys) (tl ys) h"
  proof -
    assume "ys \<noteq> []"
    then obtain y ys' where ys: "ys = y # ys'" by (cases ys) auto
    with h have "seg s y ys' h" "distinct (y # ys')" "h \<notin> set ys" by (auto simp: is_list_def)
    moreover have "z \<notin> set ys" "x \<notin> set ys" "x \<noteq> h" using disj z by auto
    moreover have "nxt s h = y" using nx ys by simp
    ultimately show ?thesis unfolding ys list.sel
      using f ys by (subst seg_cong [of _ _ _ s]) auto
  qed
  ultimately have "seg s' h (x # xs @ ys) h"
    using nx by (cases ys) (auto simp: seg_append)
  moreover have "distinct (h # x # xs @ ys)" using l h disj by (auto simp: is_list_def)
  ultimately show ?thesis unfolding s'_def [symmetric] by (simp add: is_list_def)
qed

section \<open>The interface the other components use\<close>

text \<open>
  A store of rings: \<open>rep s h xs\<close> says that the ring with head \<open>h\<close> holds the nodes
  \<open>xs\<close> in this order.  The laws are what a client of \<open>list.h\<close> relies on.
\<close>

locale ring_store =
  fixes rep :: "'s \<Rightarrow> 'n \<Rightarrow> 'n list \<Rightarrow> bool"
    and add :: "'n \<Rightarrow> 'n \<Rightarrow> 's \<Rightarrow> 's"
    and del :: "'n \<Rightarrow> 's \<Rightarrow> 's"
  assumes rep_distinct: "rep s h xs \<Longrightarrow> distinct (h # xs)"
    and rep_add: "rep s h xs \<Longrightarrow> n \<notin> set (h # xs) \<Longrightarrow> rep (add n h s) h (n # xs)"
    and rep_add_frame: "rep s h xs \<Longrightarrow> n \<notin> set (h # xs) \<Longrightarrow> rep s k ys \<Longrightarrow>
      set (h # xs) \<inter> set (k # ys) = {} \<Longrightarrow> n \<notin> set (k # ys) \<Longrightarrow> rep (add n h s) k ys"
    and rep_del: "rep s h (xs @ n # ys) \<Longrightarrow> rep (del n s) h (xs @ ys)"
    and rep_del_frame: "rep s h (xs @ n # zs) \<Longrightarrow> rep s k ys \<Longrightarrow>
      set (h # xs @ n # zs) \<inter> set (k # ys) = {} \<Longrightarrow> rep (del n s) k ys"
begin

text \<open>Moving a node from one ring to the front of another one.\<close>

lemma rep_move:
  assumes "rep s h (xs @ n # ys)" and "rep s k zs"
    and "set (h # xs @ n # ys) \<inter> set (k # zs) = {}"
  shows "rep (add n k (del n s)) h (xs @ ys)" and "rep (add n k (del n s)) k (n # zs)"
proof -
  have k: "rep (del n s) k zs" by (rule rep_del_frame [OF assms])
  have h: "rep (del n s) h (xs @ ys)" by (rule rep_del [OF assms(1)])
  have "n \<notin> set (k # zs)" using assms(3) by auto
  then show "rep (add n k (del n s)) k (n # zs)" using k by (intro rep_add)
  have "n \<notin> set (h # xs @ ys)" using rep_distinct [OF assms(1)] by auto
  then show "rep (add n k (del n s)) h (xs @ ys)"
    using assms(3) by (intro rep_add_frame [OF k _ h]) auto
qed

text \<open>Draining a ring into another one, front node first, reverses it.\<close>

fun drain :: "'n list \<Rightarrow> 'n \<Rightarrow> 's \<Rightarrow> 's" where
  "drain [] k s = s"
| "drain (n # ns) k s = drain ns k (add n k (del n s))"

lemma rep_drain:
  assumes "rep s h (xs @ ys)" and "rep s k zs" and "set (h # xs @ ys) \<inter> set (k # zs) = {}"
  shows "rep (drain xs k s) h ys \<and> rep (drain xs k s) k (rev xs @ zs)"
  using assms
proof (induction xs arbitrary: s zs)
  case Nil
  then show ?case by simp
next
  case (Cons n ns)
  let ?s = "add n k (del n s)"
  have "rep ?s h (ns @ ys)" "rep ?s k (n # zs)"
    using rep_move [of s h "[]" n "ns @ ys" k zs] Cons.prems by auto
  moreover have "n \<notin> set (h # ns @ ys)"
    using rep_distinct [OF Cons.prems(1)] by auto
  ultimately show ?case
    using Cons.IH [of ?s "n # zs"] Cons.prems(3) by auto
qed

end

interpretation lh: ring_store is_list list_add list_del
proof unfold_locales
  show "\<And>s h xs. is_list s h xs \<Longrightarrow> distinct (h # xs)" by (simp add: is_list_def)
  show "\<And>s h xs n. is_list s h xs \<Longrightarrow> n \<notin> set (h # xs) \<Longrightarrow> is_list (list_add n h s) h (n # xs)"
    by (rule is_list_add)
  show "\<And>s h xs n k ys. is_list s h xs \<Longrightarrow> n \<notin> set (h # xs) \<Longrightarrow> is_list s k ys \<Longrightarrow>
      set (h # xs) \<inter> set (k # ys) = {} \<Longrightarrow> n \<notin> set (k # ys) \<Longrightarrow> is_list (list_add n h s) k ys"
    by (rule is_list_add_frame)
  show "\<And>s h xs n ys. is_list s h (xs @ n # ys) \<Longrightarrow> is_list (list_del n s) h (xs @ ys)"
    by (rule is_list_del)
  show "\<And>s h xs n zs k ys. is_list s h (xs @ n # zs) \<Longrightarrow> is_list s k ys \<Longrightarrow>
      set (h # xs @ n # zs) \<inter> set (k # ys) = {} \<Longrightarrow> is_list (list_del n s) k ys"
    by (rule is_list_del_frame)
qed

section \<open>Properties\<close>

text \<open>
  C35: taking a node off one ring with \<open>list_del\<close> and inserting it into another one with
  \<open>list_add\<close> removes exactly that node from the first sequence and puts it in front of
  the second one; no other node of either ring moves.
\<close>

theorem list_move_refines:
  assumes "is_list s h (xs @ n # ys)" and "is_list s k zs"
    and "set (h # xs @ n # ys) \<inter> set (k # zs) = {}"
  shows "is_list (list_add n k (list_del n s)) h (xs @ ys) \<and>
    is_list (list_add n k (list_del n s)) k (n # zs)"
  using lh.rep_move [OF assms] by simp

definition demo_store :: list_store where
  "demo_store = list_add_tail 11 1 (list_add_tail 10 1
     (INIT_LIST_HEAD 2 (INIT_LIST_HEAD 1 \<lparr>prev = (\<lambda>_. 0), nxt = (\<lambda>_. 0)\<rparr>)))"

lemma demo_store_lists: "is_list demo_store 1 [10, 11]" "is_list demo_store 2 []"
  by (simp_all add: demo_store_def is_list_def list_add_tail_def list_add_between_def
      INIT_LIST_HEAD_def Let_def)

theorem list_move_refines_witness:
  "is_list (list_add 10 2 (list_del 10 demo_store)) 1 [11] \<and>
   is_list (list_add 10 2 (list_del 10 demo_store)) 2 [10]"
  using list_move_refines [of demo_store 1 "[]" 10 "[11]" 2 "[]"] demo_store_lists by simp

text \<open>
  C36: \<open>list_splice_init\<close> prepends the whole contents of one ring to another one and
  leaves the first ring empty.
\<close>

theorem list_splice_init_refines:
  assumes "is_list s l xs" and "is_list s h ys" and "set (l # xs) \<inter> set (h # ys) = {}"
  shows "is_list (list_splice_init l h s) h (xs @ ys) \<and> is_list (list_splice_init l h s) l []"
proof (cases xs)
  case Nil
  with assms show ?thesis by (simp add: list_splice_init_def is_list_empty_iff [OF assms(1)])
next
  case (Cons x xs')
  let ?s' = "list_splice_between l h (nxt s h) s"
  have "is_list ?s' h (xs @ ys)"
    using is_list_splice [of s l x xs' h ys] assms Cons by simp
  then have "is_list (INIT_LIST_HEAD l ?s') h (xs @ ys)"
    using assms by (rule_tac is_list_frame) (auto simp: INIT_LIST_HEAD_def is_list_def)
  with Cons show ?thesis
    by (simp add: list_splice_init_def is_list_empty_iff [OF assms(1)] is_list_INIT)
qed

theorem list_splice_init_refines_witness:
  "is_list (list_splice_init 1 2 demo_store) 2 [10, 11] \<and>
   is_list (list_splice_init 1 2 demo_store) 1 []"
  using list_splice_init_refines [of demo_store 1 "[10, 11]" 2 "[]"] demo_store_lists by simp

text \<open>
  \<open>list_for_each_entry\<close> ends after visiting every node of a ring exactly once, in
  list order; one step of fuel more than the ring has nodes is enough.
\<close>

theorem list_for_each_entry_visits:
  assumes "is_list s h xs" and "length xs < fuel"
  shows "list_for_each_entry fuel s h = Some xs"
  using assms by (auto simp: list_for_each_entry_def is_list_def intro: list_walk_seg)

theorem list_for_each_entry_visits_witness: "list_for_each_entry 3 demo_store 1 = Some [10, 11]"
  using list_for_each_entry_visits [of demo_store 1 "[10, 11]" 3] demo_store_lists by simp

end
