(* ===== verification/Bitmap.thy ===== *)
theory Bitmap
  imports Lyos_Prelude
begin

text \<open>
  Bitmaps: the macros of \<open>include/lyos/bitmap.h\<close> and the searches of
  \<open>lib/liblyos/bitmap.c\<close>, for 64-bit chunks (\<open>unsigned long\<close> of the 64-bit
  targets).  A map is the array of its chunks; reading outside it is the fault
  \<open>OutOfBounds\<close>.
\<close>

unbundle bit_operations_syntax

section \<open>Macros\<close>

type_synonym bitmap = "u64 list"

abbreviation BITCHUNK_BITS :: nat where "BITCHUNK_BITS \<equiv> 64"

definition BITCHUNKS :: "nat \<Rightarrow> nat" where
  "BITCHUNKS bits = (bits + BITCHUNK_BITS - 1) div BITCHUNK_BITS"

definition GET_BIT :: "bitmap \<Rightarrow> nat \<Rightarrow> bool" where
  "GET_BIT m i \<longleftrightarrow>
     m ! (i div BITCHUNK_BITS) AND push_bit (i mod BITCHUNK_BITS) 1 \<noteq> 0"

definition SET_BIT :: "bitmap \<Rightarrow> nat \<Rightarrow> bitmap" where
  "SET_BIT m i =
     m[i div BITCHUNK_BITS :=
       m ! (i div BITCHUNK_BITS) OR push_bit (i mod BITCHUNK_BITS) 1]"

definition UNSET_BIT :: "bitmap \<Rightarrow> nat \<Rightarrow> bitmap" where
  "UNSET_BIT m i =
     m[i div BITCHUNK_BITS :=
       m ! (i div BITCHUNK_BITS) AND NOT (push_bit (i mod BITCHUNK_BITS) 1)]"

definition BITMAP_FIRST_WORD_MASK :: "nat \<Rightarrow> u64" where
  "BITMAP_FIRST_WORD_MASK start = push_bit (start mod BITCHUNK_BITS) (NOT 0)"

text \<open>\<open>-(nbits) & 63\<close> on an \<open>unsigned int\<close>.\<close>

definition BITMAP_LAST_WORD_MASK :: "nat \<Rightarrow> u64" where
  "BITMAP_LAST_WORD_MASK nbits = drop_bit (unat (- (of_nat nbits :: u32) AND 63)) (NOT 0)"

text \<open>An array read.\<close>

definition chunk_at :: "bitmap \<Rightarrow> nat \<Rightarrow> u64 res" where
  "chunk_at m i = (if i < length m then Inr (m ! i) else Inl OutOfBounds)"

section \<open>Searches\<close>

text \<open>\<open>bitmap_equal\<close>: the loop over whole chunks, then the masked last chunk.\<close>

function bitmap_equal_from :: "bitmap \<Rightarrow> bitmap \<Rightarrow> nat \<Rightarrow> nat \<Rightarrow> bool res" where
  "bitmap_equal_from b1 b2 bits k =
     (if k < bits div BITCHUNK_BITS then
        bind_res (chunk_at b1 k) (\<lambda>c1. bind_res (chunk_at b2 k) (\<lambda>c2.
          if c1 \<noteq> c2 then Inr False else bitmap_equal_from b1 b2 bits (k + 1)))
      else if bits mod BITCHUNK_BITS \<noteq> 0 then
        bind_res (chunk_at b1 k) (\<lambda>c1. bind_res (chunk_at b2 k) (\<lambda>c2.
          Inr ((c1 XOR c2) AND BITMAP_LAST_WORD_MASK bits = 0)))
      else Inr True)"
  by pat_completeness auto
termination
  by (relation "measure (\<lambda>(b1, b2, bits, k). bits div BITCHUNK_BITS - k)") auto

declare bitmap_equal_from.simps [simp del]

definition bitmap_equal :: "bitmap \<Rightarrow> bitmap \<Rightarrow> nat \<Rightarrow> bool res" where
  "bitmap_equal b1 b2 bits = bitmap_equal_from b1 b2 bits 0"

text \<open>
  \<open>while (!(chunk & 1)) { chunk >>= 1; bit++; }\<close>, which never ends on a zero chunk.
\<close>

function shift_to_bit :: "u64 \<Rightarrow> nat \<Rightarrow> nat res" where
  "shift_to_bit chunk b =
     (if chunk AND 1 \<noteq> 0 then Inr b
      else if chunk = 0 then Inl Diverge
      else shift_to_bit (drop_bit 1 chunk) (b + 1))"
  by pat_completeness auto
termination
proof (relation "measure (\<lambda>(chunk, b). unat chunk)", goal_cases)
  case (2 chunk b)
  then have "0 < unat chunk" by (simp add: unat_gt_0)
  then show ?case by (simp add: drop_bit_eq_div unat_div)
qed simp

declare shift_to_bit.simps [simp del]

function find_next_bit_loop :: "bitmap \<Rightarrow> nat \<Rightarrow> nat \<Rightarrow> u64 \<Rightarrow> nat res" where
  "find_next_bit_loop m sz index chunk =
     (if index < BITCHUNKS sz then
        if chunk \<noteq> 0 then
          bind_res (shift_to_bit chunk (index * BITCHUNK_BITS))
            (\<lambda>b. Inr (if b < sz then b else sz))
        else if index + 1 \<ge> BITCHUNKS sz then Inr sz
        else bind_res (chunk_at m (index + 1)) (\<lambda>c. find_next_bit_loop m sz (index + 1) c)
      else Inr sz)"
  by pat_completeness auto
termination
  by (relation "measure (\<lambda>(m, sz, index, chunk). BITCHUNKS sz - index)") auto

declare find_next_bit_loop.simps [simp del]

definition bitmap_find_next_bit :: "bitmap \<Rightarrow> nat \<Rightarrow> nat \<Rightarrow> nat res" where
  "bitmap_find_next_bit m sz start =
     (if start \<ge> sz then Inr sz
      else bind_res (chunk_at m (start div BITCHUNK_BITS)) (\<lambda>c.
        find_next_bit_loop m sz (start div BITCHUNK_BITS)
          (c AND BITMAP_FIRST_WORD_MASK start)))"

text \<open>\<open>GET_BIT\<close> as a read that may leave the array.\<close>

definition bit_at :: "bitmap \<Rightarrow> nat \<Rightarrow> bool res" where
  "bit_at m i = bind_res (chunk_at m (i div BITCHUNK_BITS)) (\<lambda>_. Inr (GET_BIT m i))"

text \<open>The inner loop of \<open>bitmap_find_next_zero_area\<close>: the first set bit before \<open>e\<close>, else \<open>e\<close>.\<close>

function first_set_before :: "bitmap \<Rightarrow> nat \<Rightarrow> nat \<Rightarrow> nat res" where
  "first_set_before m j e =
     (if j < e then bind_res (bit_at m j) (\<lambda>b. if b then Inr j else first_set_before m (j + 1) e)
      else Inr e)"
  by pat_completeness auto
termination
  by (relation "measure (\<lambda>(m, j, e). e - j)") auto

declare first_set_before.simps [simp del]

lemma first_set_before_ge: "first_set_before m j e = Inr k \<Longrightarrow> j \<le> e \<Longrightarrow> j \<le> k"
proof (induction m j e rule: first_set_before.induct)
  case (1 m j e)
  show ?case
  proof (cases "j < e")
    case True
    with "1.prems" obtain b where b: "bit_at m j = Inr b"
      "(if b then Inr j else first_set_before m (j + 1) e) = Inr k"
      by (auto simp: first_set_before.simps [of m j e] elim!: bind_res_InrE)
    show ?thesis
    proof (cases b)
      case True
      with b show ?thesis by simp
    next
      case False
      with b True "1.IH" [of b] show ?thesis by simp
    qed
  next
    case False
    with "1.prems" show ?thesis by (simp add: first_set_before.simps [of m j e])
  qed
qed

text \<open>
  The outer loop; \<open>index\<close> is the C variable of that name, which keeps the last candidate.
  After a busy bit at \<open>j\<close> the loop goes on at \<open>j + 2\<close>: the body adds one and so does the
  \<open>for\<close>.
\<close>

function zero_area_loop :: "bitmap \<Rightarrow> nat \<Rightarrow> nat \<Rightarrow> nat \<Rightarrow> nat \<Rightarrow> nat res" where
  "zero_area_loop m sz nr i index =
     (if i < sz then
        (case bit_at m i of
           Inl f \<Rightarrow> Inl f
         | Inr True \<Rightarrow> zero_area_loop m sz nr (i + 1) index
         | Inr False \<Rightarrow>
             if i + nr > sz then Inr (i + nr)
             else (case first_set_before m i (i + nr) of
                     Inl f \<Rightarrow> Inl f
                   | Inr j \<Rightarrow>
                       if j = i + nr then Inr i
                       else zero_area_loop m sz nr (j + 2) i))
      else Inr index)"
  by pat_completeness auto
termination
  by (relation "measure (\<lambda>(m, sz, nr, i, index). sz - i)") (auto dest!: first_set_before_ge)

declare zero_area_loop.simps [simp del]

definition bitmap_find_next_zero_area :: "bitmap \<Rightarrow> nat \<Rightarrow> nat \<Rightarrow> nat \<Rightarrow> nat res" where
  "bitmap_find_next_zero_area m sz start nr = zero_area_loop m sz nr start sz"

section \<open>Bits of chunks\<close>

named_theorems bitmap_simps

lemma GET_BIT_iff: "GET_BIT m i \<longleftrightarrow> bit (m ! (i div BITCHUNK_BITS)) (i mod BITCHUNK_BITS)"
  by (simp add: GET_BIT_def bit_iff_and_push_bit_not_eq_0)

lemma length_SET_BIT [bitmap_simps]: "length (SET_BIT m i) = length m"
  by (simp add: SET_BIT_def)

lemma length_UNSET_BIT [bitmap_simps]: "length (UNSET_BIT m i) = length m"
  by (simp add: UNSET_BIT_def)

lemma GET_SET_BIT [bitmap_simps]:
  "i < BITCHUNK_BITS * length m \<Longrightarrow> GET_BIT (SET_BIT m i) j \<longleftrightarrow> j = i \<or> GET_BIT m j"
  by (cases "i div 64 = j div 64")
     (auto simp: GET_BIT_iff SET_BIT_def bit_simps nth_list_update less_mult_imp_div_less
       mult.commute, metis div_mult_mod_eq)

lemma GET_UNSET_BIT [bitmap_simps]:
  "i < BITCHUNK_BITS * length m \<Longrightarrow> GET_BIT (UNSET_BIT m i) j \<longleftrightarrow> j \<noteq> i \<and> GET_BIT m j"
  by (cases "i div 64 = j div 64")
     (auto simp: GET_BIT_iff UNSET_BIT_def bit_simps nth_list_update less_mult_imp_div_less
       mult.commute, metis div_mult_mod_eq)

text \<open>The bitmap as a set of indices: the interface the scheduler and the kernel use.\<close>

locale bit_set =
  fixes member :: "'m \<Rightarrow> nat \<Rightarrow> bool"
    and insert_bit :: "'m \<Rightarrow> nat \<Rightarrow> 'm"
    and remove_bit :: "'m \<Rightarrow> nat \<Rightarrow> 'm"
    and capacity :: "'m \<Rightarrow> nat"
  assumes member_insert: "i < capacity m \<Longrightarrow> member (insert_bit m i) j \<longleftrightarrow> j = i \<or> member m j"
    and member_remove: "i < capacity m \<Longrightarrow> member (remove_bit m i) j \<longleftrightarrow> j \<noteq> i \<and> member m j"
    and capacity_insert: "capacity (insert_bit m i) = capacity m"
    and capacity_remove: "capacity (remove_bit m i) = capacity m"
begin

definition elems :: "'m \<Rightarrow> nat set" where
  "elems m = {i. i < capacity m \<and> member m i}"

lemma elems_insert: "i < capacity m \<Longrightarrow> elems (insert_bit m i) = insert i (elems m)"
  by (auto simp: elems_def member_insert capacity_insert)

lemma elems_remove: "i < capacity m \<Longrightarrow> elems (remove_bit m i) = elems m - {i}"
  by (auto simp: elems_def member_remove capacity_remove)

lemma finite_elems: "finite (elems m)"
  by (simp add: elems_def)

end

interpretation bm: bit_set GET_BIT SET_BIT UNSET_BIT "\<lambda>m. BITCHUNK_BITS * length m"
  by unfold_locales (simp_all add: bitmap_simps)

section \<open>The first set bit\<close>

lemma shift_to_bit_spec:
  "chunk \<noteq> 0 \<Longrightarrow> \<exists>r. shift_to_bit chunk b = Inr (b + r) \<and> bit chunk r \<and> (\<forall>k<r. \<not> bit chunk k)"
proof (induction chunk b rule: shift_to_bit.induct)
  case (1 chunk b)
  show ?case
  proof (cases "chunk AND 1 = 0")
    case False
    then have "bit chunk 0" by (simp add: and_one_eq bit_0 odd_iff_mod_2_eq_one)
    with False show ?thesis
      by (intro exI [of _ 0]) (simp add: shift_to_bit.simps [of chunk])
  next
    case True
    then have even: "\<not> bit chunk 0" by (simp add: and_one_eq bit_0 even_iff_mod_2_eq_zero)
    have "drop_bit 1 chunk \<noteq> 0"
    proof
      assume "drop_bit 1 chunk = 0"
      then have "\<not> bit chunk n" for n
        using even bit_drop_bit_eq [of 1 chunk] by (cases n) (auto simp: fun_eq_iff)
      with "1.prems" show False by (simp add: bit_eq_iff)
    qed
    with True "1.IH" "1.prems" obtain r where
      r: "shift_to_bit (drop_bit 1 chunk) (b + 1) = Inr (b + 1 + r)" "bit (drop_bit 1 chunk) r"
        "\<forall>k<r. \<not> bit (drop_bit 1 chunk) k" by auto
    then have "\<forall>k<Suc r. \<not> bit chunk k"
      using even by (auto simp: less_Suc_eq_0_disj bit_drop_bit_eq)
    with r True "1.prems" show ?thesis
      by (intro exI [of _ "Suc r"]) (simp add: shift_to_bit.simps [of chunk] bit_drop_bit_eq)
  qed
qed

text \<open>What the search promises: the first set bit from \<open>start\<close> on, or the size.\<close>

definition next_bit_spec :: "bitmap \<Rightarrow> nat \<Rightarrow> nat \<Rightarrow> nat \<Rightarrow> bool" where
  "next_bit_spec m sz start r \<longleftrightarrow>
     r \<le> sz \<and> (\<forall>i. start \<le> i \<and> i < r \<longrightarrow> \<not> GET_BIT m i) \<and>
     (r < sz \<longrightarrow> start \<le> r \<and> GET_BIT m r)"

lemma BITCHUNKS_le: "sz \<le> BITCHUNK_BITS * n \<Longrightarrow> BITCHUNKS sz \<le> n"
  by (simp add: BITCHUNKS_def)

lemma BITCHUNKS_cover: "BITCHUNKS sz \<le> k \<Longrightarrow> sz \<le> k * BITCHUNK_BITS"
  by (simp add: BITCHUNKS_def)

lemma find_next_bit_loop_spec:
  assumes "sz \<le> BITCHUNK_BITS * length m" and "index < BITCHUNKS sz"
    and "\<forall>k<BITCHUNK_BITS. bit chunk k \<longleftrightarrow>
      bit (m ! index) k \<and> start \<le> index * BITCHUNK_BITS + k"
    and "\<forall>i. start \<le> i \<and> i < index * BITCHUNK_BITS \<longrightarrow> \<not> GET_BIT m i"
    and "start < (index + 1) * BITCHUNK_BITS"
  shows "\<exists>r. find_next_bit_loop m sz index chunk = Inr r \<and> next_bit_spec m sz start r"
  using assms
proof (induction m sz index chunk rule: find_next_bit_loop.induct)
  case (1 m sz index chunk)
  have here: "GET_BIT m i \<longleftrightarrow> bit chunk (i mod 64)"
    if "start \<le> i" "index * 64 \<le> i" "i < (index + 1) * 64" for i
  proof -
    from that have "i div 64 = index" by simp
    moreover have "index * 64 + i mod 64 = i"
      using div_mult_mod_eq [of i 64] \<open>i div 64 = index\<close> by simp
    ultimately show ?thesis using "1.prems"(3) that by (simp add: GET_BIT_iff)
  qed
  show ?case
  proof (cases "chunk = 0")
    case False
    then obtain r where r: "shift_to_bit chunk (index * 64) = Inr (index * 64 + r)" "bit chunk r"
      "\<forall>k<r. \<not> bit chunk k" using shift_to_bit_spec [of chunk "index * 64"] by auto
    then have r64: "r < 64" using bit_imp_le_length [of chunk r] by simp
    with r "1.prems"(3) have "start \<le> index * 64 + r" "bit (m ! index) r" by auto
    then have "GET_BIT m (index * 64 + r)" using r64 by (simp add: GET_BIT_iff)
    moreover have "\<not> GET_BIT m i" if "start \<le> i" "i < index * 64 + r" for i
    proof (cases "i < index * 64")
      case True
      with that "1.prems"(4) show ?thesis by blast
    next
      case False
      then have lo: "index * 64 \<le> i" and hi: "i < (index + 1) * 64"
        using that r64 by simp_all
      then have "i div 64 = index" by simp
      then have "i = index * 64 + i mod 64" using div_mult_mod_eq [of i 64] by simp
      with that(2) have "i mod 64 < r" by linarith
      with here [OF that(1) lo hi] r(3) show ?thesis by simp
    qed
    ultimately have "next_bit_spec m sz start (if index * 64 + r < sz then index * 64 + r else sz)"
      using \<open>start \<le> index * 64 + r\<close> by (simp add: next_bit_spec_def)
    then show ?thesis
      using False "1.prems"(2) r(1) by (simp add: find_next_bit_loop.simps [of m sz index chunk])
  next
    case True
    then have none: "\<not> GET_BIT m i" if "start \<le> i" "i < (index + 1) * 64" for i
      using that "1.prems"(4) here [of i] by (cases "i < index * 64") auto
    show ?thesis
    proof (cases "index + 1 < BITCHUNKS sz")
      case False
      then have "sz \<le> (index + 1) * 64" using BITCHUNKS_cover [of sz "index + 1"] by simp
      with none have "next_bit_spec m sz start sz" by (simp add: next_bit_spec_def)
      moreover have "find_next_bit_loop m sz index chunk = Inr sz"
        using False True by (subst find_next_bit_loop.simps) simp
      ultimately show ?thesis by simp
    next
      case next_chunk: True
      have len: "index + 1 < length m" using next_chunk BITCHUNKS_le [OF "1.prems"(1)] by simp
      have "\<exists>r. find_next_bit_loop m sz (index + 1) (m ! (index + 1)) = Inr r \<and>
          next_bit_spec m sz start r"
        using "1.prems" True next_chunk none by (intro "1.IH") auto
      moreover have "find_next_bit_loop m sz index chunk =
          find_next_bit_loop m sz (index + 1) (m ! (index + 1))"
        using True next_chunk len by (subst find_next_bit_loop.simps) (simp add: chunk_at_def)
      ultimately show ?thesis by simp
    qed
  qed
qed

lemma bit_first_word_mask:
  "k < BITCHUNK_BITS \<Longrightarrow> bit (c AND BITMAP_FIRST_WORD_MASK start) k \<longleftrightarrow>
    bit c k \<and> start mod BITCHUNK_BITS \<le> k"
  by (auto simp: BITMAP_FIRST_WORD_MASK_def bit_simps)

lemma find_next_bit_ok:
  assumes "sz \<le> BITCHUNK_BITS * length m"
  shows "\<exists>r. bitmap_find_next_bit m sz start = Inr r \<and> next_bit_spec m sz start r"
proof (cases "start < sz")
  case False
  then show ?thesis by (auto simp: bitmap_find_next_bit_def next_bit_spec_def)
next
  case True
  let ?i = "start div 64"
  have len: "?i < length m" and idx: "?i < BITCHUNKS sz"
    using True assms by (auto simp: BITCHUNKS_def)
  have cut: "start mod 64 \<le> k \<longleftrightarrow> start \<le> ?i * 64 + k" for k
    using div_mult_mod_eq [of start 64] by linarith
  have lo: "start < (?i + 1) * 64" using div_mult_mod_eq [of start 64] by simp
  have "\<exists>r. find_next_bit_loop m sz ?i (m ! ?i AND BITMAP_FIRST_WORD_MASK start) = Inr r \<and>
      next_bit_spec m sz start r"
  proof (rule find_next_bit_loop_spec [OF assms idx _ _ lo])
    show "\<forall>k<64. bit (m ! ?i AND BITMAP_FIRST_WORD_MASK start) k \<longleftrightarrow>
        bit (m ! ?i) k \<and> start \<le> ?i * 64 + k"
      by (simp add: bit_first_word_mask cut)
    show "\<forall>i. start \<le> i \<and> i < ?i * 64 \<longrightarrow> \<not> GET_BIT m i"
      using div_mult_mod_eq [of start 64] by linarith
  qed
  with True len show ?thesis by (simp add: bitmap_find_next_bit_def chunk_at_def)
qed

section \<open>Comparing bitmaps\<close>

lemma unat_minus_and_63: "unat (- (of_nat n :: u32) AND 63) = nat (- int n mod 64)"
proof -
  have "w AND 63 = take_bit 6 w" for w :: u32
    by (simp add: take_bit_eq_mask mask_eq_exp_minus_1)
  then have "uint (- (of_nat n :: u32) AND 63) = take_bit 6 (uint (- (of_nat n :: u32)))"
    by (simp only: unsigned_take_bit_eq)
  also have "\<dots> = uint (- (of_nat n :: u32)) mod 64" by (simp add: take_bit_eq_mod)
  also have "\<dots> = (- int n) mod 2 ^ 32 mod 64"
    by (simp add: uint_word_ariths unsigned_of_nat take_bit_eq_mod of_nat_mod mod_minus_eq)
  also have "\<dots> = - int n mod 64" by (rule mod_mod_cancel) simp
  finally have "nat (uint (- (of_nat n :: u32) AND 63)) = nat (- int n mod 64)" by simp
  then show ?thesis by simp
qed

lemma bit_last_word_mask:
  assumes "n mod BITCHUNK_BITS \<noteq> 0"
  shows "bit (BITMAP_LAST_WORD_MASK n) k \<longleftrightarrow> k < n mod BITCHUNK_BITS"
proof -
  have "nat (- int n mod 64) = 64 - n mod 64"
  proof -
    have "int n mod 64 = int (n mod 64)" by (simp add: zmod_int)
    moreover have "n mod 64 < 64" by simp
    ultimately show ?thesis using assms by (simp add: zmod_zminus1_eq_if nat_diff_distrib)
  qed
  then show ?thesis
    by (auto simp: BITMAP_LAST_WORD_MASK_def unat_minus_and_63 bit_simps)
qed
lemma masked_chunk_eq:
  assumes "n mod BITCHUNK_BITS \<noteq> 0"
  shows "(c1 XOR c2) AND BITMAP_LAST_WORD_MASK n = 0 \<longleftrightarrow>
    (\<forall>k < n mod BITCHUNK_BITS. bit c1 k = bit c2 k)"
proof -
  have "k < n mod 64 \<Longrightarrow> k < 64" for k by (rule less_trans) auto
  then show ?thesis
    by (auto simp: bit_eq_iff bit_simps bit_last_word_mask [OF assms])
qed

lemma bitmap_equal_from_spec:
  assumes "bits \<le> BITCHUNK_BITS * length b1" and "bits \<le> BITCHUNK_BITS * length b2"
    and "k \<le> bits div BITCHUNK_BITS"
  shows "bitmap_equal_from b1 b2 bits k =
    Inr (\<forall>i. k * BITCHUNK_BITS \<le> i \<and> i < bits \<longrightarrow> GET_BIT b1 i = GET_BIT b2 i)"
  using assms
proof (induction b1 b2 bits k rule: bitmap_equal_from.induct)
  case (1 b1 b2 bits k)
  have chunk: "(\<forall>i. k * 64 \<le> i \<and> i < k * 64 + n \<longrightarrow> GET_BIT b1 i = GET_BIT b2 i) \<longleftrightarrow>
      (\<forall>j<n. bit (b1 ! k) j = bit (b2 ! k) j)" if "n \<le> 64" for n
  proof -
    have "(k * 64 + j) div 64 = k" "(k * 64 + j) mod 64 = j" if "j < n" for j
      using that \<open>n \<le> 64\<close> by simp_all
    then have pos: "GET_BIT b (k * 64 + j) = bit (b ! k) j" if "j < n" for b j
      using that by (simp add: GET_BIT_iff)
    have "(\<forall>i. k * 64 \<le> i \<and> i < k * 64 + n \<longrightarrow> GET_BIT b1 i = GET_BIT b2 i) \<longleftrightarrow>
        (\<forall>j<n. GET_BIT b1 (k * 64 + j) = GET_BIT b2 (k * 64 + j))"
      by (rule all_offset_range)
    then show ?thesis by (simp add: pos)
  qed
  show ?case
  proof (cases "k < bits div 64")
    case True
    then have len: "k < length b1" "k < length b2" "k * 64 + 64 \<le> bits" using "1.prems" by auto
    have "b1 ! k = b2 ! k \<longleftrightarrow> (\<forall>i. k * 64 \<le> i \<and> i < k * 64 + 64 \<longrightarrow> GET_BIT b1 i = GET_BIT b2 i)"
      using chunk [of 64] by (simp add: bit_word_eqI bit_eq_iff) 
    moreover have "bitmap_equal_from b1 b2 bits k =
        (if b1 ! k \<noteq> b2 ! k then Inr False else bitmap_equal_from b1 b2 bits (k + 1))"
      using True len by (subst bitmap_equal_from.simps) (simp add: chunk_at_def)
    moreover have "b1 ! k = b2 ! k \<Longrightarrow> bitmap_equal_from b1 b2 bits (k + 1) =
        Inr (\<forall>i. (k + 1) * 64 \<le> i \<and> i < bits \<longrightarrow> GET_BIT b1 i = GET_BIT b2 i)"
      using "1.IH" [of "b1 ! k" "b2 ! k"] True "1.prems" by simp
    moreover have "(\<forall>i. k * 64 \<le> i \<and> i < bits \<longrightarrow> P i) \<longleftrightarrow>
        (\<forall>i. k * 64 \<le> i \<and> i < k * 64 + 64 \<longrightarrow> P i) \<and> (\<forall>i. (k + 1) * 64 \<le> i \<and> i < bits \<longrightarrow> P i)" for P
      using len(3) all_range_split [of "k * 64" "k * 64 + 64" bits P] by (simp add: algebra_simps)
    ultimately show ?thesis by simp
  next
    case False
    then have k: "k = bits div 64" using "1.prems" by simp
    then have bits: "bits = k * 64 + bits mod 64" by simp
    show ?thesis
    proof (cases "bits mod 64 = 0")
      case True
      with False bits show ?thesis by (subst bitmap_equal_from.simps) auto
    next
      case mod: False
      then have "k * 64 < bits" using bits by linarith
      then have len: "k < length b1" "k < length b2" using "1.prems" by linarith+
      have "bitmap_equal_from b1 b2 bits k = Inr (\<forall>j < bits mod 64. bit (b1 ! k) j = bit (b2 ! k) j)"
        using False mod len masked_chunk_eq [OF mod]
        by (subst bitmap_equal_from.simps) (simp add: chunk_at_def)
      also have "\<dots> = Inr (\<forall>i. k * 64 \<le> i \<and> i < bits \<longrightarrow> GET_BIT b1 i = GET_BIT b2 i)"
        using chunk [of "bits mod 64"] bits by simp
      finally show ?thesis .
    qed
  qed
qed

section \<open>Properties\<close>

text \<open>
  C34: \<open>bitmap_find_next_bit\<close> stays inside a map that covers \<open>size\<close> bits, always ends, and
  returns the first set bit at or after \<open>start\<close>, or \<open>size\<close> if there is none.
\<close>

theorem bitmap_find_next_bit_correct:
  assumes "sz \<le> BITCHUNK_BITS * length m"
  shows "\<exists>r. bitmap_find_next_bit m sz start = Inr r \<and> r \<le> sz \<and>
    (\<forall>i. start \<le> i \<and> i < r \<longrightarrow> \<not> GET_BIT m i) \<and> (r < sz \<longrightarrow> start \<le> r \<and> GET_BIT m r)"
  using find_next_bit_ok [OF assms, of start] by (auto simp: next_bit_spec_def)

theorem bitmap_find_next_bit_correct_witness:
  "\<exists>r. bitmap_find_next_bit [0, 8] 100 3 = Inr r \<and> r \<le> 100 \<and>
    (\<forall>i. 3 \<le> i \<and> i < r \<longrightarrow> \<not> GET_BIT [0, 8] i) \<and> (r < 100 \<longrightarrow> 3 \<le> r \<and> GET_BIT [0, 8] r)"
  using bitmap_find_next_bit_correct [of 100 "[0, 8]" 3] by simp

text \<open>
  \<open>bitmap_equal\<close> compares exactly the first \<open>bits\<close> bits: whatever the chunks hold beyond
  them does not matter, and no chunk outside the two arrays is read.
\<close>

theorem bitmap_equal_correct:
  assumes "bits \<le> BITCHUNK_BITS * length b1" and "bits \<le> BITCHUNK_BITS * length b2"
  shows "bitmap_equal b1 b2 bits = Inr (\<forall>i<bits. GET_BIT b1 i = GET_BIT b2 i)"
  using bitmap_equal_from_spec [OF assms, of 0] by (simp add: bitmap_equal_def)

theorem bitmap_equal_correct_witness:
  "bitmap_equal [5, 1] [5, 3] 65 = Inr (\<forall>i<65. GET_BIT [5, 1] i = GET_BIT [5, 3] i)"
  using bitmap_equal_correct [of 65 "[5, 1]" "[5, 3]"] by simp

text \<open>
  \<open>bitmap_find_next_zero_area\<close> can return an area that lies inside the map and yet is
  not free: when the last candidate is rejected and the scan runs off the end, the start of
  that rejected candidate is returned.
\<close>

theorem zero_area_may_be_busy:
  "\<exists>m sz start nr r. bitmap_find_next_zero_area m sz start nr = Inr r \<and> r + nr \<le> sz \<and>
     sz \<le> BITCHUNK_BITS * length m \<and> (\<exists>i. r \<le> i \<and> i < r + nr \<and> GET_BIT m i)"
proof -
  have "GET_BIT [2] 1" "\<not> GET_BIT [2] 0" by (simp_all add: GET_BIT_def)
  then have "bitmap_find_next_zero_area [2] 2 0 2 = Inr 0"
    by (simp add: bitmap_find_next_zero_area_def zero_area_loop.simps first_set_before.simps
        bit_at_def chunk_at_def numeral_2_eq_2)
  then show ?thesis
    using \<open>GET_BIT [2] 1\<close> by (intro exI [of _ "[2]"] exI [of _ 2] exI [of _ 0]) auto
qed

end
