(* ===== verification/Kernel_State.thy ===== *)
theory Kernel_State
  imports Bitmap
begin

text \<open>
  The data of the microkernel: messages, privilege structures, process structures and the
  tables that hold them (\<open>include/kernel/proc.h\<close>, \<open>include/lyos/priv.h\<close>,
  \<open>include/lyos/ipc.h\<close>), the endpoint arithmetic of \<open>include/lyos/endpoint.h\<close> and the
  endpoint checks of \<open>kernel/proc.c\<close>.  The configuration is the uniprocessor one
  (\<open>CONFIG_SMP\<close> off), in which spinlocks are empty macros.
\<close>

unbundle bit_operations_syntax

section \<open>Constants\<close>

abbreviation NR_TASKS :: nat where "NR_TASKS \<equiv> 4"
abbreviation NR_PROCS :: nat where "NR_PROCS \<equiv> 256"
abbreviation NR_BOOT_PROCS :: nat where "NR_BOOT_PROCS \<equiv> 18"
abbreviation NR_PRIV_PROCS :: nat where "NR_PRIV_PROCS \<equiv> 64"
abbreviation NR_SLOTS :: nat where "NR_SLOTS \<equiv> NR_TASKS + NR_PROCS"

abbreviation ANY :: endpoint where "ANY \<equiv> 266"
abbreviation NO_TASK :: endpoint where "NO_TASK \<equiv> 276"
abbreviation SELF :: endpoint where "SELF \<equiv> - 35534"

abbreviation CLOCK :: endpoint where "CLOCK \<equiv> - 4"
abbreviation SYSTEM :: endpoint where "SYSTEM \<equiv> - 3"
abbreviation KERNEL :: endpoint where "KERNEL \<equiv> - 2"
abbreviation INTERRUPT :: endpoint where "INTERRUPT \<equiv> - 1"
abbreviation TASK_MM :: endpoint where "TASK_MM \<equiv> 0"
abbreviation TASK_PM :: endpoint where "TASK_PM \<equiv> 1"
abbreviation INIT :: endpoint where "INIT \<equiv> 13"

text \<open>Process state bits; a process is runnable when none is set.\<close>

abbreviation PST_BOOTINHIBIT :: u32 where "PST_BOOTINHIBIT \<equiv> 0x01"
abbreviation PST_SENDING :: u32 where "PST_SENDING \<equiv> 0x02"
abbreviation PST_RECEIVING :: u32 where "PST_RECEIVING \<equiv> 0x04"
abbreviation PST_NO_PRIV :: u32 where "PST_NO_PRIV \<equiv> 0x08"
abbreviation PST_NO_QUANTUM :: u32 where "PST_NO_QUANTUM \<equiv> 0x10"
abbreviation PST_PAGEFAULT :: u32 where "PST_PAGEFAULT \<equiv> 0x20"
abbreviation PST_MMINHIBIT :: u32 where "PST_MMINHIBIT \<equiv> 0x40"
abbreviation PST_STOPPED :: u32 where "PST_STOPPED \<equiv> 0x80"
abbreviation PST_FREE_SLOT :: u32 where "PST_FREE_SLOT \<equiv> 0x100"
abbreviation PST_SIGNALED :: u32 where "PST_SIGNALED \<equiv> 0x200"
abbreviation PST_SIG_PENDING :: u32 where "PST_SIG_PENDING \<equiv> 0x400"
abbreviation PST_MMREQUEST :: u32 where "PST_MMREQUEST \<equiv> 0x800"
abbreviation PST_TRACED :: u32 where "PST_TRACED \<equiv> 0x1000"

text \<open>Process flags.\<close>

abbreviation PF_RESUME_SYSCALL :: u32 where "PF_RESUME_SYSCALL \<equiv> 0x001"
abbreviation PF_TRACE_SYSCALL :: u32 where "PF_TRACE_SYSCALL \<equiv> 0x002"
abbreviation PF_LEAVE_SYSCALL :: u32 where "PF_LEAVE_SYSCALL \<equiv> 0x004"
abbreviation PF_RECV_ASYNC :: u32 where "PF_RECV_ASYNC \<equiv> 0x010"
abbreviation PF_FPU_INITIALIZED :: u32 where "PF_FPU_INITIALIZED \<equiv> 0x020"
abbreviation PF_DELIVER_MSG :: u32 where "PF_DELIVER_MSG \<equiv> 0x040"
abbreviation PF_MSG_FAILED :: u32 where "PF_MSG_FAILED \<equiv> 0x080"

abbreviation PRF_PRIV_PROC :: u32 where "PRF_PRIV_PROC \<equiv> 0x01"
abbreviation PRF_DYN_ID :: u32 where "PRF_DYN_ID \<equiv> 0x02"
abbreviation PRF_ALLOW_PROXY_GRANT :: u32 where "PRF_ALLOW_PROXY_GRANT \<equiv> 0x04"

section \<open>Messages\<close>

text \<open>
  A message: source, type and the 72-byte union.  The kernel itself writes only three
  fields of the union, in notifications; what user processes exchange is opaque to it.
\<close>

datatype payload =
    Zeroed
  | UserData "u8 list"
  | INTERRUPTS u64
  | SIGSET u64
  | TIMESTAMP nat

record message =
  source :: endpoint
  mtype :: int
  body :: payload

definition reset_msg :: message where
  "reset_msg = \<lparr>source = 0, mtype = 0, body = Zeroed\<rparr>"

abbreviation NOTIFY_MSG :: int where "NOTIFY_MSG \<equiv> 1"

text \<open>\<open>async_message_t\<close>.\<close>

record async_message =
  am_dest :: endpoint
  am_msg :: message
  am_flags :: u32
  am_result :: int

abbreviation ASMF_USED :: u32 where "ASMF_USED \<equiv> 0x1"
abbreviation ASMF_DONE :: u32 where "ASMF_DONE \<equiv> 0x2"

section \<open>Process and privilege tables\<close>

text \<open>\<open>struct priv\<close>.  A user pointer is a number, with 0 for \<open>NULL\<close>.\<close>

record priv =
  proc_nr :: int
  pr_id :: nat
  prflags :: u32
  syscall_mask :: bitmap
  notify_pending :: bitmap
  int_pending :: u64
  psig_pending :: u64
  async_table :: nat
  async_len :: nat
  async_pending :: bitmap
  grant_table :: nat
  grant_entries :: nat
  grant_endpoint :: endpoint
  expire_time :: int
  timer_arg :: endpoint

text \<open>
  The member \<open>mm_request\<close> of \<open>struct proc\<close>: what the process waits for while the memory
  manager checks a range of some address space on its behalf.
\<close>

record mm_request =
  next_request :: "nat option"
  req_target :: endpoint
  saved_reqmsg :: message
  req_type :: int
  resume_type :: int
  check_start :: nat
  check_len :: nat
  check_write :: bool
  req_result :: int

text \<open>
  \<open>struct proc\<close>, without the machine context, of which only the register that holds the
  result of a system call is kept (\<open>retreg\<close>).  A pointer to a process is its index in
  \<open>proc_table\<close>, \<open>None\<close> for \<open>NULL\<close>; a pointer to a privilege structure is its index in
  \<open>priv_table\<close>.
\<close>

record proc =
  priority :: int
  counter_ns :: u64
  quantum_ms :: int
  sched_policy :: int
  deadline :: u64
  priv_ix :: "nat option"
  endpoint :: endpoint
  pslot :: int
  state :: u32
  flags :: u32
  send_msg :: message
  deliver_msg :: message
  recv_msg :: nat
  syscall_msg :: nat
  recvfrom :: endpoint
  sendto :: endpoint
  q_sending :: "nat option"
  next_sending :: "nat option"
  p_parent :: endpoint
  sig_pending :: u64
  user_time :: nat
  mm_req :: mm_request
  retreg :: int

text \<open>
  The kernel: its tables, the run queues of the processor, the clock, and the user memory
  that message copies read and write (\<open>umsg p a\<close> is the message at address \<open>a\<close> of the
  address space of process \<open>p\<close>, \<open>None\<close> where the access faults; \<open>uasync\<close> likewise for
  entries of asynchronous message tables, addressed in units of entries; \<open>umw\<close> and \<open>uwr\<close> tell
  where writing a message or an entry is allowed).  \<open>mmrequest\<close> is the head of the chain of
  requests to the memory manager, \<open>timer_list\<close> the running timers, each named by the privilege
  structure it is embedded in, \<open>proc_ptr\<close> the current process, \<open>None\<close> for the idle one.
\<close>

record kernel =
  proc_table :: "nat \<Rightarrow> proc"
  priv_table :: "nat \<Rightarrow> priv"
  run_queues :: "nat \<Rightarrow> nat list"
  run_queue_bitmap :: bitmap
  jiffies :: nat
  system_hz :: nat
  rr_interval_ms :: u32
  umsg :: "nat \<Rightarrow> nat \<Rightarrow> message option"
  uasync :: "nat \<Rightarrow> nat \<Rightarrow> async_message option"
  uwr :: "nat \<Rightarrow> nat \<Rightarrow> bool"
  umw :: "nat \<Rightarrow> nat \<Rightarrow> bool"
  mmrequest :: "nat option"
  timer_list :: "nat list"
  next_timeout :: int
  proc_ptr :: "nat option"
  fpu_owner :: "nat option"
  idle_ticks :: nat

definition proc_slot :: "int \<Rightarrow> int" where
  "proc_slot n = n + int NR_TASKS"

text \<open>\<open>proc_addr(n)\<close>: the table index of process number \<open>n\<close>.\<close>

definition proc_addr :: "int \<Rightarrow> nat" where
  "proc_addr n = nat (proc_slot n)"

definition upd_proc :: "nat \<Rightarrow> (proc \<Rightarrow> proc) \<Rightarrow> kernel \<Rightarrow> kernel" where
  "upd_proc p f k = k\<lparr>proc_table := (proc_table k)(p := f (proc_table k p))\<rparr>"

definition upd_priv :: "nat \<Rightarrow> (priv \<Rightarrow> priv) \<Rightarrow> kernel \<Rightarrow> kernel" where
  "upd_priv i f k = k\<lparr>priv_table := (priv_table k)(i := f (priv_table k i))\<rparr>"

definition PST_IS_SET :: "kernel \<Rightarrow> nat \<Rightarrow> u32 \<Rightarrow> bool" where
  "PST_IS_SET k p pst \<longleftrightarrow> has_flag (state (proc_table k p)) pst"

section \<open>Endpoints\<close>

abbreviation ENDPOINT_GENERATION_SHIFT :: nat where "ENDPOINT_GENERATION_SHIFT \<equiv> 10"
abbreviation ENDPOINT_GENERATION_SIZE :: int where
  "ENDPOINT_GENERATION_SIZE \<equiv> push_bit ENDPOINT_GENERATION_SHIFT 1"

definition make_endpoint :: "int \<Rightarrow> int \<Rightarrow> endpoint" where
  "make_endpoint gen p = C_int (C_int (push_bit ENDPOINT_GENERATION_SHIFT gen) + p)"

definition ENDPOINT_G :: "endpoint \<Rightarrow> int" where
  "ENDPOINT_G ep = drop_bit ENDPOINT_GENERATION_SHIFT (C_int (ep + int NR_TASKS))"

definition ENDPOINT_P :: "endpoint \<Rightarrow> int" where
  "ENDPOINT_P ep =
     (C_int (ep + int NR_TASKS) AND (ENDPOINT_GENERATION_SIZE - 1)) - int NR_TASKS"

text \<open>
  \<open>verify_endpt\<close> with the process number it stores through its pointer argument:
  \<open>None\<close> is failure, \<open>Some None\<close> success without a store (the special endpoints), and
  \<open>Some (Some n)\<close> success with the process number.
\<close>

definition verify_endpt :: "kernel \<Rightarrow> endpoint \<Rightarrow> int option option" where
  "verify_endpt k ep =
     (if ep < - int NR_TASKS then None
      else if ep = NO_TASK \<or> ep = ANY \<or> ep = SELF then Some None
      else
        let n = ENDPOINT_P ep; slot = proc_slot n in
        if slot < 0 \<or> slot > int NR_PROCS then None
        else if state (proc_table k (proc_addr n)) = PST_FREE_SLOT \<or>
                endpoint (proc_table k (proc_addr n)) \<noteq> ep then None
        else Some (Some n))"

text \<open>
  \<open>endpt_proc\<close>: its local \<open>n\<close> starts as \<open>-1\<close> and keeps that value when
  \<open>verify_endpt\<close> succeeds without a store.
\<close>

definition endpt_proc :: "kernel \<Rightarrow> endpoint \<Rightarrow> nat option" where
  "endpt_proc k ep =
     (case verify_endpt k ep of
        None \<Rightarrow> None
      | Some None \<Rightarrow> Some (proc_addr (- 1))
      | Some (Some n) \<Rightarrow> Some (proc_addr n))"

lemma and_1023_mod: "x AND 1023 = x mod (1024 :: int)"
proof -
  have "x AND 1023 = take_bit 10 x" by (simp add: take_bit_eq_mask mask_eq_exp_minus_1)
  then show ?thesis by (simp add: take_bit_eq_mod)
qed

lemma ENDPOINT_P_mod: "ENDPOINT_P ep = (ep + 4) mod 1024 - 4"
  using C_int_mod [of 10] by (simp add: ENDPOINT_P_def and_1023_mod)

text \<open>In the range of a C \<open>int\<close>; generations fit up to \<open>2 ^ 21\<close>.\<close>

lemma ENDPOINT_G_div: "- (2 ^ 31) \<le> ep \<Longrightarrow> ep < 2 ^ 31 - 4 \<Longrightarrow> ENDPOINT_G ep = (ep + 4) div 1024"
  by (simp add: ENDPOINT_G_def drop_bit_eq_div C_int_id)

lemma make_endpoint_eq:
  "- (2 ^ 21) \<le> gen \<Longrightarrow> gen < 2 ^ 21 \<Longrightarrow> - (2 ^ 31) \<le> gen * 1024 + p \<Longrightarrow> gen * 1024 + p < 2 ^ 31 \<Longrightarrow> make_endpoint gen p = gen * 1024 + p"
  by (simp add: make_endpoint_def push_bit_eq_mult C_int_id)

lemma make_endpoint_parts:
  assumes "- (2 ^ 31) \<le> ep" and "ep < 2 ^ 31 - 4"
  shows "make_endpoint (ENDPOINT_G ep) (ENDPOINT_P ep) = ep"
proof -
  have e: "(ep + 4) div 1024 * 1024 + ((ep + 4) mod 1024 - 4) = ep" using div_mult_mod_eq [of "ep + 4" 1024] by linarith
  have "- (2 ^ 21) \<le> (ep + 4) div 1024" "(ep + 4) div 1024 < 2 ^ 21" using assms by simp_all
  then show ?thesis using assms e by (simp add: ENDPOINT_G_div ENDPOINT_P_mod make_endpoint_eq)
qed

lemma ENDPOINT_parts_make:
  assumes "- 4 \<le> p" and "p < 1020" and "0 \<le> gen" "gen < 2 ^ 21"
  shows "ENDPOINT_P (make_endpoint gen p) = p" and "ENDPOINT_G (make_endpoint gen p) = gen"
proof -
  have m: "make_endpoint gen p = gen * 1024 + p" using assms by (intro make_endpoint_eq) auto
  have "(gen * 1024 + p + 4) mod 1024 = p + 4" "(gen * 1024 + p + 4) div 1024 = gen"
    using assms by (simp_all add: add.assoc)
  then show "ENDPOINT_P (make_endpoint gen p) = p" "ENDPOINT_G (make_endpoint gen p) = gen"
    using assms by (simp_all add: m ENDPOINT_P_mod ENDPOINT_G_div)
qed

lemma verify_endpt_SomeSome:
  assumes "verify_endpt k ep = Some (Some n)"
  shows "n = ENDPOINT_P ep" and "- 4 \<le> n" and "n \<le> 252"
    and "endpoint (proc_table k (proc_addr n)) = ep"
    and "state (proc_table k (proc_addr n)) \<noteq> PST_FREE_SLOT"
  using assms by (auto simp: verify_endpt_def Let_def proc_slot_def split: if_splits)

lemma endpt_proc_cases:
  assumes "endpt_proc k ep = Some p"
  obtains "ep = ANY \<or> ep = NO_TASK" "p = 3"
  | n where "n = ENDPOINT_P ep" "p = proc_addr n" "- 4 \<le> n" "n \<le> 252"
      "endpoint (proc_table k p) = ep" "state (proc_table k p) \<noteq> PST_FREE_SLOT"
proof (cases "verify_endpt k ep")
  case None
  with assms show thesis by (simp add: endpt_proc_def)
next
  case (Some on)
  show thesis
  proof (cases on)
    case None
    with Some assms have "ep = ANY \<or> ep = NO_TASK"
      by (auto simp: verify_endpt_def Let_def split: if_splits)
    moreover have "p = 3"
      using Some None assms by (simp add: endpt_proc_def proc_addr_def proc_slot_def)
    ultimately show thesis by (rule that(1))
  next
    case (Some n)
    with \<open>verify_endpt k ep = Some on\<close> have v: "verify_endpt k ep = Some (Some n)" by simp
    with assms have "p = proc_addr n" by (simp add: endpt_proc_def)
    with verify_endpt_SomeSome [OF v] show thesis by (intro that(2) [of n]) simp_all
  qed
qed

lemma endpt_proc_slot: "endpt_proc k ep = Some p \<Longrightarrow> p < NR_SLOTS"
  by (erule endpt_proc_cases) (auto simp: proc_addr_def proc_slot_def)

lemma endpt_proc_endpoint:
  "endpt_proc k ep = Some p \<Longrightarrow> ep \<noteq> ANY \<Longrightarrow> ep \<noteq> NO_TASK \<Longrightarrow> endpoint (proc_table k p) = ep"
  by (erule endpt_proc_cases) auto

text \<open>
  \<open>endpt_proc\<close> reads only the state and the endpoint of processes: updates that keep the
  endpoints and free no slot and take no free one do not change what it returns.
\<close>

definition same_procs :: "kernel \<Rightarrow> kernel \<Rightarrow> bool" where
  "same_procs k k' \<longleftrightarrow> (\<forall>p. endpoint (proc_table k' p) = endpoint (proc_table k p) \<and>
     (state (proc_table k' p) = PST_FREE_SLOT \<longleftrightarrow> state (proc_table k p) = PST_FREE_SLOT))"

lemma endpt_proc_cong: "same_procs k k' \<Longrightarrow> endpt_proc k' ep = endpt_proc k ep"
  by (simp add: same_procs_def endpt_proc_def verify_endpt_def Let_def)

lemma same_procs_refl [simp]: "same_procs k k"
  by (simp add: same_procs_def)

lemma same_procs_trans: "same_procs a b \<Longrightarrow> same_procs b c \<Longrightarrow> same_procs a c"
  by (simp add: same_procs_def)

section \<open>A concrete kernel\<close>

text \<open>A kernel whose slots are all free, the starting point of the witnesses.\<close>

definition blank_mm_request :: mm_request where
  "blank_mm_request = \<lparr>next_request = None, req_target = NO_TASK, saved_reqmsg = reset_msg,
     req_type = 0, resume_type = 0, check_start = 0, check_len = 0, check_write = False, req_result = 0\<rparr>"

definition blank_proc :: proc where
  "blank_proc = \<lparr>priority = 7, counter_ns = 0, quantum_ms = 15, sched_policy = 3,
     deadline = 0, priv_ix = Some 0, endpoint = 0, pslot = 0, state = PST_FREE_SLOT, flags = 0,
     send_msg = reset_msg, deliver_msg = reset_msg, recv_msg = 0,
     syscall_msg = 0, recvfrom = NO_TASK,
     sendto = NO_TASK, q_sending = None, next_sending = None, p_parent = NO_TASK,
     sig_pending = 0, user_time = 0, mm_req = blank_mm_request, retreg = 0\<rparr>"

definition blank_priv :: priv where
  "blank_priv = \<lparr>proc_nr = NO_TASK, pr_id = 0, prflags = 0, syscall_mask = [0],
     notify_pending = [0], int_pending = 0, psig_pending = 0, async_table = 0, async_len = 0,
     async_pending = [0], grant_table = 0, grant_entries = 0, grant_endpoint = NO_TASK, expire_time = 0xffffffff, timer_arg = 0\<rparr>"

definition blank_kernel :: kernel where
  "blank_kernel = \<lparr>proc_table = (\<lambda>_. blank_proc), priv_table = (\<lambda>i. blank_priv\<lparr>pr_id := i\<rparr>),
     run_queues = (\<lambda>_. []), run_queue_bitmap = [0, 0], jiffies = 0, system_hz = 100,
     rr_interval_ms = 6, umsg = (\<lambda>_ _. None), uasync = (\<lambda>_ _. None),
     uwr = (\<lambda>_ _. True), umw = (\<lambda>_ _. True), mmrequest = None, timer_list = [],
     next_timeout = 0xffffffff, proc_ptr = None, fpu_owner = None, idle_ticks = 0\<rparr>"

section \<open>Properties\<close>

text \<open>
  C32: an endpoint determines its process number and generation, as long as they fit a C \<open>int\<close>: packing and
  unpacking are inverse for every process number the kernel can have, also for the negative numbers of
  the kernel tasks, and every generation below \<open>2 ^ 21\<close>, and an \<open>int\<close> is the packing of its two parts unless
  adding \<open>NR_TASKS\<close> to it overflows.  The bound is tight: with the next generation the shift overflows, and
  \<open>verify_endpt\<close> refuses the endpoint of every process.
\<close>

theorem endpoint_roundtrip:
  "(- (2 ^ 31) \<le> ep \<and> ep < 2 ^ 31 - int NR_TASKS \<longrightarrow> make_endpoint (ENDPOINT_G ep) (ENDPOINT_P ep) = ep) \<and>
   (- int NR_TASKS \<le> p \<and> p < int NR_PROCS \<and> 0 \<le> gen \<and> gen < 2 ^ 21 \<longrightarrow>
     ENDPOINT_P (make_endpoint gen p) = p \<and> ENDPOINT_G (make_endpoint gen p) = gen \<and>
     - int NR_TASKS \<le> make_endpoint gen p \<and> make_endpoint gen p < 2 ^ 31) \<and>
   (0 \<le> p \<and> p < int NR_PROCS \<longrightarrow> verify_endpt k (make_endpoint (2 ^ 21) p) = None)"
proof (intro conjI impI)
  show "- (2 ^ 31) \<le> ep \<and> ep < 2 ^ 31 - int NR_TASKS \<Longrightarrow> make_endpoint (ENDPOINT_G ep) (ENDPOINT_P ep) = ep"
    by (simp add: make_endpoint_parts)
  assume r: "- int NR_TASKS \<le> p \<and> p < int NR_PROCS \<and> 0 \<le> gen \<and> gen < 2 ^ 21"
  then show "ENDPOINT_P (make_endpoint gen p) = p" "ENDPOINT_G (make_endpoint gen p) = gen"
    by (simp_all add: ENDPOINT_parts_make)
  have "make_endpoint gen p = gen * 1024 + p" using r by (intro make_endpoint_eq) auto
  then show "- int NR_TASKS \<le> make_endpoint gen p" "make_endpoint gen p < 2 ^ 31" using r by auto
next
  assume r: "0 \<le> p \<and> p < int NR_PROCS"
  have "C_int (push_bit 10 (2 ^ 21)) = - (2 ^ 31)" by code_simp
  then have "make_endpoint (2 ^ 21) p = p - 2 ^ 31" using r by (simp add: make_endpoint_def C_int_id)
  then show "verify_endpt k (make_endpoint (2 ^ 21) p) = None" using r by (simp add: verify_endpt_def)
qed

theorem endpoint_roundtrip_witness:
  "make_endpoint (ENDPOINT_G 5121) (ENDPOINT_P 5121) = 5121 \<and>
   ENDPOINT_P (make_endpoint 7 (- 3)) = - 3 \<and> ENDPOINT_G (make_endpoint 7 (- 3)) = 7 \<and>
   verify_endpt blank_kernel (make_endpoint (2 ^ 21) 3) = None"
  using endpoint_roundtrip [of 5121 "- 3" 7 blank_kernel] endpoint_roundtrip [of 0 3 0 blank_kernel] by simp

text \<open>
  C33: resolving an endpoint never leaves the process table, and a process it finds is live
  and is the very process the endpoint was made for: an endpoint with an old generation does
  not resolve to the process that took over the slot.
\<close>

theorem endpt_proc_sound:
  assumes "endpt_proc k ep = Some p"
  shows "p < NR_SLOTS \<and>
    (ep \<noteq> ANY \<and> ep \<noteq> NO_TASK \<longrightarrow>
      endpoint (proc_table k p) = ep \<and> state (proc_table k p) \<noteq> PST_FREE_SLOT \<and>
      p = proc_addr (ENDPOINT_P ep))"
  using assms by (auto elim!: endpt_proc_cases simp: proc_addr_def proc_slot_def)

text \<open>
  The bounds check of \<open>verify_endpt\<close> compares the slot with \<open>NR_PROCS\<close> although the
  table has \<open>NR_TASKS + NR_PROCS\<close> slots: the endpoints of the last three process numbers are
  rejected whatever the table holds.
\<close>

theorem verify_endpt_rejects_last_procs:
  assumes "253 \<le> n" and "n < int NR_PROCS" and "0 \<le> gen" and "gen < 2 ^ 21"
  shows "verify_endpt k (make_endpoint gen n) = None"
proof -
  have "ENDPOINT_P (make_endpoint gen n) = n" using assms by (intro ENDPOINT_parts_make) auto
  moreover have "make_endpoint gen n \<le> 255 \<or> 1024 \<le> make_endpoint gen n" "0 \<le> make_endpoint gen n"
    using assms by (cases "gen = 0"; simp add: make_endpoint_eq; linarith)+
  then have "make_endpoint gen n \<noteq> ANY" "make_endpoint gen n \<noteq> NO_TASK" "0 \<le> make_endpoint gen n"
    by auto
  ultimately show ?thesis using assms by (simp add: verify_endpt_def Let_def proc_slot_def)
qed

text \<open>
  The wildcard endpoints pass the check without a process number, and resolving one
  gives the slot of the \<open>INTERRUPT\<close> task.
\<close>

theorem endpt_proc_wildcard: "endpt_proc k ANY = Some (proc_addr INTERRUPT)"
  by (simp add: endpt_proc_def verify_endpt_def proc_addr_def proc_slot_def)

theorem endpt_proc_sound_witness:
  "(let k = upd_proc 9 (\<lambda>p. p\<lparr>endpoint := 2053, state := PST_RECEIVING\<rparr>) blank_kernel in
    endpt_proc k 2053 = Some 9 \<and> 9 < NR_SLOTS \<and> endpoint (proc_table k 9) = 2053)"
proof -
  let ?k = "upd_proc 9 (\<lambda>p. p\<lparr>endpoint := 2053, state := PST_RECEIVING\<rparr>) blank_kernel"
  have "endpt_proc ?k 2053 = Some 9"
    by (simp add: endpt_proc_def verify_endpt_def ENDPOINT_P_mod proc_slot_def proc_addr_def
        upd_proc_def Let_def)
  with endpt_proc_sound [OF this] show ?thesis by simp
qed

theorem verify_endpt_rejects_last_procs_witness: "verify_endpt blank_kernel (make_endpoint 0 254) = None"
  by (rule verify_endpt_rejects_last_procs) simp_all

end
