(* ===== verification/Sched.thy ===== *)
theory Sched
  imports Kernel_State
begin

text \<open>
  The scheduler, \<open>kernel/sched.c\<close>: one run queue per priority level with a bitmap of the
  non-empty ones, deadlines within a queue, and the state macros of
  \<open>include/kernel/proc.h\<close> that move a process in and out of its queue.  A run queue is the
  sequence of its processes, front first.
\<close>

unbundle bit_operations_syntax

section \<open>Operations\<close>

abbreviation SCHED_RUNTIME :: int where "SCHED_RUNTIME \<equiv> 1"
abbreviation SCHED_NORMAL :: int where "SCHED_NORMAL \<equiv> 3"
abbreviation SCHED_RUNTIME_QUEUES :: int where "SCHED_RUNTIME_QUEUES \<equiv> 100"
abbreviation SCHED_QUEUES :: nat where "SCHED_QUEUES \<equiv> 103"
abbreviation RR_INTERVAL_DEFAULT :: u32 where "RR_INTERVAL_DEFAULT \<equiv> 6"

definition JIFFIES_MS :: "kernel \<Rightarrow> u64" where
  "JIFFIES_MS k = of_nat (jiffies k * 1000 div system_hz k)"

definition init_sched :: "kernel \<Rightarrow> kernel" where
  "init_sched k = k\<lparr>run_queues := (\<lambda>i. if i < SCHED_QUEUES then [] else run_queues k i),
     rr_interval_ms := RR_INTERVAL_DEFAULT\<rparr>"

definition proc_queue :: "proc \<Rightarrow> nat" where
  "proc_queue p =
     nat (if sched_policy p = SCHED_RUNTIME then priority p
          else SCHED_RUNTIME_QUEUES - 2 + sched_policy p)"

text \<open>\<open>list_add\<close> puts the process at the front of its queue.\<close>

definition enqueue_proc :: "nat \<Rightarrow> kernel \<Rightarrow> kernel" where
  "enqueue_proc p k =
     (let queue = proc_queue (proc_table k p) in
      k\<lparr>run_queues := (run_queues k)(queue := p # run_queues k queue),
        run_queue_bitmap := SET_BIT (run_queue_bitmap k) queue\<rparr>)"

text \<open>\<open>list_del\<close> takes the process out of whatever queue it is in.\<close>

definition dequeue_proc :: "nat \<Rightarrow> kernel \<Rightarrow> kernel" where
  "dequeue_proc p k =
     (let queue = proc_queue (proc_table k p);
          rqs = (\<lambda>q. removeAll p (run_queues k q)) in
      k\<lparr>run_queues := rqs,
        run_queue_bitmap :=
          (if rqs queue = [] then UNSET_BIT (run_queue_bitmap k) queue
           else run_queue_bitmap k)\<rparr>)"

text \<open>\<open>PST_SET_LOCKED\<close>, \<open>PST_SETFLAGS_LOCKED\<close>, \<open>PST_UNSET_LOCKED\<close>; without locks \<open>PST_SET\<close> and so on are the same.\<close>

definition PST_SET :: "nat \<Rightarrow> u32 \<Rightarrow> kernel \<Rightarrow> kernel" where
  "PST_SET p pst k =
     (let prev_pst = state (proc_table k p);
          k = upd_proc p (state_update (\<lambda>s. s OR pst)) k in
      if prev_pst = 0 \<and> state (proc_table k p) \<noteq> 0 then dequeue_proc p k else k)"

definition PST_SETFLAGS :: "nat \<Rightarrow> u32 \<Rightarrow> kernel \<Rightarrow> kernel" where
  "PST_SETFLAGS p fl k =
     (let prev_pst = state (proc_table k p);
          k = upd_proc p (state_update (\<lambda>_. fl)) k in
      if prev_pst = 0 \<and> state (proc_table k p) \<noteq> 0 then dequeue_proc p k else k)"

definition PST_UNSET :: "nat \<Rightarrow> u32 \<Rightarrow> kernel \<Rightarrow> kernel" where
  "PST_UNSET p pst k =
     (let prev_pst = state (proc_table k p);
          k = upd_proc p (state_update (\<lambda>s. s AND NOT pst)) k in
      if prev_pst \<noteq> 0 \<and> state (proc_table k p) = 0 then enqueue_proc p k else k)"

text \<open>The two nested loops of \<open>pick_proc\<close> that look for the first non-empty queue.\<close>

function first_bit_from :: "u64 \<Rightarrow> nat \<Rightarrow> nat option" where
  "first_bit_from chunk j =
     (if j < BITCHUNK_BITS then
        if chunk AND push_bit j 1 \<noteq> 0 then Some j else first_bit_from chunk (j + 1)
      else None)"
  by pat_completeness auto
termination
  by (relation "measure (\<lambda>(chunk, j). BITCHUNK_BITS - j)") auto

declare first_bit_from.simps [simp del]

function first_queue_from :: "bitmap \<Rightarrow> nat \<Rightarrow> nat option" where
  "first_queue_from m i =
     (if i < BITCHUNKS SCHED_QUEUES then
        if m ! i \<noteq> 0 then
          (case first_bit_from (m ! i) 0 of
             Some j \<Rightarrow> Some (i * BITCHUNK_BITS + j) | None \<Rightarrow> None)
        else first_queue_from m (i + 1)
      else None)"
  by pat_completeness auto
termination
  by (relation "measure (\<lambda>(m, i). BITCHUNKS SCHED_QUEUES - i)") auto

declare first_queue_from.simps [simp del]

text \<open>
  The scan of one queue: the first process whose deadline has passed, otherwise the one
  with the smallest deadline.  \<open>smallest\<close> starts as \<open>(u64)-1\<close>.
\<close>

fun select_proc :: "kernel \<Rightarrow> nat list \<Rightarrow> u64 \<Rightarrow> nat option \<Rightarrow> nat option" where
  "select_proc k [] smallest selected = selected"
| "select_proc k (p # ps) smallest selected =
     (if deadline (proc_table k p) < JIFFIES_MS k then Some p
      else if smallest = - 1 \<or> smallest > deadline (proc_table k p)
        then select_proc k ps (deadline (proc_table k p)) (Some p)
        else select_proc k ps smallest selected)"

definition pick_proc :: "kernel \<Rightarrow> nat option \<times> kernel" where
  "pick_proc k =
     (case first_queue_from (run_queue_bitmap k) 0 of
        None \<Rightarrow> (None, k)
      | Some q \<Rightarrow>
          (case select_proc k (run_queues k q) (- 1) None of
             None \<Rightarrow> (None, k)
           | Some p \<Rightarrow> (Some p, dequeue_proc p k)))"

definition proc_no_time :: "nat \<Rightarrow> kernel \<Rightarrow> kernel" where
  "proc_no_time p k =
     (let prio_ratio = priority (proc_table k p);
          k = upd_proc p (\<lambda>q. q\<lparr>counter_ns := ucast (rr_interval_ms k) * 1000000,
                deadline := JIFFIES_MS k + ucast (rr_interval_ms k * of_int prio_ratio)\<rparr>) k in
      PST_UNSET p PST_NO_QUANTUM k)"

definition sched_clock :: "nat \<Rightarrow> kernel \<Rightarrow> kernel" where
  "sched_clock p k =
     upd_proc p (\<lambda>q. q\<lparr>deadline :=
       JIFFIES_MS k + ucast (rr_interval_ms k * of_int (priority q))\<rparr>) k"

section \<open>The first non-empty queue\<close>

lemma first_bit_from_Some:
  "first_bit_from c j = Some r \<Longrightarrow> j \<le> r \<and> r < 64 \<and> bit c r \<and> (\<forall>i. j \<le> i \<and> i < r \<longrightarrow> \<not> bit c i)"
proof (induction c j rule: first_bit_from.induct)
  case (1 c j)
  show ?case
  proof (cases "j < 64 \<and> \<not> bit c j")
    case True
    with "1.prems" have "first_bit_from c (j + 1) = Some r"
      by (simp add: first_bit_from.simps [of c j] bit_iff_and_push_bit_not_eq_0)
    with True "1.IH" have "j + 1 \<le> r \<and> r < 64 \<and> bit c r \<and> (\<forall>i. j + 1 \<le> i \<and> i < r \<longrightarrow> \<not> bit c i)"
      by (simp add: bit_iff_and_push_bit_not_eq_0)
    with True show ?thesis by (metis Suc_eq_plus1 Suc_leD not_less_eq_eq le_antisym)
  next
    case False
    with "1.prems" show ?thesis
      by (auto simp: first_bit_from.simps [of c j] bit_iff_and_push_bit_not_eq_0 split: if_splits)
  qed
qed

lemma first_bit_from_None: "first_bit_from c j = None \<Longrightarrow> j \<le> i \<Longrightarrow> i < 64 \<Longrightarrow> \<not> bit c i"
proof (induction c j rule: first_bit_from.induct)
  case (1 c j)
  then have "\<not> bit c j" "first_bit_from c (j + 1) = None"
    by (auto simp: first_bit_from.simps [of c j] bit_iff_and_push_bit_not_eq_0 split: if_splits)
  with 1 show ?case
    by (cases "i = j") (auto simp: bit_iff_and_push_bit_not_eq_0)
qed

lemma first_bit_from_total: "c \<noteq> 0 \<Longrightarrow> \<exists>r. first_bit_from c 0 = Some r"
proof (rule ccontr)
  assume "c \<noteq> 0" and "\<nexists>r. first_bit_from c 0 = Some r"
  then have "first_bit_from c 0 = None" by simp
  then have "\<not> bit c i" for i
    using first_bit_from_None [of c 0 i] bit_imp_le_length [of c i] by (cases "i < 64") auto
  with \<open>c \<noteq> 0\<close> show False by (simp add: bit_eq_iff)
qed

lemma first_queue_from_eq:
  "first_queue_from m 0 =
     (if m ! 0 \<noteq> 0 then first_bit_from (m ! 0) 0
      else if m ! 1 \<noteq> 0 then map_option (\<lambda>j. 64 + j) (first_bit_from (m ! 1) 0) else None)"
  by (simp add: first_queue_from.simps BITCHUNKS_def split: option.split)

lemma zero_chunk: "m ! (i div 64) = 0 \<Longrightarrow> \<not> GET_BIT m i"
  by (simp add: GET_BIT_def)

lemma GET_BIT_second_chunk: "j < 64 \<Longrightarrow> GET_BIT m (64 + j) \<longleftrightarrow> bit (m ! 1) j"
proof -
  assume "j < 64"
  then have "(64 + j) div 64 = 1" "(64 + j) mod 64 = j" by simp_all
  then show ?thesis by (simp only: GET_BIT_iff)
qed

lemma first_queue_from_Some:
  assumes "first_queue_from m 0 = Some q"
  shows "q < 128 \<and> GET_BIT m q \<and> (\<forall>i<q. \<not> GET_BIT m i)"
proof (cases "m ! 0 = 0")
  case False
  with assms first_bit_from_Some [of "m ! 0" 0 q] show ?thesis
    by (auto simp: first_queue_from_eq GET_BIT_iff)
next
  case True
  with assms obtain j where j: "q = 64 + j" "first_bit_from (m ! 1) 0 = Some j"
    by (auto simp: first_queue_from_eq split: if_splits)
  have "\<not> GET_BIT m i" if "i < 64 + j" for i
  proof (cases "i < 64")
    case True
    with \<open>m ! 0 = 0\<close> show ?thesis by (simp add: zero_chunk)
  next
    case False
    with that obtain i' where i': "i = 64 + i'" "i' < j" by (metis le_add_diff_inverse not_less nat_add_left_cancel_less)
    with first_bit_from_Some [OF j(2)] show ?thesis by (simp add: GET_BIT_second_chunk)
  qed
  with j first_bit_from_Some [OF j(2)] show ?thesis by (simp add: GET_BIT_second_chunk)
qed

lemma first_queue_from_None:
  assumes "first_queue_from m 0 = None" and "q < 128"
  shows "\<not> GET_BIT m q"
proof -
  have "m ! 0 = 0" "m ! 1 = 0"
    using assms(1) first_bit_from_total [of "m ! 0"] first_bit_from_total [of "m ! 1"]
    by (auto simp: first_queue_from_eq split: if_splits)
  moreover have "q div 64 = 0 \<or> q div 64 = 1" using assms(2) by auto
  ultimately show ?thesis by (auto simp: zero_chunk)
qed

section \<open>The invariant of the run queues\<close>

definition sched_wf :: "proc \<Rightarrow> bool" where
  "sched_wf p \<longleftrightarrow> (if sched_policy p = SCHED_RUNTIME then 0 \<le> priority p \<and> priority p < 100
     else 2 \<le> sched_policy p \<and> sched_policy p \<le> 4)"

lemma proc_queue_bound: "sched_wf p \<Longrightarrow> proc_queue p < SCHED_QUEUES"
  by (auto simp: sched_wf_def proc_queue_def split: if_splits)

definition in_queue :: "kernel \<Rightarrow> nat \<Rightarrow> bool" where
  "in_queue k p \<longleftrightarrow> (\<exists>q. p \<in> set (run_queues k q))"

definition queues_ok :: "kernel \<Rightarrow> bool" where
  "queues_ok k \<longleftrightarrow>
     length (run_queue_bitmap k) = BITCHUNKS SCHED_QUEUES \<and>
     (\<forall>q. q < 128 \<longrightarrow> (GET_BIT (run_queue_bitmap k) q \<longleftrightarrow> run_queues k q \<noteq> [])) \<and>
     (\<forall>q. distinct (run_queues k q)) \<and>
     (\<forall>q p. p \<in> set (run_queues k q) \<longrightarrow> proc_queue (proc_table k p) = q) \<and>
     (\<forall>p. sched_wf (proc_table k p))"

text \<open>Every queued process is runnable and sits in the one queue its policy selects.\<close>

definition sched_inv :: "kernel \<Rightarrow> bool" where
  "sched_inv k \<longleftrightarrow> queues_ok k \<and> (\<forall>p. in_queue k p \<longrightarrow> state (proc_table k p) = 0)"

text \<open>No runnable process is forgotten: all but the running one are queued.\<close>

definition none_lost :: "kernel \<Rightarrow> nat \<Rightarrow> bool" where
  "none_lost k cur \<longleftrightarrow>
     (\<forall>p. state (proc_table k p) = 0 \<and> p \<noteq> cur \<longrightarrow> in_queue k p)"

lemma queues_ok_length: "queues_ok k \<Longrightarrow> length (run_queue_bitmap k) = 2"
  by (simp add: queues_ok_def BITCHUNKS_def)

lemma queues_ok_queue: "queues_ok k \<Longrightarrow> p \<in> set (run_queues k q) \<Longrightarrow> proc_queue (proc_table k p) = q"
  by (auto simp: queues_ok_def)

lemma queues_ok_bound: "queues_ok k \<Longrightarrow> proc_queue (proc_table k p) < SCHED_QUEUES"
  by (auto simp: queues_ok_def intro: proc_queue_bound)

lemma in_queue_own: "queues_ok k \<Longrightarrow> in_queue k p \<longleftrightarrow> p \<in> set (run_queues k (proc_queue (proc_table k p)))"
  by (auto simp: in_queue_def dest: queues_ok_queue)

lemma upd_proc_simps [simp]:
  "proc_table (upd_proc p f k) = (proc_table k)(p := f (proc_table k p))"
  "run_queues (upd_proc p f k) = run_queues k"
  "run_queue_bitmap (upd_proc p f k) = run_queue_bitmap k"
  "priv_table (upd_proc p f k) = priv_table k"
  "jiffies (upd_proc p f k) = jiffies k" "system_hz (upd_proc p f k) = system_hz k"
  "rr_interval_ms (upd_proc p f k) = rr_interval_ms k"
  "umsg (upd_proc p f k) = umsg k" "uasync (upd_proc p f k) = uasync k" "uwr (upd_proc p f k) = uwr k"
  "umw (upd_proc p f k) = umw k"
  "mmrequest (upd_proc p f k) = mmrequest k"
  "timer_list (upd_proc p f k) = timer_list k"
  "next_timeout (upd_proc p f k) = next_timeout k"
  "proc_ptr (upd_proc p f k) = proc_ptr k"
  "fpu_owner (upd_proc p f k) = fpu_owner k"
  "idle_ticks (upd_proc p f k) = idle_ticks k"
  by (simp_all add: upd_proc_def)

lemma upd_priv_simps [simp]:
  "priv_table (upd_priv i f k) = (priv_table k)(i := f (priv_table k i))"
  "proc_table (upd_priv i f k) = proc_table k"
  "run_queues (upd_priv i f k) = run_queues k"
  "run_queue_bitmap (upd_priv i f k) = run_queue_bitmap k"
  "jiffies (upd_priv i f k) = jiffies k" "system_hz (upd_priv i f k) = system_hz k"
  "rr_interval_ms (upd_priv i f k) = rr_interval_ms k"
  "umsg (upd_priv i f k) = umsg k" "uasync (upd_priv i f k) = uasync k" "uwr (upd_priv i f k) = uwr k"
  "umw (upd_priv i f k) = umw k"
  "mmrequest (upd_priv i f k) = mmrequest k"
  "timer_list (upd_priv i f k) = timer_list k"
  "next_timeout (upd_priv i f k) = next_timeout k"
  "proc_ptr (upd_priv i f k) = proc_ptr k"
  "fpu_owner (upd_priv i f k) = fpu_owner k"
  "idle_ticks (upd_priv i f k) = idle_ticks k"
  by (simp_all add: upd_priv_def)

lemma enqueue_fields [simp]:
  "proc_table (enqueue_proc p k) = proc_table k" "priv_table (enqueue_proc p k) = priv_table k"
  "jiffies (enqueue_proc p k) = jiffies k" "system_hz (enqueue_proc p k) = system_hz k"
  "rr_interval_ms (enqueue_proc p k) = rr_interval_ms k"
  "umsg (enqueue_proc p k) = umsg k" "uasync (enqueue_proc p k) = uasync k" "uwr (enqueue_proc p k) = uwr k"
  "umw (enqueue_proc p k) = umw k"
  "mmrequest (enqueue_proc p k) = mmrequest k"
  "timer_list (enqueue_proc p k) = timer_list k"
  "next_timeout (enqueue_proc p k) = next_timeout k"
  "proc_ptr (enqueue_proc p k) = proc_ptr k"
  "fpu_owner (enqueue_proc p k) = fpu_owner k"
  "idle_ticks (enqueue_proc p k) = idle_ticks k"
  by (simp_all add: enqueue_proc_def Let_def)

lemma dequeue_fields [simp]:
  "proc_table (dequeue_proc p k) = proc_table k" "priv_table (dequeue_proc p k) = priv_table k"
  "jiffies (dequeue_proc p k) = jiffies k" "system_hz (dequeue_proc p k) = system_hz k"
  "rr_interval_ms (dequeue_proc p k) = rr_interval_ms k"
  "umsg (dequeue_proc p k) = umsg k" "uasync (dequeue_proc p k) = uasync k" "uwr (dequeue_proc p k) = uwr k"
  "umw (dequeue_proc p k) = umw k"
  "mmrequest (dequeue_proc p k) = mmrequest k"
  "timer_list (dequeue_proc p k) = timer_list k"
  "next_timeout (dequeue_proc p k) = next_timeout k"
  "proc_ptr (dequeue_proc p k) = proc_ptr k"
  "fpu_owner (dequeue_proc p k) = fpu_owner k"
  "idle_ticks (dequeue_proc p k) = idle_ticks k"
  by (simp_all add: dequeue_proc_def Let_def)

lemma in_queue_upd [simp]: "in_queue (upd_proc p f k) = in_queue k" "in_queue (upd_priv i g k) = in_queue k"
  by (simp_all add: in_queue_def fun_eq_iff)

lemma in_queue_enqueue: "in_queue (enqueue_proc p k) x \<longleftrightarrow> x = p \<or> in_queue k x"
  by (auto simp: in_queue_def enqueue_proc_def Let_def) metis

lemma in_queue_dequeue: "in_queue (dequeue_proc p k) x \<longleftrightarrow> x \<noteq> p \<and> in_queue k x"
  by (auto simp: in_queue_def dequeue_proc_def Let_def)

lemma queues_ok_upd:
  assumes "queues_ok k" and "proc_queue (f (proc_table k p)) = proc_queue (proc_table k p)"
    and "sched_wf (f (proc_table k p))"
  shows "queues_ok (upd_proc p f k)"
  using assms by (auto simp: queues_ok_def)

lemma queues_ok_upd_priv [simp]: "queues_ok (upd_priv i f k) = queues_ok k"
  by (simp add: queues_ok_def)

lemma queues_ok_enqueue:
  assumes "queues_ok k" and "\<not> in_queue k p"
  shows "queues_ok (enqueue_proc p k)"
proof -
  let ?q = "proc_queue (proc_table k p)"
  have "?q < 128" using queues_ok_bound [OF assms(1), of p] by simp
  with assms show ?thesis
    using bm.member_insert [of ?q "run_queue_bitmap k"] queues_ok_length [OF assms(1)]
    by (auto simp: queues_ok_def enqueue_proc_def Let_def in_queue_def length_SET_BIT)
qed

lemma queues_ok_dequeue:
  assumes "queues_ok k"
  shows "queues_ok (dequeue_proc p k)"
proof -
  let ?q = "proc_queue (proc_table k p)"
  have q: "?q < 128" using queues_ok_bound [OF assms, of p] by simp
  have other: "q \<noteq> ?q \<Longrightarrow> removeAll p (run_queues k q) = run_queues k q" for q
    using queues_ok_queue [OF assms, of p q] by (metis removeAll_id)
  have bits: "GET_BIT (run_queue_bitmap (dequeue_proc p k)) q \<longleftrightarrow> removeAll p (run_queues k q) \<noteq> []"
    if "q < 128" for q
    using that q other [of q] assms queues_ok_length [OF assms]
      bm.member_remove [of ?q "run_queue_bitmap k" q]
    by (cases "q = ?q") (auto simp: dequeue_proc_def Let_def queues_ok_def)
  have "length (run_queue_bitmap (dequeue_proc p k)) = length (run_queue_bitmap k)"
    by (simp add: dequeue_proc_def Let_def length_UNSET_BIT)
  moreover have "run_queues (dequeue_proc p k) = (\<lambda>q. removeAll p (run_queues k q))"
    by (simp add: dequeue_proc_def Let_def)
  ultimately show ?thesis using assms bits by (auto simp: queues_ok_def distinct_removeAll)
qed

section \<open>The state macros keep the invariant\<close>

lemma sched_stateful [simp]:
  "proc_queue (state_update f p) = proc_queue p" "sched_wf (state_update f p) = sched_wf p"
  by (simp_all add: proc_queue_def sched_wf_def)

lemma sched_inv_queues: "sched_inv k \<Longrightarrow> queues_ok k"
  by (simp add: sched_inv_def)

lemma queues_ok_state [simp]: "queues_ok k \<Longrightarrow> queues_ok (upd_proc p (state_update f) k)"
  by (rule queues_ok_upd) (auto simp: queues_ok_def)

lemma sched_inv_not_queued: "sched_inv k \<Longrightarrow> state (proc_table k p) \<noteq> 0 \<Longrightarrow> \<not> in_queue k p"
  by (auto simp: sched_inv_def)

lemma PST_SET_inv:
  assumes "sched_inv k"
  shows "sched_inv (PST_SET p f k)"
  using assms sched_inv_not_queued [OF assms, of p]
  by (auto simp: PST_SET_def Let_def sched_inv_def queues_ok_dequeue in_queue_dequeue)

lemma PST_SETFLAGS_inv:
  assumes "sched_inv k"
  shows "sched_inv (PST_SETFLAGS p f k)"
  using assms sched_inv_not_queued [OF assms, of p]
  by (auto simp: PST_SETFLAGS_def Let_def sched_inv_def queues_ok_dequeue in_queue_dequeue)

lemma PST_UNSET_inv:
  assumes "sched_inv k"
  shows "sched_inv (PST_UNSET p f k)"
  using assms sched_inv_not_queued [OF assms, of p]
  by (auto simp: PST_UNSET_def Let_def sched_inv_def queues_ok_enqueue in_queue_enqueue)

lemma PST_SET_fields [simp]:
  "proc_table (PST_SET p f k) = (proc_table k)(p := state_update (\<lambda>s. s OR f) (proc_table k p))"
  "priv_table (PST_SET p f k) = priv_table k" "umsg (PST_SET p f k) = umsg k"
  "uasync (PST_SET p f k) = uasync k" "jiffies (PST_SET p f k) = jiffies k"
  "uwr (PST_SET p f k) = uwr k"
  "umw (PST_SET p f k) = umw k"
  "mmrequest (PST_SET p f k) = mmrequest k"
  "timer_list (PST_SET p f k) = timer_list k"
  "next_timeout (PST_SET p f k) = next_timeout k"
  "proc_ptr (PST_SET p f k) = proc_ptr k"
  "fpu_owner (PST_SET p f k) = fpu_owner k"
  "idle_ticks (PST_SET p f k) = idle_ticks k"
  by (simp_all add: PST_SET_def Let_def)

lemma PST_SETFLAGS_fields [simp]:
  "proc_table (PST_SETFLAGS p f k) = (proc_table k)(p := state_update (\<lambda>_. f) (proc_table k p))"
  "priv_table (PST_SETFLAGS p f k) = priv_table k" "umsg (PST_SETFLAGS p f k) = umsg k"
  "uasync (PST_SETFLAGS p f k) = uasync k" "jiffies (PST_SETFLAGS p f k) = jiffies k"
  "uwr (PST_SETFLAGS p f k) = uwr k"
  "umw (PST_SETFLAGS p f k) = umw k"
  "mmrequest (PST_SETFLAGS p f k) = mmrequest k"
  "timer_list (PST_SETFLAGS p f k) = timer_list k"
  "next_timeout (PST_SETFLAGS p f k) = next_timeout k"
  "proc_ptr (PST_SETFLAGS p f k) = proc_ptr k"
  "fpu_owner (PST_SETFLAGS p f k) = fpu_owner k"
  "idle_ticks (PST_SETFLAGS p f k) = idle_ticks k"
  by (simp_all add: PST_SETFLAGS_def Let_def)

lemma PST_UNSET_fields [simp]:
  "proc_table (PST_UNSET p f k) = (proc_table k)(p := state_update (\<lambda>s. s AND NOT f) (proc_table k p))"
  "priv_table (PST_UNSET p f k) = priv_table k" "umsg (PST_UNSET p f k) = umsg k"
  "uasync (PST_UNSET p f k) = uasync k" "jiffies (PST_UNSET p f k) = jiffies k"
  "uwr (PST_UNSET p f k) = uwr k"
  "umw (PST_UNSET p f k) = umw k"
  "mmrequest (PST_UNSET p f k) = mmrequest k"
  "timer_list (PST_UNSET p f k) = timer_list k"
  "next_timeout (PST_UNSET p f k) = next_timeout k"
  "proc_ptr (PST_UNSET p f k) = proc_ptr k"
  "fpu_owner (PST_UNSET p f k) = fpu_owner k"
  "idle_ticks (PST_UNSET p f k) = idle_ticks k"
  by (simp_all add: PST_UNSET_def Let_def)

lemma or_eq_0_word: "a OR b = 0 \<longleftrightarrow> a = 0 \<and> b = (0 :: u32)"
  by (auto simp: bit_eq_iff bit_simps)

lemma none_lost_SET:
  assumes "sched_inv k" and "none_lost k cur"
  shows "none_lost (PST_SET p f k) cur"
  using assms by (auto simp: none_lost_def PST_SET_def Let_def in_queue_dequeue or_eq_0_word)

lemma none_lost_UNSET:
  assumes "sched_inv k" and "none_lost k cur"
  shows "none_lost (PST_UNSET p f k) cur"
  using assms by (auto simp: none_lost_def PST_UNSET_def Let_def in_queue_enqueue)

lemma none_lost_SETFLAGS:
  assumes "sched_inv k" and "none_lost k cur" and "f \<noteq> 0"
  shows "none_lost (PST_SETFLAGS p f k) cur"
  using assms by (auto simp: none_lost_def PST_SETFLAGS_def Let_def in_queue_dequeue)

section \<open>Choosing a process\<close>

text \<open>What the scan of one queue promises.\<close>

definition best_in :: "kernel \<Rightarrow> nat list \<Rightarrow> nat \<Rightarrow> bool" where
  "best_in k ps p \<longleftrightarrow>
     (\<exists>xs ys. ps = xs @ p # ys \<and>
       (\<forall>x \<in> set xs. \<not> deadline (proc_table k x) < JIFFIES_MS k) \<and>
       (deadline (proc_table k p) < JIFFIES_MS k \<or>
        (\<forall>x \<in> set ps. \<not> deadline (proc_table k x) < JIFFIES_MS k \<and>
           deadline (proc_table k p) \<le> deadline (proc_table k x))))"

lemma select_proc_spec:
  assumes "\<forall>x \<in> set done. \<not> deadline (proc_table k x) < JIFFIES_MS k \<and> smallest \<le> deadline (proc_table k x)"
    and "done = [] \<Longrightarrow> smallest = - 1 \<and> selected = None"
    and "done \<noteq> [] \<Longrightarrow> \<exists>p \<in> set done. selected = Some p \<and> smallest = deadline (proc_table k p)"
    and "done @ ps \<noteq> []"
  shows "\<exists>p. select_proc k ps smallest selected = Some p \<and> best_in k (done @ ps) p"
  using assms
proof (induction ps arbitrary: "done" smallest selected)
  case Nil
  then obtain p where p: "p \<in> set done" "selected = Some p" "smallest = deadline (proc_table k p)" by auto
  obtain xs ys where "done = xs @ p # ys" using split_list [OF p(1)] by blast
  with Nil.prems(1) p have "best_in k done p"
    unfolding best_in_def by (intro exI [of _ xs] exI [of _ ys]) auto
  with p show ?case by simp
next
  case (Cons x ps)
  let ?d = "deadline (proc_table k x)"
  show ?case
  proof (cases "?d < JIFFIES_MS k")
    case True
    with Cons.prems(1) show ?thesis by (auto simp: best_in_def)
  next
    case False
    show ?thesis
    proof (cases "smallest = - 1 \<or> smallest > ?d")
      case True
      have le: "?d \<le> smallest"
        using True by (auto simp: word_order.extremum)
      have "\<exists>p. select_proc k ps ?d (Some x) = Some p \<and> best_in k ((done @ [x]) @ ps) p"
        using Cons.prems(1) False le by (intro Cons.IH) (auto intro: order_trans)
      with True False show ?thesis by auto
    next
      case keep: False
      then have "done \<noteq> []" using Cons.prems(2) by auto
      have "\<exists>p. select_proc k ps smallest selected = Some p \<and> best_in k ((done @ [x]) @ ps) p"
        using Cons.prems(1,3) False keep \<open>done \<noteq> []\<close> by (intro Cons.IH) auto
      with keep False show ?thesis by auto
    qed
  qed
qed

lemma select_proc_best:
  "ps \<noteq> [] \<Longrightarrow> \<exists>p. select_proc k ps (- 1) None = Some p \<and> best_in k ps p"
  using select_proc_spec [of "[]" k "- 1" None ps] by simp

lemma best_in_member: "best_in k ps p \<Longrightarrow> p \<in> set ps"
  by (auto simp: best_in_def)

lemma dequeue_inv: "sched_inv k \<Longrightarrow> sched_inv (dequeue_proc p k)"
  by (simp add: sched_inv_def queues_ok_dequeue in_queue_dequeue)

lemma first_queue_run_queues:
  assumes "queues_ok k"
  shows "first_queue_from (run_queue_bitmap k) 0 = Some q \<Longrightarrow>
      run_queues k q \<noteq> [] \<and> (\<forall>q'<q. run_queues k q' = [])"
    and "first_queue_from (run_queue_bitmap k) 0 = None \<Longrightarrow> run_queues k q = []"
proof -
  have bits: "q < 128 \<Longrightarrow> GET_BIT (run_queue_bitmap k) q \<longleftrightarrow> run_queues k q \<noteq> []" for q
    using assms by (simp add: queues_ok_def)
  show "first_queue_from (run_queue_bitmap k) 0 = Some q \<Longrightarrow>
      run_queues k q \<noteq> [] \<and> (\<forall>q'<q. run_queues k q' = [])"
    using first_queue_from_Some [of "run_queue_bitmap k" q] bits by (metis order.strict_trans)
  assume none: "first_queue_from (run_queue_bitmap k) 0 = None"
  show "run_queues k q = []"
  proof (cases "run_queues k q")
    case (Cons p ps)
    then have "q < 103" using queues_ok_queue [OF assms, of p q] queues_ok_bound [OF assms, of p] by simp
    with none bits [of q] first_queue_from_None [OF none, of q] show ?thesis by simp
  qed
qed

lemma sched_inv_upd:
  assumes "sched_inv k"
    and "\<And>q. state (g q) = state q \<and> proc_queue (g q) = proc_queue q \<and> sched_wf (g q) = sched_wf q"
  shows "sched_inv (upd_proc p g k)"
  using assms by (auto simp: sched_inv_def queues_ok_def intro!: queues_ok_upd)

section \<open>The interface message passing relies on\<close>

text \<open>
  Message passing changes process states only through \<open>PST_SET\<close> and \<open>PST_UNSET\<close>; what it
  needs of the scheduler is that they keep the invariant and touch nothing else of the tables.
\<close>

locale state_switch =
  fixes set_pst :: "nat \<Rightarrow> u32 \<Rightarrow> kernel \<Rightarrow> kernel"
    and unset_pst :: "nat \<Rightarrow> u32 \<Rightarrow> kernel \<Rightarrow> kernel"
    and inv :: "kernel \<Rightarrow> bool"
  assumes inv_set: "inv k \<Longrightarrow> inv (set_pst p f k)"
    and inv_unset: "inv k \<Longrightarrow> inv (unset_pst p f k)"
    and inv_frame: "inv k \<Longrightarrow> (\<And>q. state (g q) = state q \<and> proc_queue (g q) = proc_queue q \<and>
      sched_wf (g q) = sched_wf q) \<Longrightarrow> inv (upd_proc p g k)"
begin

text \<open>A change of message fields together with a change of state.\<close>

lemma inv_unset_upd:
  assumes "inv k"
    and "\<And>q. state (g q) = state q \<and> proc_queue (g q) = proc_queue q \<and> sched_wf (g q) = sched_wf q"
  shows "inv (unset_pst p f (upd_proc r g k))"
  using assms by (intro inv_unset inv_frame)

lemma inv_set_upd:
  assumes "inv k"
    and "\<And>q. state (g q) = state q \<and> proc_queue (g q) = proc_queue q \<and> sched_wf (g q) = sched_wf q"
  shows "inv (set_pst p f (upd_proc r g k))"
  using assms by (intro inv_set inv_frame)

end

interpretation sch: state_switch PST_SET PST_UNSET "\<lambda>k. sched_inv k \<and> none_lost k cur" for cur
proof unfold_locales
  fix k p g
  assume "sched_inv k \<and> none_lost k cur"
    and "\<And>q. state (g q) = state q \<and> proc_queue (g q) = proc_queue q \<and> sched_wf (g q) = sched_wf q"
  then show "sched_inv (upd_proc p g k) \<and> none_lost (upd_proc p g k) cur"
    by (auto simp: none_lost_def intro!: sched_inv_upd)
qed (auto intro: PST_SET_inv PST_UNSET_inv none_lost_SET none_lost_UNSET)

section \<open>Properties\<close>

text \<open>
  C13: \<open>pick_proc\<close> takes a process from the first non-empty run queue, and from that queue
  the first process whose deadline has passed or, if there is none, one with the earliest
  deadline; it removes exactly this process and keeps queues and bitmap consistent.  It
  returns nothing only when every queue is empty.
\<close>

theorem pick_proc_correct:
  assumes "sched_inv k"
  shows "case pick_proc k of
      (None, k') \<Rightarrow> k' = k \<and> (\<forall>q. run_queues k q = [])
    | (Some p, k') \<Rightarrow>
        (\<exists>q. (\<forall>q'<q. run_queues k q' = []) \<and> best_in k (run_queues k q) p) \<and>
        sched_inv k' \<and> (\<forall>x. in_queue k' x \<longleftrightarrow> x \<noteq> p \<and> in_queue k x)"
proof (cases "first_queue_from (run_queue_bitmap k) 0")
  case None
  with assms show ?thesis
    by (simp add: pick_proc_def first_queue_run_queues(2) [OF sched_inv_queues])
next
  case (Some q)
  with assms have "run_queues k q \<noteq> []" "\<forall>q'<q. run_queues k q' = []"
    using first_queue_run_queues(1) [OF sched_inv_queues] by blast+
  moreover obtain p where "select_proc k (run_queues k q) (- 1) None = Some p"
      "best_in k (run_queues k q) p"
    using select_proc_best [OF \<open>run_queues k q \<noteq> []\<close>] by blast
  ultimately show ?thesis
    using Some assms by (auto simp: pick_proc_def dequeue_inv in_queue_dequeue)
qed

text \<open>
  C14: setting and clearing state bits keeps the run queues right: queues, bitmap and process
  states stay consistent, and no runnable process other than the running one is ever missing
  from the queues.
\<close>

theorem state_macros_keep_queues:
  assumes "sched_inv k" and "none_lost k cur"
  shows "sched_inv (PST_SET p f k) \<and> none_lost (PST_SET p f k) cur \<and>
    sched_inv (PST_UNSET p f k) \<and> none_lost (PST_UNSET p f k) cur"
  using assms sch.inv_set sch.inv_unset by blast

text \<open>
  A runnable process that has used up its quantum gets a new one and goes back to a run
  queue: after \<open>PST_SET\<close> of \<open>PST_NO_QUANTUM\<close> and \<open>proc_no_time\<close> it is runnable and queued.
\<close>

theorem no_quantum_requeues:
  assumes "sched_inv k" and "state (proc_table k p) = 0"
  defines "k' \<equiv> proc_no_time p (PST_SET p PST_NO_QUANTUM k)"
  shows "state (proc_table k' p) = 0 \<and> in_queue k' p \<and> sched_inv k' \<and>
    counter_ns (proc_table k' p) = ucast (rr_interval_ms k) * 1000000"
proof -
  define k1 where "k1 = PST_SET p PST_NO_QUANTUM k"
  define k2 where "k2 = upd_proc p (\<lambda>q. q\<lparr>counter_ns := ucast (rr_interval_ms k1) * 1000000,
      deadline := JIFFIES_MS k1 + ucast (rr_interval_ms k1 * of_int (priority (proc_table k1 p)))\<rparr>) k1"
  have k': "k' = PST_UNSET p PST_NO_QUANTUM k2"
    by (simp add: k'_def k1_def k2_def proc_no_time_def Let_def)
  have "sched_inv k1" unfolding k1_def by (rule PST_SET_inv [OF assms(1)])
  then have "sched_inv k2"
    unfolding k2_def by (rule sched_inv_upd) (simp add: proc_queue_def sched_wf_def)
  moreover have "state (proc_table k2 p) = PST_NO_QUANTUM" by (simp add: k1_def k2_def assms(2))
  moreover have "rr_interval_ms k1 = rr_interval_ms k" by (simp add: k1_def PST_SET_def Let_def)
  then have "counter_ns (proc_table k2 p) = ucast (rr_interval_ms k) * 1000000"
    by (simp add: k2_def)
  ultimately show ?thesis
    by (simp add: k' PST_UNSET_inv) (simp add: PST_UNSET_def Let_def in_queue_enqueue)
qed

text \<open>A kernel with one ready process, used for the witnesses.\<close>

lemma blank_kernel_sched: "sched_inv blank_kernel" "none_lost blank_kernel 0"
  by (auto simp: sched_inv_def queues_ok_def none_lost_def blank_kernel_def blank_proc_def
      in_queue_def sched_wf_def BITCHUNKS_def GET_BIT_def nth_Cons split: nat.split)

definition one_ready :: kernel where
  "one_ready = PST_UNSET 9 PST_FREE_SLOT blank_kernel"

theorem pick_proc_correct_witness:
  "case pick_proc one_ready of
      (None, k') \<Rightarrow> k' = one_ready \<and> (\<forall>q. run_queues one_ready q = [])
    | (Some p, k') \<Rightarrow>
        (\<exists>q. (\<forall>q'<q. run_queues one_ready q' = []) \<and> best_in one_ready (run_queues one_ready q) p) \<and>
        sched_inv k' \<and> (\<forall>x. in_queue k' x \<longleftrightarrow> x \<noteq> p \<and> in_queue one_ready x)"
  unfolding one_ready_def
  by (rule pick_proc_correct, rule PST_UNSET_inv, rule blank_kernel_sched)

theorem state_macros_keep_queues_witness:
  "sched_inv (PST_SET 9 PST_STOPPED blank_kernel) \<and> none_lost (PST_SET 9 PST_STOPPED blank_kernel) 0 \<and>
   sched_inv (PST_UNSET 9 PST_STOPPED blank_kernel) \<and> none_lost (PST_UNSET 9 PST_STOPPED blank_kernel) 0"
  by (rule state_macros_keep_queues) (rule blank_kernel_sched)+

theorem no_quantum_requeues_witness:
  "in_queue (proc_no_time 9 (PST_SET 9 PST_NO_QUANTUM one_ready)) 9"
proof -
  have "sched_inv one_ready"
    unfolding one_ready_def by (rule PST_UNSET_inv) (rule blank_kernel_sched)
  moreover have "state (proc_table one_ready 9) = 0"
    by (simp add: one_ready_def blank_kernel_def blank_proc_def)
  ultimately show ?thesis using no_quantum_requeues [of one_ready 9] by simp
qed

end
