(* ===== verification/Ipc.thy ===== *)
theory Ipc
  imports Sched
begin

text \<open>
  Message passing, \<open>kernel/proc.c\<close>: synchronous send and receive with the queue of blocked
  senders linked through the process table, deadlock detection, notifications, and
  asynchronous message tables.  A routine returns its C result and the new kernel state, or
  the fault it runs into.
\<close>

unbundle bit_operations_syntax

section \<open>Copying messages\<close>

abbreviation IPCF_FROMKERNEL :: u32 where "IPCF_FROMKERNEL \<equiv> 0x1"
abbreviation IPCF_NONBLOCK :: u32 where "IPCF_NONBLOCK \<equiv> 0x2"
abbreviation IPCF_ASYNC :: u32 where "IPCF_ASYNC \<equiv> 0x4"

text \<open>The argument \<open>MESSAGE* m\<close>: a message of the kernel or a user address.\<close>

datatype msg_ptr = KernelMsg message | UserMsg nat

text \<open>
  \<open>*m\<close> with \<open>IPCF_FROMKERNEL\<close>, else \<open>copy_user_message\<close> from the address space of \<open>p\<close>;
  \<open>None\<close> is a fault of the copy.
\<close>

definition fetch_msg :: "kernel \<Rightarrow> nat \<Rightarrow> msg_ptr \<Rightarrow> message option" where
  "fetch_msg k p m = (case m of KernelMsg x \<Rightarrow> Some x | UserMsg a \<Rightarrow> umsg k p a)"

text \<open>\<open>data_vir_copy\<close> of one table entry from and to the process with endpoint \<open>ep\<close>.\<close>

definition amsg_in :: "kernel \<Rightarrow> endpoint \<Rightarrow> nat \<Rightarrow> async_message option" where
  "amsg_in k ep a = (case endpt_proc k ep of None \<Rightarrow> None | Some s \<Rightarrow> uasync k s a)"

definition amsg_out :: "kernel \<Rightarrow> endpoint \<Rightarrow> nat \<Rightarrow> async_message \<Rightarrow> kernel option" where
  "amsg_out k ep a am =
     (case endpt_proc k ep of
        None \<Rightarrow> None
      | Some s \<Rightarrow>
          if uasync k s a \<noteq> None \<and> uwr k s a
          then Some (k\<lparr>uasync := (uasync k)(s := (uasync k s)(a \<mapsto> am))\<rparr>) else None)"

section \<open>Deadlock detection\<close>

text \<open>
  The walk along \<open>sendto\<close>.  It runs on fuel: the table has \<open>NR_SLOTS\<close> processes, so a walk of
  more steps has come back to a process it has seen and goes on for ever.
\<close>

fun deadlock_walk :: "nat \<Rightarrow> kernel \<Rightarrow> endpoint \<Rightarrow> nat option \<Rightarrow> bool res" where
  "deadlock_walk 0 k src p = Inl Diverge"
| "deadlock_walk (Suc fuel) k src None = Inl NullDeref"
| "deadlock_walk (Suc fuel) k src (Some p) =
     (if PST_IS_SET k p PST_SENDING then
        if sendto (proc_table k p) = src then Inr True
        else deadlock_walk fuel k src (endpt_proc k (sendto (proc_table k p)))
      else Inr False)"

text \<open>The loop that prints the chain, from \<open>dest\<close> to \<open>src\<close>.\<close>

fun print_chain :: "nat \<Rightarrow> kernel \<Rightarrow> endpoint \<Rightarrow> nat option \<Rightarrow> unit res" where
  "print_chain 0 k src p = Inl Diverge"
| "print_chain (Suc fuel) k src None = Inl NullDeref"
| "print_chain (Suc fuel) k src (Some p) =
     (case endpt_proc k (sendto (proc_table k p)) of
        None \<Rightarrow> Inl NullDeref
      | Some q \<Rightarrow> if Some q = endpt_proc k src then Inr () else print_chain fuel k src (Some q))"

definition deadlock :: "kernel \<Rightarrow> endpoint \<Rightarrow> endpoint \<Rightarrow> bool res" where
  "deadlock k src dest =
     bind_res (deadlock_walk (NR_SLOTS + 1) k src (endpt_proc k dest)) (\<lambda>found.
       if found
       then bind_res (print_chain (NR_SLOTS + 1) k src (endpt_proc k dest)) (\<lambda>_. Inr True)
       else Inr False)"

section \<open>Synchronous send\<close>

text \<open>
  \<open>p_dest\<close> is blocked waiting for a message from \<open>sender\<close>.
\<close>

definition is_waiting_for :: "kernel \<Rightarrow> nat \<Rightarrow> endpoint \<Rightarrow> bool" where
  "is_waiting_for k p_dest ep \<longleftrightarrow>
     \<not> PST_IS_SET k p_dest PST_SENDING \<and> PST_IS_SET k p_dest PST_RECEIVING \<and>
     (recvfrom (proc_table k p_dest) = ep \<or> recvfrom (proc_table k p_dest) = ANY)"

text \<open>\<open>while (p->next_sending) p = p->next_sending;\<close>\<close>

fun last_sending :: "nat \<Rightarrow> kernel \<Rightarrow> nat \<Rightarrow> nat res" where
  "last_sending 0 k p = Inl Diverge"
| "last_sending (Suc fuel) k p =
     (case next_sending (proc_table k p) of
        None \<Rightarrow> Inr p
      | Some q \<Rightarrow> last_sending fuel k q)"

definition append_sending :: "nat \<Rightarrow> nat \<Rightarrow> kernel \<Rightarrow> kernel res" where
  "append_sending sender p_dest k =
     bind_res
       (case q_sending (proc_table k p_dest) of
          Some p \<Rightarrow> bind_res (last_sending NR_SLOTS k p)
            (\<lambda>l. Inr (upd_proc l (next_sending_update (\<lambda>_. Some sender)) k))
        | None \<Rightarrow> Inr (upd_proc p_dest (q_sending_update (\<lambda>_. Some sender)) k))
       (\<lambda>k. Inr (upd_proc sender (next_sending_update (\<lambda>_. None)) k))"

text \<open>Handing a message to a waiting process and making it runnable.\<close>

definition deliver_to :: "nat \<Rightarrow> message \<Rightarrow> kernel \<Rightarrow> kernel" where
  "deliver_to p_dest msg k =
     (let k = upd_proc p_dest (\<lambda>d. d\<lparr>deliver_msg := msg, flags := flags d OR PF_DELIVER_MSG\<rparr>) k;
          k = PST_UNSET p_dest PST_RECEIVING k
      in upd_proc p_dest (\<lambda>d. d\<lparr>flags := flags d AND NOT PF_RECV_ASYNC\<rparr>) k)"

text \<open>
  On a deadlock \<open>dump_msg\<close> prints the message of the caller and reads it through the pointer of the caller, without
  the check of a copy: where no message can be copied from the read is a fault.
\<close>

definition msg_send :: "kernel \<Rightarrow> nat \<Rightarrow> endpoint \<Rightarrow> msg_ptr \<Rightarrow> u32 \<Rightarrow> (int \<times> kernel) res" where
  "msg_send k sender dest m fl =
     (case endpt_proc k dest of
        None \<Rightarrow> Inr (EINVAL, k)
      | Some p_dest \<Rightarrow>
          bind_res (deadlock k (endpoint (proc_table k sender)) dest) (\<lambda>dl.
          if dl then (case fetch_msg k sender m of None \<Rightarrow> Inl NullDeref | Some _ \<Rightarrow> Inr (EDEADLK, k))
          else if is_waiting_for k p_dest (endpoint (proc_table k sender)) then
            if has_flag (flags (proc_table k p_dest)) PF_DELIVER_MSG then Inl AssertFail
            else (case fetch_msg k sender m of
                    None \<Rightarrow> Inr (EFAULT, k)
                  | Some msg \<Rightarrow>
                      Inr (0, deliver_to p_dest (msg\<lparr>source := endpoint (proc_table k sender)\<rparr>) k))
          else if has_flag fl IPCF_NONBLOCK then Inr (EBUSY, k)
          else
            let k = PST_SET sender PST_SENDING k;
                k = upd_proc sender (sendto_update (\<lambda>_. dest)) k
            in case fetch_msg k sender m of
                 None \<Rightarrow> Inr (EFAULT, k)
               | Some msg \<Rightarrow>
                   let k = upd_proc sender (send_msg_update (\<lambda>_.
                             msg\<lparr>source := endpoint (proc_table k sender)\<rparr>)) k
                   in bind_res (append_sending sender p_dest k) (\<lambda>k. Inr (0, k))))"

section \<open>Notifications\<close>

text \<open>The privilege structure of a process; \<open>p->priv\<close> may be \<open>NULL\<close>.\<close>

definition priv_of :: "kernel \<Rightarrow> nat \<Rightarrow> nat res" where
  "priv_of k p = (case priv_ix (proc_table k p) of None \<Rightarrow> Inl NullDeref | Some i \<Rightarrow> Inr i)"

text \<open>\<open>proc_addr(priv_addr(id)->proc_nr)\<close>.\<close>

definition priv_proc :: "kernel \<Rightarrow> nat \<Rightarrow> nat res" where
  "priv_proc k i =
     (let n = proc_nr (priv_table k i) in
      if - int NR_TASKS \<le> n \<and> n < int NR_PROCS then Inr (proc_addr n) else Inl OutOfBounds)"

text \<open>\<open>None\<close> is \<open>PRIV_ID_NULL\<close>.\<close>

definition has_pending_notify :: "kernel \<Rightarrow> nat \<Rightarrow> endpoint \<Rightarrow> nat option res" where
  "has_pending_notify k p src =
     (if src \<noteq> ANY then
        (case endpt_proc k src of
           None \<Rightarrow> Inr None
         | Some sender \<Rightarrow>
             bind_res (priv_of k p) (\<lambda>pi. bind_res (priv_of k sender) (\<lambda>si.
               if GET_BIT (notify_pending (priv_table k pi)) (pr_id (priv_table k si))
               then Inr (Some (pr_id (priv_table k si))) else Inr None)))
      else
        bind_res (priv_of k p) (\<lambda>pi.
        bind_res (bitmap_find_next_bit (notify_pending (priv_table k pi)) NR_PRIV_PROCS 0) (\<lambda>i.
          Inr (if i \<ge> NR_PRIV_PROCS then None else Some i))))"

definition unset_notify_pending :: "nat \<Rightarrow> nat \<Rightarrow> kernel \<Rightarrow> kernel res" where
  "unset_notify_pending p i k =
     bind_res (priv_of k p) (\<lambda>pi.
       Inr (upd_priv pi (notify_pending_update (\<lambda>m. UNSET_BIT m i)) k))"

text \<open>The notification message for \<open>dest\<close>; it takes over the pending interrupts or signals.\<close>

definition set_notify_msg :: "nat \<Rightarrow> endpoint \<Rightarrow> kernel \<Rightarrow> (message \<times> kernel) res" where
  "set_notify_msg dest src k =
     (let m = reset_msg\<lparr>source := src, mtype := NOTIFY_MSG\<rparr> in
      if src = INTERRUPT then
        bind_res (priv_of k dest) (\<lambda>i.
          Inr (m\<lparr>body := INTERRUPTS (int_pending (priv_table k i))\<rparr>,
               upd_priv i (int_pending_update (\<lambda>_. 0)) k))
      else if src = SYSTEM then
        bind_res (priv_of k dest) (\<lambda>i.
          Inr (m\<lparr>body := SIGSET (psig_pending (priv_table k i))\<rparr>,
               upd_priv i (psig_pending_update (\<lambda>_. 0)) k))
      else if src = CLOCK then Inr (m\<lparr>body := TIMESTAMP (jiffies k)\<rparr>, k)
      else Inr (m, k))"

definition msg_notify :: "kernel \<Rightarrow> nat \<Rightarrow> endpoint \<Rightarrow> (int \<times> kernel) res" where
  "msg_notify k p_to_send dest =
     (case endpt_proc k dest of
        None \<Rightarrow> Inr (EINVAL, k)
      | Some p_dest \<Rightarrow>
          if is_waiting_for k p_dest (endpoint (proc_table k p_to_send)) then
            bind_res (set_notify_msg p_dest (endpoint (proc_table k p_to_send)) k)
              (\<lambda>(m, k). Inr (0, deliver_to p_dest m k))
          else
            bind_res (priv_of k p_dest) (\<lambda>di. bind_res (priv_of k p_to_send) (\<lambda>si.
              Inr (0, upd_priv di
                (notify_pending_update (\<lambda>m. SET_BIT m (pr_id (priv_table k si)))) k))))"

section \<open>Asynchronous messages\<close>

text \<open>
  The scan of the sender's table: \<open>n\<close> entries are left, from entry \<open>i\<close>.  The flag \<open>done\<close> is
  \<open>None\<close> when the scan leaves by \<open>goto async_error\<close>.
\<close>

fun receive_async_scan :: "nat \<Rightarrow> nat \<Rightarrow> nat \<Rightarrow> nat \<Rightarrow> nat \<Rightarrow> bool \<Rightarrow> kernel \<Rightarrow> int \<times> bool option \<times> kernel" where
  "receive_async_scan 0 i p sender si dn k = (ESRCH, Some dn, k)"
| "receive_async_scan (Suc n) i p sender si dn k =
     (let ep = endpoint (proc_table k sender); a = async_table (priv_table k si) + i in
      case amsg_in k ep a of
        None \<Rightarrow> (EFAULT, None, k)
      | Some am \<Rightarrow>
          let amsg = am\<lparr>am_msg := (am_msg am)\<lparr>source := ep\<rparr>\<rparr> in
          if am_flags amsg = 0 \<or> has_flag (am_flags amsg) ASMF_DONE
          then receive_async_scan n (i + 1) p sender si dn k
          else if am_dest amsg \<noteq> endpoint (proc_table k p)
          then receive_async_scan n (i + 1) p sender si False k
          else
            let k = deliver_to p (am_msg amsg) k in
            case amsg_out k ep a (amsg\<lparr>am_result := 0, am_flags := am_flags amsg OR ASMF_DONE\<rparr>) of
              None \<Rightarrow> (EFAULT, None, k)
            | Some k \<Rightarrow> (0, Some False, k))"

definition receive_async_from :: "nat \<Rightarrow> nat \<Rightarrow> kernel \<Rightarrow> (int \<times> kernel) res" where
  "receive_async_from p sender k =
     bind_res (priv_of k sender) (\<lambda>si.
     if \<not> has_flag (prflags (priv_table k si)) PRF_PRIV_PROC then Inr (EPERM, k)
     else bind_res (priv_of k p) (\<lambda>pi.
       let sid = pr_id (priv_table k si);
           k = upd_priv pi (async_pending_update (\<lambda>m. UNSET_BIT m sid)) k in
       case receive_async_scan (async_len (priv_table k si)) 0 p sender si True k of
         (retval, None, k) \<Rightarrow> Inr (retval, k)
       | (retval, Some True, k) \<Rightarrow>
           Inr (retval, upd_priv si (\<lambda>v. v\<lparr>async_table := 0, async_len := 0\<rparr>) k)
       | (retval, Some False, k) \<Rightarrow>
           Inr (retval, upd_priv pi (async_pending_update (\<lambda>m. SET_BIT m sid)) k)))"

text \<open>
  The loop over the senders with a pending table.  Each round continues at a larger
  \<open>priv_id\<close>, so \<open>NR_PRIV_PROCS\<close> rounds are enough fuel.
\<close>

fun receive_async_loop :: "nat \<Rightarrow> nat \<Rightarrow> nat \<Rightarrow> kernel \<Rightarrow> (int \<times> kernel) res" where
  "receive_async_loop 0 start p k = Inl Diverge"
| "receive_async_loop (Suc fuel) start p k =
     bind_res (priv_of k p) (\<lambda>pi.
     bind_res (bitmap_find_next_bit (async_pending (priv_table k pi)) NR_PRIV_PROCS start) (\<lambda>i.
       if i \<ge> NR_PRIV_PROCS then Inr (ESRCH, k)
       else if proc_nr (priv_table k i) = NO_TASK then receive_async_loop fuel (i + 1) p k
       else bind_res (priv_proc k i) (\<lambda>src.
         bind_res (receive_async_from p src k) (\<lambda>(retval, k).
           if retval = 0 then Inr (0, k) else receive_async_loop fuel (i + 1) p k))))"

definition receive_async :: "nat \<Rightarrow> kernel \<Rightarrow> (int \<times> kernel) res" where
  "receive_async p k = receive_async_loop (NR_PRIV_PROCS + 1) 0 p k"

definition has_pending_async :: "kernel \<Rightarrow> nat \<Rightarrow> endpoint \<Rightarrow> nat option res" where
  "has_pending_async k p src =
     bind_res (priv_of k p) (\<lambda>pi.
     bind_res (bitmap_find_next_bit (async_pending (priv_table k pi)) NR_PRIV_PROCS 0) (\<lambda>i.
       if i \<ge> NR_PRIV_PROCS then Inr None
       else if src \<noteq> ANY then
         (case endpt_proc k src of
            None \<Rightarrow> Inr None
          | Some sender \<Rightarrow>
              bind_res (priv_of k sender) (\<lambda>si.
                if GET_BIT (async_pending (priv_table k pi)) (pr_id (priv_table k si))
                then Inr (Some (pr_id (priv_table k si))) else Inr None))
       else Inr (Some i)))"

text \<open>
  One round of the loop of \<open>msg_senda\<close>, for the entry at \<open>a\<close>; the flag is the new value of
  \<open>done\<close>.  The loop counts an \<open>int\<close> up to a \<open>size_t\<close>; the model counts entries, which is the same for tables of
  fewer than \<open>2 ^ 31\<close> entries.  \<open>async_done\<close> is the code at the label of that name.
\<close>

definition async_done :: "endpoint \<Rightarrow> nat \<Rightarrow> async_message \<Rightarrow> int \<Rightarrow> kernel \<Rightarrow> kernel" where
  "async_done ep a amsg retval k =
     (case amsg_out k ep a (amsg\<lparr>am_result := retval, am_flags := am_flags amsg OR ASMF_DONE\<rparr>) of
        None \<Rightarrow> k | Some k' \<Rightarrow> k')"

definition msg_senda_entry :: "nat \<Rightarrow> nat \<Rightarrow> nat \<Rightarrow> bool \<Rightarrow> kernel \<Rightarrow> (bool \<times> kernel) res" where
  "msg_senda_entry p si a dn k =
     (let ep = endpoint (proc_table k p) in
      case amsg_in k ep a of
        None \<Rightarrow> Inr (dn, k)
      | Some am \<Rightarrow>
          let amsg = am\<lparr>am_msg := (am_msg am)\<lparr>source := ep\<rparr>\<rparr> in
          if am_flags amsg = 0 \<or> has_flag (am_flags amsg) ASMF_DONE then Inr (dn, k)
          else if am_dest amsg = ep then Inr (dn, async_done ep a amsg EINVAL k)
          else (case endpt_proc k (am_dest amsg) of
            None \<Rightarrow> Inr (dn, async_done ep a amsg EINVAL k)
          | Some p_dest \<Rightarrow>
              if is_waiting_for k p_dest ep \<and> has_flag (flags (proc_table k p_dest)) PF_RECV_ASYNC
              then Inr (dn, async_done ep a amsg 0 (deliver_to p_dest (am_msg amsg) k))
              else bind_res (priv_of k p_dest) (\<lambda>di.
                Inr (False, upd_priv di (async_pending_update
                  (\<lambda>m. SET_BIT m (pr_id (priv_table k si)))) k))))"

primrec msg_senda_loop :: "nat \<Rightarrow> nat \<Rightarrow> nat \<Rightarrow> nat \<Rightarrow> bool \<Rightarrow> kernel \<Rightarrow> (bool \<times> kernel) res" where
  "msg_senda_loop 0 p si a dn k = Inr (dn, k)"
| "msg_senda_loop (Suc n) p si a dn k =
     bind_res (msg_senda_entry p si a dn k) (\<lambda>(dn, k). msg_senda_loop n p si (a + 1) dn k)"

definition msg_senda :: "kernel \<Rightarrow> nat \<Rightarrow> nat \<Rightarrow> nat \<Rightarrow> (int \<times> kernel) res" where
  "msg_senda k p tbl len =
     bind_res (priv_of k p) (\<lambda>si.
     if \<not> has_flag (prflags (priv_table k si)) PRF_PRIV_PROC then Inr (EPERM, k)
     else
       let k = upd_priv si (\<lambda>v. v\<lparr>async_table := 0, async_len := 0\<rparr>) k in
       if len = 0 then Inr (0, k)
       else bind_res (msg_senda_loop len p si tbl True k) (\<lambda>(dn, k).
         Inr (0, if dn then k
                 else upd_priv si (\<lambda>v. v\<lparr>async_table := tbl, async_len := len\<rparr>) k)))"

section \<open>Synchronous receive\<close>

text \<open>
  The walk of the sending queue of the receiver for the process with endpoint \<open>src\<close>: the
  process found (if any) and the one before it.
\<close>

fun find_sending :: "nat \<Rightarrow> kernel \<Rightarrow> endpoint \<Rightarrow> nat option \<Rightarrow> nat option \<Rightarrow> (nat option \<times> nat option) res" where
  "find_sending 0 k src prev p = Inl Diverge"
| "find_sending (Suc fuel) k src prev None = Inr (None, prev)"
| "find_sending (Suc fuel) k src prev (Some p) =
     (if endpoint (proc_table k p) = src then Inr (Some p, prev)
      else find_sending fuel k src (Some p) (next_sending (proc_table k p)))"

text \<open>\<open>Inr None\<close>: nobody to receive from; \<open>Inr (Some (from, prev))\<close>: \<open>copyok\<close>.\<close>

definition pick_sender :: "kernel \<Rightarrow> nat \<Rightarrow> endpoint \<Rightarrow> nat \<Rightarrow> (nat \<times> nat option) option res" where
  "pick_sender k who src from =
     (if PST_IS_SET k from PST_SENDING \<and> sendto (proc_table k from) = endpoint (proc_table k who)
      then if q_sending (proc_table k who) = None then Inl AssertFail
        else bind_res (find_sending (NR_SLOTS + 1) k src None (q_sending (proc_table k who)))
          (\<lambda>(found, prev). Inr (Some (case found of Some p \<Rightarrow> p | None \<Rightarrow> from, prev)))
      else Inr None)"

definition unlink_sending :: "nat \<Rightarrow> nat \<Rightarrow> nat option \<Rightarrow> kernel \<Rightarrow> kernel res" where
  "unlink_sending who from prev k =
     bind_res
       (if Some from = q_sending (proc_table k who) then
          if prev \<noteq> None then Inl AssertFail
          else Inr (upd_proc who (q_sending_update (\<lambda>_. next_sending (proc_table k from))) k)
        else (case prev of
                None \<Rightarrow> Inl AssertFail
              | Some q \<Rightarrow> Inr (upd_proc q (next_sending_update (\<lambda>_. next_sending (proc_table k from))) k)))
       (\<lambda>k. Inr (upd_proc from (next_sending_update (\<lambda>_. None)) k))"

definition take_message :: "nat \<Rightarrow> nat \<Rightarrow> nat option \<Rightarrow> nat \<Rightarrow> kernel \<Rightarrow> kernel res" where
  "take_message who from prev m k =
     bind_res (unlink_sending who from prev k) (\<lambda>k.
     if m = 0 then Inl AssertFail
     else
       let k = upd_proc who (\<lambda>r. r\<lparr>recv_msg := m, deliver_msg := send_msg (proc_table k from),
                 flags := flags r OR PF_DELIVER_MSG\<rparr>) k;
           k = upd_proc from (\<lambda>s. s\<lparr>send_msg := reset_msg, sendto := NO_TASK\<rparr>) k
       in Inr (PST_UNSET from PST_SENDING k))"

text \<open>The label \<open>no_msg\<close>.\<close>

definition block_receiving :: "nat \<Rightarrow> endpoint \<Rightarrow> nat \<Rightarrow> u32 \<Rightarrow> kernel \<Rightarrow> kernel" where
  "block_receiving who src m fl k =
     upd_proc who (\<lambda>r. r\<lparr>flags := flags r OR (if has_flag fl IPCF_ASYNC then PF_RECV_ASYNC else 0),
       recv_msg := m, recvfrom := src\<rparr>) (PST_SET who PST_RECEIVING k)"

text \<open>The part of \<open>msg_receive\<close> after notifications and asynchronous messages.\<close>

definition receive_sync :: "nat \<Rightarrow> endpoint \<Rightarrow> nat \<Rightarrow> u32 \<Rightarrow> int \<Rightarrow> kernel \<Rightarrow> (int \<times> kernel) res" where
  "receive_sync who src m fl retval k =
     (case
        (if src = ANY then
           Some (Inr (map_option (\<lambda>f. (f, None)) (q_sending (proc_table k who))))
         else (case endpt_proc k src of
                 None \<Rightarrow> None
               | Some from \<Rightarrow> Some (pick_sender k who src from)))
      of None \<Rightarrow> Inr (EINVAL, k)
       | Some picked \<Rightarrow>
           bind_res picked (\<lambda>copyok.
             case copyok of
               Some (from, prev) \<Rightarrow>
                 bind_res (take_message who from prev m k) (\<lambda>k. Inr (retval, k))
             | None \<Rightarrow> Inr (retval, block_receiving who src m fl k)))"

definition receive_notify :: "nat \<Rightarrow> nat \<Rightarrow> nat \<Rightarrow> kernel \<Rightarrow> (int \<times> kernel) res" where
  "receive_notify who i m k =
     bind_res (priv_proc k i) (\<lambda>notifier.
     bind_res (set_notify_msg who (endpoint (proc_table k notifier)) k) (\<lambda>(msg, k).
     bind_res (unset_notify_pending who i k) (\<lambda>k.
       Inr (0, deliver_to who msg (upd_proc who (recv_msg_update (\<lambda>_. m)) k)))))"

text \<open>
  The asynchronous part: \<open>None\<close> as second component when a message was received and
  \<open>msg_receive\<close> is finished, otherwise the value \<open>retval\<close> has afterwards.
\<close>

definition receive_pending_async :: "nat \<Rightarrow> endpoint \<Rightarrow> nat \<Rightarrow> kernel \<Rightarrow> (int option \<times> kernel) res" where
  "receive_pending_async who src m k =
     bind_res (has_pending_async k who src) (\<lambda>async_id.
       case async_id of
         None \<Rightarrow> Inr (Some 0, k)
       | Some i \<Rightarrow>
           bind_res (if src = ANY then Inr 0 else priv_proc k i) (\<lambda>async_sender.
           let k = upd_proc who (recv_msg_update (\<lambda>_. m)) k in
           bind_res (if src = ANY then receive_async who k else receive_async_from who async_sender k)
             (\<lambda>(retval, k).
               if retval = 0 then Inr (None, k)
               else Inr (Some retval, upd_proc who (recv_msg_update (\<lambda>_. 0)) k))))"

definition msg_receive :: "kernel \<Rightarrow> nat \<Rightarrow> endpoint \<Rightarrow> nat \<Rightarrow> u32 \<Rightarrow> (int \<times> kernel) res" where
  "msg_receive k who src m fl =
     (if PST_IS_SET k who PST_SENDING then Inr (0, block_receiving who src m fl k)
      else bind_res (has_pending_notify k who src) (\<lambda>notify_id.
        case notify_id of
          Some i \<Rightarrow> receive_notify who i m k
        | None \<Rightarrow>
            bind_res (if has_flag fl IPCF_ASYNC then receive_pending_async who src m k
                      else Inr (Some 0, k)) (\<lambda>(res, k).
              case res of
                None \<Rightarrow> Inr (0, k)
              | Some retval \<Rightarrow> receive_sync who src m fl retval k)))"

section \<open>The system call\<close>

text \<open>The functions of \<open>sendrec\<close>; \<open>OTHER\<close> is any other number.\<close>

datatype sr_function = SEND | RECEIVE | BOTH | SEND_NONBLOCK | SEND_ASYNC | RECEIVE_ASYNC | NOTIFY | OTHER

record sr_args =
  SR_FUNCTION :: sr_function
  SR_SRCDEST :: endpoint
  SR_MSG :: nat
  SR_TABLE :: nat
  SR_LEN :: nat

definition sys_sendrec :: "kernel \<Rightarrow> sr_args \<Rightarrow> nat \<Rightarrow> (int \<times> kernel) res" where
  "sys_sendrec k a p =
     (let fn = SR_FUNCTION a; src_dest = SR_SRCDEST a; msg = SR_MSG a in
      if fn \<noteq> SEND_ASYNC \<and>
         (verify_endpt k src_dest = None \<or> endpoint (proc_table k p) = src_dest)
      then Inr (EINVAL, k)
      else case fn of
        SEND \<Rightarrow> msg_send k p src_dest (UserMsg msg) 0
      | BOTH \<Rightarrow> bind_res (msg_send k p src_dest (UserMsg msg) 0) (\<lambda>(ret, k).
                 if ret \<noteq> 0 then Inr (ret, k) else msg_receive k p src_dest msg 0)
      | RECEIVE \<Rightarrow> msg_receive k p src_dest msg 0
      | SEND_NONBLOCK \<Rightarrow> msg_send k p src_dest (UserMsg msg) IPCF_NONBLOCK
      | SEND_ASYNC \<Rightarrow> msg_senda k p (SR_TABLE a) (SR_LEN a)
      | RECEIVE_ASYNC \<Rightarrow> msg_receive k p src_dest msg IPCF_ASYNC
      | NOTIFY \<Rightarrow> msg_notify k p src_dest
      | OTHER \<Rightarrow> Inr (EINVAL, k))"

end
