(* ===== verification/Ipc_Inv.thy ===== *)
theory Ipc_Inv
  imports Ipc
begin

text \<open>
  The invariant of message passing: the sending queues that the process table links hold
  exactly the processes blocked on each receiver, the graph of blocked senders has no cycle,
  and a process waits for a message only while no matching sender is queued.  Every message
  operation keeps it.
\<close>

unbundle bit_operations_syntax

section \<open>The sending queues\<close>

abbreviation nxt :: "kernel \<Rightarrow> nat \<Rightarrow> nat option" where
  "nxt k p \<equiv> next_sending (proc_table k p)"

lemma last_sending_ok:
  "qpath (nxt k) (Some p) as \<Longrightarrow> length as \<le> fuel \<Longrightarrow> last_sending fuel k p = Inr (last as)"
proof (induction fuel arbitrary: p as)
  case 0
  then show ?case by (cases as) auto
next
  case (Suc fuel)
  then obtain bs where as: "as = p # bs" "qpath (nxt k) (nxt k p) bs" by (cases as) auto
  show ?case
  proof (cases bs)
    case (Cons q cs)
    with as Suc.prems have "last_sending fuel k q = Inr (last bs)" by (intro Suc.IH) auto
    with as Cons show ?thesis by simp
  qed (use as in simp)
qed

lemma find_sending_ok:
  "qpath (nxt k) x (xs @ f # ys) \<Longrightarrow> length xs < fuel \<Longrightarrow> endpoint (proc_table k f) = src \<Longrightarrow>
    \<forall>p \<in> set xs. endpoint (proc_table k p) \<noteq> src \<Longrightarrow>
    find_sending fuel k src prev x = Inr (Some f, if xs = [] then prev else Some (last xs))"
proof (induction xs arbitrary: x fuel prev)
  case Nil
  then show ?case by (cases fuel) auto
next
  case (Cons a xs)
  then show ?case by (cases fuel) auto
qed

section \<open>The graph of blocked senders\<close>

text \<open>An edge from each blocked sender to the process it sends to.\<close>

definition sends_to :: "kernel \<Rightarrow> (nat \<times> nat) set" where
  "sends_to k = {(s, d). PST_IS_SET k s PST_SENDING \<and> endpt_proc k (sendto (proc_table k s)) = Some d}"

definition senders :: "kernel \<Rightarrow> nat \<Rightarrow> nat set" where
  "senders k d = {s. (s, d) \<in> sends_to k}"

text \<open>A process its own endpoint leads to.\<close>

definition resolvable :: "kernel \<Rightarrow> nat \<Rightarrow> bool" where
  "resolvable k p \<longleftrightarrow> endpt_proc k (endpoint (proc_table k p)) = Some p \<and>
     endpoint (proc_table k p) \<noteq> ANY \<and> endpoint (proc_table k p) \<noteq> NO_TASK"

text \<open>Blocked senders and their receivers are live processes.\<close>

definition sends_live :: "kernel \<Rightarrow> bool" where
  "sends_live k \<longleftrightarrow> (\<forall>s. PST_IS_SET k s PST_SENDING \<longrightarrow>
     resolvable k s \<and> (\<exists>d. resolvable k d \<and> endpoint (proc_table k d) = sendto (proc_table k s)))"

lemma resolvable_slot: "resolvable k p \<Longrightarrow> p < NR_SLOTS"
  by (auto simp: resolvable_def dest: endpt_proc_slot)

lemma resolvable_inj:
  "resolvable k p \<Longrightarrow> resolvable k q \<Longrightarrow> endpoint (proc_table k p) = endpoint (proc_table k q) \<Longrightarrow> p = q"
  by (simp add: resolvable_def)

lemma sends_to_single: "(s, d) \<in> sends_to k \<Longrightarrow> (s, d') \<in> sends_to k \<Longrightarrow> d = d'"
  by (simp add: sends_to_def)

lemma sends_to_endpoint:
  assumes "sends_live k" and "(s, d) \<in> sends_to k"
  shows "resolvable k s" "resolvable k d" "sendto (proc_table k s) = endpoint (proc_table k d)"
proof -
  have "PST_IS_SET k s PST_SENDING" and d: "endpt_proc k (sendto (proc_table k s)) = Some d"
    using assms(2) by (simp_all add: sends_to_def)
  then obtain d' where d': "resolvable k d'" "endpoint (proc_table k d') = sendto (proc_table k s)"
      and "resolvable k s"
    using assms(1) by (auto simp: sends_live_def)
  moreover have "d' = d" using d d' by (simp add: resolvable_def)
  ultimately show "resolvable k s" "resolvable k d"
      "sendto (proc_table k s) = endpoint (proc_table k d)" by auto
qed

lemma sending_edge:
  "sends_live k \<Longrightarrow> PST_IS_SET k s PST_SENDING \<Longrightarrow> \<exists>d. (s, d) \<in> sends_to k"
  by (fastforce simp: sends_live_def sends_to_def resolvable_def)

lemma sends_to_bound: "sends_live k \<Longrightarrow> (s, d) \<in> sends_to k \<Longrightarrow> s < NR_SLOTS \<and> d < NR_SLOTS"
  using sends_to_endpoint resolvable_slot by blast

section \<open>Deadlock detection\<close>

lemma trancl_step_single:
  assumes "(p, d) \<in> sends_to k"
  shows "(p, a) \<in> (sends_to k)\<^sup>+ \<longleftrightarrow> d = a \<or> (d, a) \<in> (sends_to k)\<^sup>+"
proof
  assume "(p, a) \<in> (sends_to k)\<^sup>+"
  then show "d = a \<or> (d, a) \<in> (sends_to k)\<^sup>+"
    using assms by (cases rule: converse_tranclE) (auto dest: sends_to_single)
qed (use assms in \<open>auto intro: trancl_into_trancl2\<close>)

text \<open>
  The processes already passed, \<open>V\<close>, are all distinct from the next one because the graph has
  no cycle, so the walk ends before the table is exhausted.
\<close>

lemma walk_visited:
  assumes "acyclic (sends_to k)" and "finite V" and "\<forall>v\<in>V. (v, p) \<in> (sends_to k)\<^sup>+" and "(p, d) \<in> sends_to k"
  shows "card (insert p V) = card V + 1" and "\<forall>v \<in> insert p V. (v, d) \<in> (sends_to k)\<^sup>+"
  using assms by (auto simp: acyclic_def intro: trancl_into_trancl)

lemma deadlock_walk_ok:
  assumes live: "sends_live k" and acyc: "acyclic (sends_to k)" and a: "resolvable k a"
    and "V \<subseteq> {..<NR_SLOTS}" and "\<forall>v\<in>V. (v, p) \<in> (sends_to k)\<^sup>+"
    and "p < NR_SLOTS" and "NR_SLOTS + 1 \<le> fuel + card V"
  shows "deadlock_walk fuel k (endpoint (proc_table k a)) (Some p) = Inr ((p, a) \<in> (sends_to k)\<^sup>+)"
  using assms(4-)
proof (induction fuel arbitrary: p V)
  case 0
  then have "card V \<le> NR_SLOTS" using card_mono [of "{..<NR_SLOTS}" V] by simp
  with 0 show ?case by simp
next
  case (Suc fuel)
  show ?case
  proof (cases "PST_IS_SET k p PST_SENDING")
    case False
    then have "(p, a) \<notin> (sends_to k)\<^sup>+" by (auto simp: sends_to_def dest: tranclD)
    with False show ?thesis by simp
  next
    case True
    then obtain d where d: "(p, d) \<in> sends_to k" using sending_edge [OF live] by blast
    note ep = sends_to_endpoint [OF live d]
    have fin: "finite V" using Suc.prems(1) finite_subset by blast
    note V = walk_visited [OF acyc fin Suc.prems(2) d]
    have "deadlock_walk fuel k (endpoint (proc_table k a)) (Some d) = Inr ((d, a) \<in> (sends_to k)\<^sup>+)"
      using Suc.prems V sends_to_bound [OF live d] by (intro Suc.IH [of "insert p V"]) auto
    moreover have "sendto (proc_table k p) = endpoint (proc_table k a) \<longleftrightarrow> d = a"
      using ep a resolvable_inj by auto
    moreover have "endpt_proc k (sendto (proc_table k p)) = Some d" using d by (simp add: sends_to_def)
    ultimately show ?thesis using True by (auto simp: trancl_step_single [OF d])
  qed
qed

lemma print_chain_ok:
  assumes live: "sends_live k" and acyc: "acyclic (sends_to k)" and a: "resolvable k a"
    and "V \<subseteq> {..<NR_SLOTS}" and "\<forall>v\<in>V. (v, p) \<in> (sends_to k)\<^sup>+"
    and "(p, a) \<in> (sends_to k)\<^sup>+" and "NR_SLOTS + 1 \<le> fuel + card V"
  shows "print_chain fuel k (endpoint (proc_table k a)) (Some p) = Inr ()"
  using assms(4-)
proof (induction fuel arbitrary: p V)
  case 0
  then have "card V \<le> NR_SLOTS" using card_mono [of "{..<NR_SLOTS}" V] by simp
  with 0 show ?case by simp
next
  case (Suc fuel)
  obtain d where d: "(p, d) \<in> sends_to k" using Suc.prems(3) by (auto dest: tranclD)
  have fin: "finite V" using Suc.prems(1) finite_subset by blast
  note V = walk_visited [OF acyc fin Suc.prems(2) d]
  have nx: "endpt_proc k (sendto (proc_table k p)) = Some d" using d by (simp add: sends_to_def)
  have a_ep: "endpt_proc k (endpoint (proc_table k a)) = Some a" using a by (simp add: resolvable_def)
  show ?case
  proof (cases "d = a")
    case False
    with Suc.prems(3) have "(d, a) \<in> (sends_to k)\<^sup>+" by (simp add: trancl_step_single [OF d])
    then have "print_chain fuel k (endpoint (proc_table k a)) (Some d) = Inr ()"
      using Suc.prems V sends_to_bound [OF live d] by (intro Suc.IH [of "insert p V"]) auto
    with False nx a_ep show ?thesis by simp
  qed (use nx a_ep in simp)
qed

lemma deadlock_ok:
  assumes "sends_live k" and "acyclic (sends_to k)" and "resolvable k a" and "endpt_proc k dest = Some d"
  shows "deadlock k (endpoint (proc_table k a)) dest = Inr ((d, a) \<in> (sends_to k)\<^sup>+)"
  using deadlock_walk_ok [OF assms(1-3), of "{}" d "NR_SLOTS + 1"]
    print_chain_ok [OF assms(1-3), of "{}" d "NR_SLOTS + 1"] endpt_proc_slot [OF assms(4)]
  by (simp add: deadlock_def assms(4))

section \<open>The invariant\<close>

text \<open>The sending queue of \<open>d\<close> is \<open>qs\<close>, and it holds exactly the processes blocked on \<open>d\<close>.\<close>

definition squeue :: "kernel \<Rightarrow> nat \<Rightarrow> nat list \<Rightarrow> bool" where
  "squeue k d qs \<longleftrightarrow>
     qpath (nxt k) (q_sending (proc_table k d)) qs \<and> distinct qs \<and> set qs = senders k d"

definition free_clean :: "kernel \<Rightarrow> bool" where
  "free_clean k \<longleftrightarrow> (\<forall>p. PST_IS_SET k p PST_FREE_SLOT \<longrightarrow> state (proc_table k p) = PST_FREE_SLOT)"

definition ipc_graph :: "kernel \<Rightarrow> bool" where
  "ipc_graph k \<longleftrightarrow>
     sends_live k \<and> acyclic (sends_to k) \<and> (\<forall>d. \<exists>qs. squeue k d qs) \<and> free_clean k"

text \<open>
  A process waits only while no matching sender is blocked on it; one that is both sending and
  receiving (\<open>BOTH\<close>) waits for the answer of the process it sends to; a waiting process has
  no undelivered message.
\<close>

definition rendezvous :: "kernel \<Rightarrow> bool" where
  "rendezvous k \<longleftrightarrow>
     (\<forall>s d. (s, d) \<in> sends_to k \<longrightarrow> \<not> is_waiting_for k d (endpoint (proc_table k s))) \<and>
     (\<forall>p. PST_IS_SET k p PST_SENDING \<and> PST_IS_SET k p PST_RECEIVING \<longrightarrow>
        recvfrom (proc_table k p) = sendto (proc_table k p)) \<and>
     (\<forall>p. PST_IS_SET k p PST_RECEIVING \<longrightarrow> \<not> has_flag (flags (proc_table k p)) PF_DELIVER_MSG)"

definition ipc_inv :: "kernel \<Rightarrow> bool" where
  "ipc_inv k \<longleftrightarrow> ipc_graph k \<and> rendezvous k"

text \<open>The fields of a process the invariant reads.\<close>

definition ipc_view :: "proc \<Rightarrow> u32 \<times> endpoint \<times> endpoint \<times> nat option \<times> nat option \<times> endpoint \<times> bool" where
  "ipc_view p = (state p, endpoint p, sendto p, q_sending p, next_sending p, recvfrom p,
     has_flag (flags p) PF_DELIVER_MSG)"

lemma ipc_inv_view:
  assumes "\<And>p. ipc_view (proc_table k' p) = ipc_view (proc_table k p)"
  shows "ipc_inv k' = ipc_inv k"
proof -
  have v: "state (proc_table k' p) = state (proc_table k p)"
      "endpoint (proc_table k' p) = endpoint (proc_table k p)"
      "sendto (proc_table k' p) = sendto (proc_table k p)"
      "q_sending (proc_table k' p) = q_sending (proc_table k p)"
      "next_sending (proc_table k' p) = next_sending (proc_table k p)"
      "recvfrom (proc_table k' p) = recvfrom (proc_table k p)"
      "has_flag (flags (proc_table k' p)) PF_DELIVER_MSG =
       has_flag (flags (proc_table k p)) PF_DELIVER_MSG" for p
    using assms [of p] by (simp_all add: ipc_view_def)
  have ep: "endpt_proc k' = endpt_proc k"
    by (intro ext endpt_proc_cong) (simp add: same_procs_def v)
  have "sends_to k' = sends_to k" by (simp add: sends_to_def PST_IS_SET_def v ep)
  moreover have "sends_live k' = sends_live k"
    by (simp add: sends_live_def resolvable_def PST_IS_SET_def v ep)
  ultimately show ?thesis
    by (simp add: ipc_inv_def ipc_graph_def rendezvous_def squeue_def senders_def free_clean_def
        is_waiting_for_def PST_IS_SET_def v)
qed

lemma ipc_inv_upd_priv [simp]: "ipc_inv (upd_priv i f k) = ipc_inv k"
  by (rule ipc_inv_view) simp

lemma ipc_inv_uasync [simp]: "ipc_inv (k\<lparr>uasync := m\<rparr>) = ipc_inv k"
  by (rule ipc_inv_view) simp

lemma ipc_inv_upd_proc:
  "ipc_view (f (proc_table k p)) = ipc_view (proc_table k p) \<Longrightarrow> ipc_inv (upd_proc p f k) = ipc_inv k"
  by (rule ipc_inv_view) simp

lemma ipc_invD:
  assumes "ipc_inv k"
  shows "sends_live k" "acyclic (sends_to k)" "free_clean k" "rendezvous k" "\<exists>qs. squeue k d qs"
  using assms by (auto simp: ipc_inv_def ipc_graph_def)

lemma squeue_length: "sends_live k \<Longrightarrow> squeue k d qs \<Longrightarrow> length qs \<le> NR_SLOTS"
proof -
  assume live: "sends_live k" and q: "squeue k d qs"
  then have "set qs \<subseteq> {..<NR_SLOTS}"
    using sends_to_bound [OF live] by (auto simp: squeue_def senders_def)
  then have "card (set qs) \<le> NR_SLOTS" using card_mono [of "{..<NR_SLOTS}" "set qs"] by simp
  with q show ?thesis by (metis squeue_def distinct_card)
qed

text \<open>
  How the endpoints resolve does not change when a live process gets or loses state bits other
  than \<open>PST_FREE_SLOT\<close>.
\<close>

lemma same_procs_state:
  assumes "free_clean k" and "\<And>p. endpoint (proc_table k' p) = endpoint (proc_table k p)"
    and "\<And>p. state (proc_table k' p) = state (proc_table k p) \<or>
      \<not> PST_IS_SET k p PST_FREE_SLOT \<and> \<not> PST_IS_SET k' p PST_FREE_SLOT"
  shows "same_procs k k'" and "free_clean k'"
proof -
  have "state (proc_table k p) = PST_FREE_SLOT \<Longrightarrow> PST_IS_SET k p PST_FREE_SLOT" for k p
    by (simp add: PST_IS_SET_def has_flag_def)
  with assms(2,3) show "same_procs k k'" unfolding same_procs_def by metis
  show "free_clean k'" using assms(1,3) unfolding free_clean_def PST_IS_SET_def by metis
qed

lemma not_free: "free_clean k \<Longrightarrow> state (proc_table k p) \<noteq> PST_FREE_SLOT \<Longrightarrow> \<not> PST_IS_SET k p PST_FREE_SLOT"
  by (auto simp: free_clean_def)

lemma resolvable_not_free: "resolvable k p \<Longrightarrow> state (proc_table k p) \<noteq> PST_FREE_SLOT"
  unfolding resolvable_def by (auto elim: endpt_proc_cases)

lemma sending_not_free:
  "sends_live k \<Longrightarrow> PST_IS_SET k p PST_SENDING \<Longrightarrow> state (proc_table k p) \<noteq> PST_FREE_SLOT"
  using resolvable_not_free by (auto simp: sends_live_def)

lemma receiving_not_free:
  "PST_IS_SET k p PST_RECEIVING \<Longrightarrow> state (proc_table k p) \<noteq> PST_FREE_SLOT"
  by (auto simp: PST_IS_SET_def has_flag_def)

section \<open>Delivering\<close>

lemma deliver_to_table:
  "proc_table (deliver_to d m k) = (proc_table k)(d := (proc_table k d)
     \<lparr>deliver_msg := m, state := state (proc_table k d) AND NOT PST_RECEIVING,
      flags := (flags (proc_table k d) OR PF_DELIVER_MSG) AND NOT PF_RECV_ASYNC\<rparr>)"
  by (cases "proc_table k d") (simp add: deliver_to_def Let_def)

lemma deliver_to_other [simp]:
  "priv_table (deliver_to d m k) = priv_table k" "uasync (deliver_to d m k) = uasync k"
  "umsg (deliver_to d m k) = umsg k" "uwr (deliver_to d m k) = uwr k"
  "jiffies (deliver_to d m k) = jiffies k"
  "umw (deliver_to d m k) = umw k"
  "mmrequest (deliver_to d m k) = mmrequest k"
  "timer_list (deliver_to d m k) = timer_list k"
  "next_timeout (deliver_to d m k) = next_timeout k"
  "proc_ptr (deliver_to d m k) = proc_ptr k"
  "fpu_owner (deliver_to d m k) = fpu_owner k"
  "idle_ticks (deliver_to d m k) = idle_ticks k"
  by (simp_all add: deliver_to_def Let_def)

lemma deliver_to_fields [simp]:
  "endpoint (proc_table (deliver_to d m k) p) = endpoint (proc_table k p)"
  "sendto (proc_table (deliver_to d m k) p) = sendto (proc_table k p)"
  "q_sending (proc_table (deliver_to d m k) p) = q_sending (proc_table k p)"
  "next_sending (proc_table (deliver_to d m k) p) = next_sending (proc_table k p)"
  "recvfrom (proc_table (deliver_to d m k) p) = recvfrom (proc_table k p)"
  "send_msg (proc_table (deliver_to d m k) p) = send_msg (proc_table k p)"
  "priv_ix (proc_table (deliver_to d m k) p) = priv_ix (proc_table k p)"
  by (simp_all add: deliver_to_table)

lemma deliver_to_inv:
  assumes inv: "ipc_inv k" and d: "state (proc_table k d) \<noteq> PST_FREE_SLOT"
  shows "ipc_inv (deliver_to d m k)"
proof -
  let ?k = "deliver_to d m k"
  note I = ipc_invD [OF inv]
  have st: "PST_IS_SET ?k p PST_SENDING = PST_IS_SET k p PST_SENDING"
      "PST_IS_SET ?k p PST_RECEIVING \<longleftrightarrow> p \<noteq> d \<and> PST_IS_SET k p PST_RECEIVING" for p
    by (simp_all add: PST_IS_SET_def deliver_to_table flag_simps)
  have fl: "p \<noteq> d \<Longrightarrow> flags (proc_table ?k p) = flags (proc_table k p)" for p
    by (simp add: deliver_to_table)
  have sp: "same_procs k ?k" and fc: "free_clean ?k"
    using not_free [OF I(3) d] same_procs_state [OF I(3), of ?k]
    by (auto simp: PST_IS_SET_def deliver_to_table flag_simps)
  have ep: "endpt_proc ?k = endpt_proc k" by (intro ext endpt_proc_cong sp)
  have st2: "sends_to ?k = sends_to k" by (simp add: sends_to_def st ep)
  have "resolvable ?k p = resolvable k p" for p by (simp add: resolvable_def ep)
  then have "sends_live ?k" using I(1) by (simp add: sends_live_def st)
  moreover have "squeue ?k p qs = squeue k p qs" for p qs
    by (simp add: squeue_def senders_def st2)
  moreover have "is_waiting_for ?k p x \<longleftrightarrow> p \<noteq> d \<and> is_waiting_for k p x" for p x
    by (auto simp: is_waiting_for_def st)
  ultimately show ?thesis
    using I fc by (auto simp: ipc_inv_def ipc_graph_def rendezvous_def st2 st fl)
qed

section \<open>Blocking a sender\<close>

lemma append_sending_eq:
  assumes "qpath (nxt k) (q_sending (proc_table k d)) qs" and "length qs \<le> NR_SLOTS"
  shows "append_sending p d k = Inr (upd_proc p (next_sending_update (\<lambda>_. None))
    (if qs = [] then upd_proc d (q_sending_update (\<lambda>_. Some p)) k
     else upd_proc (last qs) (next_sending_update (\<lambda>_. Some p)) k))"
proof (cases qs)
  case Nil
  with assms show ?thesis by (simp add: append_sending_def)
next
  case (Cons a as)
  with assms(1) have "qpath (nxt k) (Some a) qs" "q_sending (proc_table k d) = Some a" by simp_all
  with Cons last_sending_ok [of k a qs NR_SLOTS] assms(2) show ?thesis by (simp add: append_sending_def)
qed

text \<open>The state after a sender was blocked and queued.\<close>

definition blocked_sender :: "nat \<Rightarrow> nat \<Rightarrow> endpoint \<Rightarrow> message \<Rightarrow> kernel \<Rightarrow> kernel \<Rightarrow> bool" where
  "blocked_sender p d dest msg k k' \<longleftrightarrow>
     append_sending p d
       (upd_proc p (send_msg_update (\<lambda>_. msg)) (upd_proc p (sendto_update (\<lambda>_. dest)) (PST_SET p PST_SENDING k)))
     = Inr k'"

lemma blocked_sender_fields:
  assumes "blocked_sender p d dest msg k k'" and "squeue k d qs" and "sends_live k" and "p \<notin> set qs"
  shows "state (proc_table k' x) = (if x = p then state (proc_table k x) OR PST_SENDING else state (proc_table k x))"
    and "endpoint (proc_table k' x) = endpoint (proc_table k x)"
    and "sendto (proc_table k' x) = (if x = p then dest else sendto (proc_table k x))"
    and "send_msg (proc_table k' x) = (if x = p then msg else send_msg (proc_table k x))"
    and "recvfrom (proc_table k' x) = recvfrom (proc_table k x)"
    and "flags (proc_table k' x) = flags (proc_table k x)"
    and "qpath (nxt k') (q_sending (proc_table k' d)) (qs @ [p])"
    and "x \<noteq> d \<Longrightarrow> q_sending (proc_table k' x) = q_sending (proc_table k x)"
    and "x \<notin> set qs \<Longrightarrow> x \<noteq> p \<Longrightarrow> nxt k' x = nxt k x"
proof -
  let ?k1 = "upd_proc p (send_msg_update (\<lambda>_. msg)) (upd_proc p (sendto_update (\<lambda>_. dest)) (PST_SET p PST_SENDING k))"
  have n1: "nxt ?k1 = nxt k" and q1: "q_sending (proc_table ?k1 x) = q_sending (proc_table k x)" for x
    by (auto simp: fun_eq_iff)
  have qp: "qpath (nxt k) (q_sending (proc_table k d)) qs" "distinct qs"
    using assms(2) by (simp_all add: squeue_def)
  define k1 where "k1 = ?k1"
  define l where "l = last qs"
  have l: "qs \<noteq> [] \<Longrightarrow> l \<in> set qs" by (simp add: l_def)
  have fl: "qpath (nxt k1) (q_sending (proc_table k1 d)) qs" unfolding k1_def n1 q1 by (rule qp(1))
  have "append_sending p d k1 = Inr k'" using assms(1) by (simp only: blocked_sender_def k1_def)
  then have k': "k' = upd_proc p (next_sending_update (\<lambda>_. None))
      (if qs = [] then upd_proc d (q_sending_update (\<lambda>_. Some p)) k1
       else upd_proc l (next_sending_update (\<lambda>_. Some p)) k1)"
    unfolding l_def append_sending_eq [OF fl squeue_length [OF assms(3,2)], of p] sum.inject by (rule sym)
  have k1: "proc_table k1 x = (if x = p then (proc_table k p)\<lparr>state := state (proc_table k p) OR PST_SENDING,
      sendto := dest, send_msg := msg\<rparr> else proc_table k x)" for x
    unfolding k1_def by (cases "proc_table k p") simp
  have tab: "proc_table k' x = (if x = p then next_sending_update (\<lambda>_. None) else id)
      ((if qs = [] \<and> x = d then q_sending_update (\<lambda>_. Some p)
        else if qs \<noteq> [] \<and> x = l then next_sending_update (\<lambda>_. Some p) else id)
       ((if x = p then (\<lambda>r. r\<lparr>state := state r OR PST_SENDING, sendto := dest, send_msg := msg\<rparr>) else id)
        (proc_table k x)))" for x
    unfolding k' by (cases "qs = []"; cases "x = p"; cases "x = d"; cases "x = l") (simp_all add: k1)
  show "state (proc_table k' x) = (if x = p then state (proc_table k x) OR PST_SENDING else state (proc_table k x))"
    "endpoint (proc_table k' x) = endpoint (proc_table k x)"
    "sendto (proc_table k' x) = (if x = p then dest else sendto (proc_table k x))"
    "send_msg (proc_table k' x) = (if x = p then msg else send_msg (proc_table k x))"
    "recvfrom (proc_table k' x) = recvfrom (proc_table k x)"
    "flags (proc_table k' x) = flags (proc_table k x)"
    "x \<noteq> d \<Longrightarrow> q_sending (proc_table k' x) = q_sending (proc_table k x)"
    by (simp_all add: tab)
  show "nxt k' x = nxt k x" if "x \<notin> set qs" "x \<noteq> p"
    using that l by (auto simp: tab)
  show "qpath (nxt k') (q_sending (proc_table k' d)) (qs @ [p])"
  proof (cases "qs = []")
    case False
    have "nxt k' = (nxt k)(l := Some p, p := None)"
      using False by (auto simp: tab fun_eq_iff)
    moreover have "q_sending (proc_table k' d) = q_sending (proc_table k d)"
      using False by (simp add: tab)
    ultimately show ?thesis using qpath_snoc [OF qp(1) False qp(2) assms(4)] by (simp add: l_def)
  qed (simp add: tab)
qed

lemma block_send_inv:
  assumes inv: "ipc_inv k" and q: "squeue k d qs" and p: "resolvable k p" and d: "resolvable k d"
    and np: "\<not> PST_IS_SET k p PST_SENDING" "\<not> PST_IS_SET k p PST_RECEIVING"
    and acyc: "p \<noteq> d" "(d, p) \<notin> (sends_to k)\<^sup>+"
    and nw: "\<not> is_waiting_for k d (endpoint (proc_table k p))"
    and bl: "blocked_sender p d (endpoint (proc_table k d)) msg k k'"
  shows "ipc_inv k' \<and> squeue k' d (qs @ [p]) \<and> same_procs k k'"
proof -
  note I = ipc_invD [OF inv]
  have pq: "x \<in> senders k e \<Longrightarrow> x \<noteq> p" for x e using np(1) by (auto simp: senders_def sends_to_def)
  with q have "p \<notin> set qs" by (auto simp: squeue_def)
  note F = blocked_sender_fields [OF bl q I(1) \<open>p \<notin> set qs\<close>]
  have st: "PST_IS_SET k' x PST_SENDING \<longleftrightarrow> x = p \<or> PST_IS_SET k x PST_SENDING"
      "PST_IS_SET k' x PST_RECEIVING = PST_IS_SET k x PST_RECEIVING" for x
    by (auto simp: PST_IS_SET_def F flag_simps)
  have sp: "same_procs k k'" and fc: "free_clean k'"
    using not_free [OF I(3) resolvable_not_free [OF p]] same_procs_state [OF I(3), of k']
    by (auto simp: PST_IS_SET_def F flag_simps)
  have ep: "endpt_proc k' = endpt_proc k" by (intro ext endpt_proc_cong sp)
  have res: "resolvable k' x = resolvable k x" for x by (simp add: resolvable_def ep F)
  have d_ep: "endpt_proc k (endpoint (proc_table k d)) = Some d" using d by (simp add: resolvable_def)
  have edges: "sends_to k' = insert (p, d) (sends_to k)"
    using np(1) d_ep by (auto simp: sends_to_def st ep F split: if_splits)
  have "sends_live k'" using I(1) p d by (auto simp: sends_live_def st res F)
  moreover have "acyclic (sends_to k')"
    using I(2) acyc by (simp add: edges acyclic_insert rtrancl_eq_or_trancl)
  moreover have sq_d: "squeue k' d (qs @ [p])"
    using F(7) q \<open>p \<notin> set qs\<close> by (auto simp: squeue_def senders_def edges)
  moreover have "\<exists>qs. squeue k' e qs" for e
  proof (cases "e = d")
    case that: False
    obtain es where es: "squeue k e es" using I(5) by blast
    have "x \<notin> set qs \<and> x \<noteq> p" if "x \<in> set es" for x
      using that es q \<open>e \<noteq> d\<close> pq by (auto simp: squeue_def senders_def dest: sends_to_single)
    then have "qpath (nxt k') (q_sending (proc_table k' e)) es"
      using es F(8) [OF that] qpath_cong [of es "nxt k'" "nxt k"] F(9) by (auto simp: squeue_def)
    with es that show ?thesis by (auto simp: squeue_def senders_def edges)
  qed (use sq_d in blast)
  moreover have "is_waiting_for k' e x \<longleftrightarrow> e \<noteq> p \<and> is_waiting_for k e x" for e x
    by (auto simp: is_waiting_for_def st F)
  ultimately show ?thesis
    using I(4) fc nw np(2) sp by (auto simp: ipc_inv_def ipc_graph_def rendezvous_def edges st F)
qed

section \<open>Taking a message from the queue\<close>

definition prev_of :: "nat list \<Rightarrow> nat option" where
  "prev_of xs = (if xs = [] then None else Some (last xs))"

lemma unlink_sending_first:
  assumes "qpath (nxt k) (q_sending (proc_table k r)) (f # ys)" and "f \<notin> set ys"
    and "unlink_sending r f None k = Inr k'"
  shows "proc_table k' x = (if x = f then next_sending_update (\<lambda>_. None) else id)
      ((if x = r then q_sending_update (\<lambda>_. nxt k f) else id) (proc_table k x))"
    and "qpath (nxt k') (q_sending (proc_table k' r)) ys"
proof -
  have q: "q_sending (proc_table k r) = Some f" "qpath (nxt k) (nxt k f) ys" using assms(1) by auto
  then have k': "k' = upd_proc f (next_sending_update (\<lambda>_. None))
      (upd_proc r (q_sending_update (\<lambda>_. nxt k f)) k)"
    using assms(3) by (simp add: unlink_sending_def)
  show tab: "proc_table k' x = (if x = f then next_sending_update (\<lambda>_. None) else id)
      ((if x = r then q_sending_update (\<lambda>_. nxt k f) else id) (proc_table k x))" for x
    unfolding k' by (cases "x = f"; cases "x = r") simp_all
  have "nxt k' = (nxt k)(f := None)" by (auto simp: tab fun_eq_iff)
  moreover have "q_sending (proc_table k' r) = nxt k f" by (simp add: tab)
  ultimately show "qpath (nxt k') (q_sending (proc_table k' r)) ys"
    using q(2) assms(2) by (simp add: qpath_upd_other)
qed

lemma unlink_sending_later:
  assumes "qpath (nxt k) (q_sending (proc_table k r)) (as @ b # f # ys)"
    and "distinct (as @ b # f # ys)" and "unlink_sending r f (Some b) k = Inr k'"
  shows "proc_table k' x = (if x = f then next_sending_update (\<lambda>_. None) else
        if x = b then next_sending_update (\<lambda>_. nxt k f) else id) (proc_table k x)"
    and "qpath (nxt k') (q_sending (proc_table k' r)) (as @ b # ys)"
proof -
  have "q_sending (proc_table k r) = Some (hd (as @ [b]))" using assms(1) by (cases as) auto
  moreover have "hd (as @ [b]) \<noteq> f" using assms(2) by (cases as) auto
  ultimately have k': "k' = upd_proc f (next_sending_update (\<lambda>_. None))
      (upd_proc b (next_sending_update (\<lambda>_. nxt k f)) k)"
    using assms(3) by (auto simp: unlink_sending_def)
  show tab: "proc_table k' x = (if x = f then next_sending_update (\<lambda>_. None) else
        if x = b then next_sending_update (\<lambda>_. nxt k f) else id) (proc_table k x)" for x
    using assms(2) unfolding k' by (cases "x = f"; cases "x = b") simp_all
  have "nxt k' = (nxt k)(b := nxt k f, f := None)" by (auto simp: tab fun_eq_iff)
  moreover have "q_sending (proc_table k' r) = q_sending (proc_table k r)" by (simp add: tab)
  ultimately show "qpath (nxt k') (q_sending (proc_table k' r)) (as @ b # ys)"
    using qpath_unlink [OF assms(1,2)] by simp
qed

text \<open>Both cases together: the queue loses exactly \<open>f\<close>.\<close>

lemma unlink_sending_ok:
  assumes "qpath (nxt k) (q_sending (proc_table k r)) (xs @ f # ys)" and "distinct (xs @ f # ys)"
  obtains k' where "unlink_sending r f (prev_of xs) k = Inr k'"
    and "qpath (nxt k') (q_sending (proc_table k' r)) (xs @ ys)"
    and "\<And>x. x \<noteq> r \<Longrightarrow> q_sending (proc_table k' x) = q_sending (proc_table k x)"
    and "\<And>x. x \<notin> set (xs @ f # ys) \<Longrightarrow> nxt k' x = nxt k x"
    and "\<And>x n q. (proc_table k' x)\<lparr>next_sending := n, q_sending := q\<rparr> =
      (proc_table k x)\<lparr>next_sending := n, q_sending := q\<rparr>"
proof (cases xs rule: rev_cases)
  case Nil
  have "q_sending (proc_table k r) = Some f" using assms(1) Nil by simp
  then obtain k' where k': "unlink_sending r f None k = Inr k'" by (simp add: unlink_sending_def)
  note u = unlink_sending_first [OF _ _ k', of ys]
  have u1: "proc_table k' x = (if x = f then next_sending_update (\<lambda>_. None) else id)
      ((if x = r then q_sending_update (\<lambda>_. nxt k f) else id) (proc_table k x))" for x
    using u(1) assms Nil by simp
  show thesis
  proof (rule that)
    show "unlink_sending r f (prev_of xs) k = Inr k'" using k' Nil by (simp add: prev_of_def)
    show "qpath (nxt k') (q_sending (proc_table k' r)) (xs @ ys)" using u(2) assms Nil by simp
  qed (auto simp: u1 Nil)
next
  case (snoc as b)
  then have q: "qpath (nxt k) (q_sending (proc_table k r)) (as @ b # f # ys)"
      "distinct (as @ b # f # ys)" using assms by simp_all
  have "q_sending (proc_table k r) = Some (hd (as @ [b]))" using q(1) by (cases as) auto
  moreover have "hd (as @ [b]) \<noteq> f" using q(2) by (cases as) auto
  ultimately obtain k' where k': "unlink_sending r f (Some b) k = Inr k'"
    by (auto simp: unlink_sending_def)
  note u = unlink_sending_later [OF q k']
  show thesis
  proof (rule that)
    show "unlink_sending r f (prev_of xs) k = Inr k'" using k' snoc by (simp add: prev_of_def)
    show "qpath (nxt k') (q_sending (proc_table k' r)) (xs @ ys)" using u(2) snoc by simp
  qed (auto simp: u(1) snoc)
qed

text \<open>Equal but for the links: all other fields agree.\<close>

lemma but_links:
  assumes "\<And>n q. a\<lparr>next_sending := n, q_sending := q\<rparr> = b\<lparr>next_sending := n, q_sending := q\<rparr>"
  shows "state a = state b" "endpoint a = endpoint b" "sendto a = sendto b" "send_msg a = send_msg b"
    "recvfrom a = recvfrom b" "flags a = flags b"
proof -
  have "state (a\<lparr>next_sending := None, q_sending := None\<rparr>) = state (b\<lparr>next_sending := None, q_sending := None\<rparr>)"
    "endpoint (a\<lparr>next_sending := None, q_sending := None\<rparr>) = endpoint (b\<lparr>next_sending := None, q_sending := None\<rparr>)"
    "sendto (a\<lparr>next_sending := None, q_sending := None\<rparr>) = sendto (b\<lparr>next_sending := None, q_sending := None\<rparr>)"
    "send_msg (a\<lparr>next_sending := None, q_sending := None\<rparr>) = send_msg (b\<lparr>next_sending := None, q_sending := None\<rparr>)"
    "recvfrom (a\<lparr>next_sending := None, q_sending := None\<rparr>) = recvfrom (b\<lparr>next_sending := None, q_sending := None\<rparr>)"
    "flags (a\<lparr>next_sending := None, q_sending := None\<rparr>) = flags (b\<lparr>next_sending := None, q_sending := None\<rparr>)"
    by (simp_all only: assms)
  then show "state a = state b" "endpoint a = endpoint b" "sendto a = sendto b" "send_msg a = send_msg b"
    "recvfrom a = recvfrom b" "flags a = flags b" by simp_all
qed

lemma take_message_ok:
  assumes "qpath (nxt k) (q_sending (proc_table k r)) (xs @ f # ys)" and "distinct (xs @ f # ys)"
    and "m \<noteq> 0" and "f \<noteq> r"
  obtains k' where "take_message r f (prev_of xs) m k = Inr k'"
    and "qpath (nxt k') (q_sending (proc_table k' r)) (xs @ ys)"
    and "\<And>x. x \<noteq> r \<Longrightarrow> q_sending (proc_table k' x) = q_sending (proc_table k x)"
    and "\<And>x. x \<notin> set (xs @ f # ys) \<Longrightarrow> nxt k' x = nxt k x"
    and "\<And>x. state (proc_table k' x) =
      (if x = f then state (proc_table k f) AND NOT PST_SENDING else state (proc_table k x))"
    and "\<And>x. endpoint (proc_table k' x) = endpoint (proc_table k x)"
    and "\<And>x. recvfrom (proc_table k' x) = recvfrom (proc_table k x)"
    and "\<And>x. sendto (proc_table k' x) = (if x = f then NO_TASK else sendto (proc_table k x))"
    and "\<And>x. flags (proc_table k' x) =
      (if x = r then flags (proc_table k r) OR PF_DELIVER_MSG else flags (proc_table k x))"
    and "deliver_msg (proc_table k' r) = send_msg (proc_table k f)"
    and "recv_msg (proc_table k' r) = m"
proof -
  obtain k1 where k1: "unlink_sending r f (prev_of xs) k = Inr k1"
      "qpath (nxt k1) (q_sending (proc_table k1 r)) (xs @ ys)"
      "\<And>x. x \<noteq> r \<Longrightarrow> q_sending (proc_table k1 x) = q_sending (proc_table k x)"
      "\<And>x. x \<notin> set (xs @ f # ys) \<Longrightarrow> nxt k1 x = nxt k x"
      "\<And>x n q. (proc_table k1 x)\<lparr>next_sending := n, q_sending := q\<rparr> =
        (proc_table k x)\<lparr>next_sending := n, q_sending := q\<rparr>"
    using unlink_sending_ok [OF assms(1,2)] by blast
  note same = but_links [OF k1(5)]
  define k' where "k' = PST_UNSET f PST_SENDING
    (upd_proc f (\<lambda>s. s\<lparr>send_msg := reset_msg, sendto := NO_TASK\<rparr>)
      (upd_proc r (\<lambda>x. x\<lparr>recv_msg := m, deliver_msg := send_msg (proc_table k1 f),
         flags := flags x OR PF_DELIVER_MSG\<rparr>) k1))"
  have tab: "proc_table k' x = (if x = f then (\<lambda>s. s\<lparr>send_msg := reset_msg, sendto := NO_TASK,
        state := state s AND NOT PST_SENDING\<rparr>) else
      if x = r then (\<lambda>s. s\<lparr>recv_msg := m, deliver_msg := send_msg (proc_table k1 f),
         flags := flags s OR PF_DELIVER_MSG\<rparr>) else id) (proc_table k1 x)" for x
    unfolding k'_def using assms(4) by (cases "proc_table k1 f"; cases "x = f"; cases "x = r") simp_all
  have n: "nxt k' = nxt k1" by (simp add: tab fun_eq_iff)
  have qr: "q_sending (proc_table k' r) = q_sending (proc_table k1 r)" using assms(4) by (simp add: tab)
  show thesis
  proof (rule that)
    show "take_message r f (prev_of xs) m k = Inr k'"
      using k1(1) assms(3) by (simp add: take_message_def k'_def Let_def)
    show "qpath (nxt k') (q_sending (proc_table k' r)) (xs @ ys)"
      using k1(2) qr by (simp add: n)
    show "nxt k' x = nxt k x" if "x \<notin> set (xs @ f # ys)" for x
      using fun_cong [OF n, of x] k1(4) [OF that] by simp
  qed (use assms(4) k1(3) in \<open>auto simp: tab same\<close>)
qed

lemma take_message_inv:
  assumes inv: "ipc_inv k" and q: "squeue k r (xs @ f # ys)" and r: "resolvable k r"
    and nr: "\<not> PST_IS_SET k r PST_SENDING" "\<not> PST_IS_SET k r PST_RECEIVING" and m: "m \<noteq> 0"
  shows "\<exists>k'. take_message r f (prev_of xs) m k = Inr k' \<and> ipc_inv k' \<and> squeue k' r (xs @ ys) \<and>
    deliver_msg (proc_table k' r) = send_msg (proc_table k f) \<and> recv_msg (proc_table k' r) = m \<and>
    has_flag (flags (proc_table k' r)) PF_DELIVER_MSG \<and> \<not> PST_IS_SET k' f PST_SENDING \<and>
    same_procs k k'"
proof -
  note I = ipc_invD [OF inv]
  have f: "(f, r) \<in> sends_to k" using q by (auto simp: squeue_def senders_def)
  then have fs: "PST_IS_SET k f PST_SENDING" by (simp add: sends_to_def)
  with nr have "f \<noteq> r" by auto
  have qp: "qpath (nxt k) (q_sending (proc_table k r)) (xs @ f # ys)" "distinct (xs @ f # ys)"
      "set (xs @ f # ys) = senders k r"
    using q by (simp_all add: squeue_def)
  obtain k' where
    k': "take_message r f (prev_of xs) m k = Inr k'"
      "qpath (nxt k') (q_sending (proc_table k' r)) (xs @ ys)"
      "\<And>x. x \<noteq> r \<Longrightarrow> q_sending (proc_table k' x) = q_sending (proc_table k x)"
      "\<And>x. x \<notin> set (xs @ f # ys) \<Longrightarrow> nxt k' x = nxt k x"
    and F: "\<And>x. state (proc_table k' x) =
        (if x = f then state (proc_table k f) AND NOT PST_SENDING else state (proc_table k x))"
      "\<And>x. endpoint (proc_table k' x) = endpoint (proc_table k x)"
      "\<And>x. recvfrom (proc_table k' x) = recvfrom (proc_table k x)"
      "\<And>x. sendto (proc_table k' x) = (if x = f then NO_TASK else sendto (proc_table k x))"
      "\<And>x. flags (proc_table k' x) =
        (if x = r then flags (proc_table k r) OR PF_DELIVER_MSG else flags (proc_table k x))"
    and dl: "deliver_msg (proc_table k' r) = send_msg (proc_table k f)" "recv_msg (proc_table k' r) = m"
    by (rule take_message_ok [OF qp(1,2) m \<open>f \<noteq> r\<close>], rule that) assumption+
  have st: "PST_IS_SET k' x PST_SENDING \<longleftrightarrow> x \<noteq> f \<and> PST_IS_SET k x PST_SENDING"
      "PST_IS_SET k' x PST_RECEIVING = PST_IS_SET k x PST_RECEIVING" for x
    by (auto simp: PST_IS_SET_def F flag_simps)
  have sp: "same_procs k k'" and fc: "free_clean k'"
    using not_free [OF I(3) sending_not_free [OF I(1) fs]] same_procs_state [OF I(3), of k']
    by (auto simp: PST_IS_SET_def F flag_simps)
  have ep: "endpt_proc k' = endpt_proc k" by (intro ext endpt_proc_cong sp)
  have res: "resolvable k' x = resolvable k x" for x by (simp add: resolvable_def ep F)
  have edges: "sends_to k' = sends_to k - {(f, r)}"
    using f by (auto simp: sends_to_def st ep F)
  have "sends_live k'" using I(1) by (auto simp: sends_live_def st res F)
  moreover have "acyclic (sends_to k')" using I(2) by (auto simp: edges intro: acyclic_subset)
  moreover have sq_r: "squeue k' r (xs @ ys)"
    using k'(2) qp by (auto simp: squeue_def senders_def edges)
  moreover have "\<exists>qs. squeue k' e qs" for e
  proof (cases "e = r")
    case False
    obtain es where es: "squeue k e es" using I(5) by blast
    have "x \<notin> set (xs @ f # ys)" if "x \<in> set es" for x
      using that es qp(3) False by (auto simp: squeue_def senders_def dest: sends_to_single)
    then have "qpath (nxt k') (q_sending (proc_table k' e)) es"
      using es k'(3) [OF False] qpath_cong [of es "nxt k'" "nxt k"] k'(4) by (auto simp: squeue_def)
    with es False show ?thesis by (auto simp: squeue_def senders_def edges)
  qed (use sq_r in blast)
  moreover have "rendezvous k'"
    unfolding rendezvous_def
  proof (intro conjI allI impI)
    fix s e assume se: "(s, e) \<in> sends_to k'"
    show "\<not> is_waiting_for k' e (endpoint (proc_table k' s))"
    proof (cases "e = f")
      case True
      have "recvfrom (proc_table k f) = endpoint (proc_table k r)" if "PST_IS_SET k f PST_RECEIVING"
        using that fs I(4) sends_to_endpoint(3) [OF I(1) f] by (simp add: rendezvous_def)
      moreover have "s \<noteq> r" using se nr(1) st(1) [of s] by (auto simp: sends_to_def)
      moreover have "resolvable k s" using se sends_to_endpoint(1) [OF I(1)] by (auto simp: edges)
      ultimately show ?thesis
        using r resolvable_inj [of k s r] True
        by (auto simp: is_waiting_for_def st F resolvable_def)
    next
      case False
      with se I(4) show ?thesis by (auto simp: edges rendezvous_def is_waiting_for_def st F)
    qed
  qed (use I(4) nr fs in \<open>auto simp: rendezvous_def st F\<close>)
  ultimately show ?thesis
    using fc k'(1) dl sp by (auto simp: ipc_inv_def ipc_graph_def st F flag_simps)
qed

section \<open>Blocking a receiver\<close>

lemma block_receiving_table:
  "proc_table (block_receiving who src m fl k) = (proc_table k)(who := (proc_table k who)
     \<lparr>state := state (proc_table k who) OR PST_RECEIVING,
      flags := flags (proc_table k who) OR (if has_flag fl IPCF_ASYNC then PF_RECV_ASYNC else 0),
      recv_msg := m, recvfrom := src\<rparr>)"
  by (cases "proc_table k who") (simp add: block_receiving_def)

lemma block_receiving_inv:
  assumes inv: "ipc_inv k" and w: "resolvable k who" "\<not> has_flag (flags (proc_table k who)) PF_DELIVER_MSG"
    and ok: "PST_IS_SET k who PST_SENDING \<and> sendto (proc_table k who) = src \<or>
      \<not> PST_IS_SET k who PST_SENDING \<and>
      (\<forall>s. (s, who) \<in> sends_to k \<longrightarrow> src \<noteq> ANY \<and> src \<noteq> endpoint (proc_table k s))"
  shows "ipc_inv (block_receiving who src m fl k)" (is "ipc_inv ?k")
proof -
  note I = ipc_invD [OF inv]
  have st: "PST_IS_SET ?k x PST_SENDING = PST_IS_SET k x PST_SENDING"
      "PST_IS_SET ?k x PST_RECEIVING \<longleftrightarrow> x = who \<or> PST_IS_SET k x PST_RECEIVING" for x
    by (auto simp: PST_IS_SET_def block_receiving_table flag_simps)
  have F: "endpoint (proc_table ?k x) = endpoint (proc_table k x)"
      "sendto (proc_table ?k x) = sendto (proc_table k x)"
      "q_sending (proc_table ?k x) = q_sending (proc_table k x)"
      "next_sending (proc_table ?k x) = next_sending (proc_table k x)"
      "recvfrom (proc_table ?k x) = (if x = who then src else recvfrom (proc_table k x))"
      "has_flag (flags (proc_table ?k x)) PF_DELIVER_MSG = has_flag (flags (proc_table k x)) PF_DELIVER_MSG" for x
    by (auto simp: block_receiving_table flag_simps)
  have sp: "same_procs k ?k" and fc: "free_clean ?k"
    using not_free [OF I(3) resolvable_not_free [OF w(1)]] same_procs_state [OF I(3), of ?k]
    by (auto simp: PST_IS_SET_def block_receiving_table flag_simps)
  have ep: "endpt_proc ?k = endpt_proc k" by (intro ext endpt_proc_cong sp)
  have edges: "sends_to ?k = sends_to k" by (simp add: sends_to_def st ep F)
  have "resolvable ?k p = resolvable k p" for p by (simp add: resolvable_def ep F)
  then have "sends_live ?k" using I(1) by (simp add: sends_live_def st F)
  moreover have "squeue ?k p qs = squeue k p qs" for p qs
    by (simp add: squeue_def senders_def edges F)
  moreover have "rendezvous ?k"
    unfolding rendezvous_def
  proof (intro conjI allI impI)
    fix s e assume "(s, e) \<in> sends_to ?k"
    then have se: "(s, e) \<in> sends_to k" by (simp add: edges)
    then have "\<not> is_waiting_for k e (endpoint (proc_table k s))" using I(4) by (simp add: rendezvous_def)
    then show "\<not> is_waiting_for ?k e (endpoint (proc_table ?k s))"
      using ok se by (cases "e = who") (auto simp: is_waiting_for_def st F)
  qed (use I(4) ok w(2) in \<open>auto simp: rendezvous_def st F\<close>)
  ultimately show ?thesis using I fc by (simp add: ipc_inv_def ipc_graph_def edges)
qed

section \<open>The running process\<close>

text \<open>
  The process that is in the kernel for a system call: it is known by its endpoint, nothing
  blocks it, and \<open>switch_to_user\<close> has delivered any message it had been given.
\<close>

definition running :: "kernel \<Rightarrow> nat \<Rightarrow> bool" where
  "running k p \<longleftrightarrow> resolvable k p \<and> state (proc_table k p) = 0 \<and>
     \<not> has_flag (flags (proc_table k p)) PF_DELIVER_MSG"

lemma runningD:
  assumes "running k p"
  shows "resolvable k p" "\<not> PST_IS_SET k p f" "\<not> has_flag (flags (proc_table k p)) PF_DELIVER_MSG"
    "state (proc_table k p) \<noteq> PST_FREE_SLOT"
  using assms by (simp_all add: running_def PST_IS_SET_def flag_simps)

lemma dest_resolvable:
  assumes "endpt_proc k dest = Some d" and "dest \<noteq> ANY" and "dest \<noteq> NO_TASK"
  shows "resolvable k d" "endpoint (proc_table k d) = dest"
proof -
  show ep: "endpoint (proc_table k d) = dest" using endpt_proc_endpoint [OF assms] .
  show "resolvable k d" using assms by (simp add: resolvable_def ep)
qed

section \<open>Send\<close>

text \<open>The three ways \<open>msg_send\<close> of a running process to a live one goes.\<close>

lemma msg_send_cases:
  assumes inv: "ipc_inv k" and p: "running k p" and dest: "endpt_proc k dest = Some d"
    "dest \<noteq> ANY" "dest \<noteq> NO_TASK" and neq: "d \<noteq> p" and m: "fetch_msg k p m = Some msg" and q: "squeue k d qs"
  defines "msg' \<equiv> msg\<lparr>source := endpoint (proc_table k p)\<rparr>"
  shows "msg_send k p dest m fl =
      (if (d, p) \<in> (sends_to k)\<^sup>+ then Inr (EDEADLK, k)
       else if is_waiting_for k d (endpoint (proc_table k p)) then Inr (0, deliver_to d msg' k)
       else if has_flag fl IPCF_NONBLOCK then Inr (EBUSY, k)
       else bind_res (append_sending p d (upd_proc p (send_msg_update (\<lambda>_. msg'))
         (upd_proc p (sendto_update (\<lambda>_. dest)) (PST_SET p PST_SENDING k)))) (\<lambda>k. Inr (0, k)))"
proof -
  note I = ipc_invD [OF inv]
  have dl: "deadlock k (endpoint (proc_table k p)) dest = Inr ((d, p) \<in> (sends_to k)\<^sup>+)"
    by (rule deadlock_ok [OF I(1,2) runningD(1) [OF p] dest(1)])
  have "is_waiting_for k d x \<Longrightarrow> \<not> has_flag (flags (proc_table k d)) PF_DELIVER_MSG" for x
    using I(4) by (simp add: rendezvous_def is_waiting_for_def)
  moreover have "fetch_msg (upd_proc p (sendto_update (\<lambda>_. dest)) (PST_SET p PST_SENDING k)) p m = Some msg"
    using m by (simp add: fetch_msg_def split: msg_ptr.splits)
  ultimately show ?thesis
    using m by (simp add: msg_send_def dest(1) dl msg'_def Let_def cong: if_cong)
qed

lemma msg_send_ok:
  assumes inv: "ipc_inv k" and p: "running k p" and dest: "endpt_proc k dest = Some d"
    "dest \<noteq> ANY" "dest \<noteq> NO_TASK" and neq: "d \<noteq> p" and m: "fetch_msg k p m = Some msg" and q: "squeue k d qs"
  defines "msg' \<equiv> msg\<lparr>source := endpoint (proc_table k p)\<rparr>"
  obtains (deadlock) "(d, p) \<in> (sends_to k)\<^sup>+" "msg_send k p dest m fl = Inr (EDEADLK, k)"
  | (delivered) "(d, p) \<notin> (sends_to k)\<^sup>+" "is_waiting_for k d (endpoint (proc_table k p))"
      "msg_send k p dest m fl = Inr (0, deliver_to d msg' k)"
      "ipc_inv (deliver_to d msg' k)"
  | (busy) "(d, p) \<notin> (sends_to k)\<^sup>+" "\<not> is_waiting_for k d (endpoint (proc_table k p))"
      "has_flag fl IPCF_NONBLOCK" "msg_send k p dest m fl = Inr (EBUSY, k)"
  | (queued) k' where "(d, p) \<notin> (sends_to k)\<^sup>+" "\<not> is_waiting_for k d (endpoint (proc_table k p))"
      "\<not> has_flag fl IPCF_NONBLOCK" "msg_send k p dest m fl = Inr (0, k')"
      "ipc_inv k'" "squeue k' d (qs @ [p])" "blocked_sender p d dest msg' k k'" "same_procs k k'"
proof -
  note I = ipc_invD [OF inv]
  note R = runningD [OF p]
  note D = dest_resolvable [OF dest]
  note S = msg_send_cases [OF inv p dest neq m q, of fl, folded msg'_def]
  let ?w = "is_waiting_for k d (endpoint (proc_table k p))"
  consider "(d, p) \<in> (sends_to k)\<^sup>+" | "(d, p) \<notin> (sends_to k)\<^sup>+" "?w"
    | "(d, p) \<notin> (sends_to k)\<^sup>+" "\<not> ?w" "has_flag fl IPCF_NONBLOCK"
    | "(d, p) \<notin> (sends_to k)\<^sup>+" "\<not> ?w" "\<not> has_flag fl IPCF_NONBLOCK"
    by blast
  then show thesis
  proof cases
    case 1
    then show thesis using deadlock S by simp
  next
    case 2
    then show thesis
      using delivered S deliver_to_inv [OF inv resolvable_not_free [OF D(1)]] by simp
  next
    case 3
    then show thesis using busy S by simp
  next
    case 4
    define k1 where "k1 = upd_proc p (send_msg_update (\<lambda>_. msg'))
      (upd_proc p (sendto_update (\<lambda>_. dest)) (PST_SET p PST_SENDING k))"
    have "nxt k1 = nxt k" and "q_sending (proc_table k1 d) = q_sending (proc_table k d)"
      unfolding k1_def by (auto simp: fun_eq_iff)
    then have "qpath (nxt k1) (q_sending (proc_table k1 d)) qs" using q by (simp add: squeue_def)
    from append_sending_eq [OF this squeue_length [OF I(1) q], of p]
    obtain k' where k': "append_sending p d k1 = Inr k'" by blast
    then have bl: "blocked_sender p d dest msg' k k'" by (simp only: blocked_sender_def k1_def)
    have "ipc_inv k' \<and> squeue k' d (qs @ [p]) \<and> same_procs k k'"
      using block_send_inv [OF inv q R(1) D(1) R(2) R(2) neq [symmetric] 4(1,2)] bl D(2) by simp
    moreover have "msg_send k p dest m fl = Inr (0, k')"
      using S 4 k' by (simp add: k1_def)
    ultimately show thesis using queued 4 bl by blast
  qed
qed

end
