(* ===== verification/Ipc_Steps.thy ===== *)
theory Ipc_Steps
  imports Ipc_Inv
begin

text \<open>
  Message passing as the running process sees it: in a well-formed kernel every message
  operation returns, without a fault, and leaves a well-formed kernel; what reaches whom, and
  in which order.
\<close>

unbundle bit_operations_syntax

section \<open>Well-formed privilege structures\<close>

definition live :: "kernel \<Rightarrow> nat \<Rightarrow> bool" where
  "live k p \<longleftrightarrow> state (proc_table k p) \<noteq> PST_FREE_SLOT \<or> p = proc_addr INTERRUPT"

definition has_owner :: "kernel \<Rightarrow> nat \<Rightarrow> bool" where
  "has_owner k i \<longleftrightarrow> (\<exists>s. priv_proc k i = Inr s \<and> live k s)"

text \<open>
  Every live process has a privilege structure that knows its index, every structure a live
  process uses or a pending bit names belongs to a live process, and the bitmaps have a bit
  for every structure.
\<close>

definition privs_ok :: "kernel \<Rightarrow> bool" where
  "privs_ok k \<longleftrightarrow>
     (\<forall>p. live k p \<longrightarrow> (\<exists>i<NR_PRIV_PROCS. priv_ix (proc_table k p) = Some i \<and>
        pr_id (priv_table k i) = i \<and> has_owner k i)) \<and>
     (\<forall>i<NR_PRIV_PROCS. length (notify_pending (priv_table k i)) = 1 \<and>
        length (async_pending (priv_table k i)) = 1 \<and>
        (\<forall>j<NR_PRIV_PROCS. GET_BIT (notify_pending (priv_table k i)) j \<or>
           GET_BIT (async_pending (priv_table k i)) j \<longrightarrow> has_owner k j))"

lemma privs_okE:
  assumes "privs_ok k" and "live k p"
  obtains i where "i < NR_PRIV_PROCS" "priv_of k p = Inr i" "priv_ix (proc_table k p) = Some i"
    "pr_id (priv_table k i) = i" "has_owner k i"
  using assms unfolding privs_ok_def priv_of_def by force

lemma pending_bits:
  assumes "privs_ok k" and "i < NR_PRIV_PROCS"
  shows "length (notify_pending (priv_table k i)) = 1" "length (async_pending (priv_table k i)) = 1"
    and "j < NR_PRIV_PROCS \<Longrightarrow> GET_BIT (notify_pending (priv_table k i)) j \<Longrightarrow> has_owner k j"
    and "j < NR_PRIV_PROCS \<Longrightarrow> GET_BIT (async_pending (priv_table k i)) j \<Longrightarrow> has_owner k j"
  using assms by (auto simp: privs_ok_def)

text \<open>A change that only sets pending bits of owned structures keeps them well formed.\<close>

lemma privs_ok_change:
  assumes ok: "privs_ok k" and live: "\<And>p. live k' p = live k p"
    and ix: "\<And>p. priv_ix (proc_table k' p) = priv_ix (proc_table k p)"
    and pv: "\<And>i. pr_id (priv_table k' i) = pr_id (priv_table k i)"
      "\<And>i. proc_nr (priv_table k' i) = proc_nr (priv_table k i)"
      "\<And>i. i < NR_PRIV_PROCS \<Longrightarrow> length (notify_pending (priv_table k' i)) = 1 \<and>
         length (async_pending (priv_table k' i)) = 1"
    and bits: "\<And>i j. i < NR_PRIV_PROCS \<Longrightarrow> j < NR_PRIV_PROCS \<Longrightarrow>
        GET_BIT (notify_pending (priv_table k' i)) j \<or> GET_BIT (async_pending (priv_table k' i)) j \<Longrightarrow>
        GET_BIT (notify_pending (priv_table k i)) j \<or> GET_BIT (async_pending (priv_table k i)) j \<or>
        has_owner k j"
  shows "privs_ok k'"
proof -
  have ow: "has_owner k' j = has_owner k j" for j
    by (simp add: has_owner_def priv_proc_def pv live)
  show ?thesis
    unfolding privs_ok_def
  proof (intro conjI allI impI)
    fix p assume "live k' p"
    then show "\<exists>i<NR_PRIV_PROCS. priv_ix (proc_table k' p) = Some i \<and> pr_id (priv_table k' i) = i \<and> has_owner k' i"
      using ok by (simp add: privs_ok_def live ix pv ow)
  next
    fix i j assume "i < NR_PRIV_PROCS" "j < NR_PRIV_PROCS"
      and "GET_BIT (notify_pending (priv_table k' i)) j \<or> GET_BIT (async_pending (priv_table k' i)) j"
    with bits [of i j] ok show "has_owner k' j" unfolding ow by (auto simp: privs_ok_def)
  qed (use pv(3) in auto)
qed

lemma live_cong: "same_procs k k' \<Longrightarrow> live k' p = live k p"
  by (simp add: live_def same_procs_def)

section \<open>Well-formed kernels\<close>

definition tables_writable :: "kernel \<Rightarrow> bool" where
  "tables_writable k \<longleftrightarrow> (\<forall>s a. uasync k s a \<noteq> None \<longrightarrow> uwr k s a)"

definition kernel_ok :: "kernel \<Rightarrow> nat \<Rightarrow> bool" where
  "kernel_ok k cur \<longleftrightarrow>
     ipc_inv k \<and> privs_ok k \<and> (sched_inv k \<and> none_lost k cur) \<and> tables_writable k"

lemma kernel_okD:
  assumes "kernel_ok k cur"
  shows "ipc_inv k" "privs_ok k" "sched_inv k" "none_lost k cur" "tables_writable k" "free_clean k"
  using assms by (auto simp: kernel_ok_def dest: ipc_invD)

text \<open>A change of privilege structures only.\<close>

lemma kernel_ok_upd_priv:
  assumes ok: "kernel_ok k cur" and f: "\<And>v. pr_id (f v) = pr_id v \<and> proc_nr (f v) = proc_nr v \<and>
      length (notify_pending (f v)) = length (notify_pending v) \<and>
      length (async_pending (f v)) = length (async_pending v)"
    and bits: "\<And>j. i < NR_PRIV_PROCS \<Longrightarrow> j < NR_PRIV_PROCS \<Longrightarrow> GET_BIT (notify_pending (f (priv_table k i))) j \<or>
        GET_BIT (async_pending (f (priv_table k i))) j \<Longrightarrow>
        GET_BIT (notify_pending (priv_table k i)) j \<or> GET_BIT (async_pending (priv_table k i)) j \<or> has_owner k j"
  shows "kernel_ok (upd_priv i f k) cur"
proof -
  note K = kernel_okD [OF ok]
  have "privs_ok (upd_priv i f k)"
    by (rule privs_ok_change [OF K(2)])
      (use f bits pending_bits(1,2) [OF K(2)] in \<open>auto simp: live_def split: if_splits\<close>)
  moreover have "sched_inv (upd_priv i f k)" "none_lost (upd_priv i f k) cur"
    using K(3,4) by (simp_all add: sched_inv_def none_lost_def)
  ultimately show ?thesis using K by (simp add: kernel_ok_def tables_writable_def)
qed

lemma kernel_ok_upd_proc:
  assumes ok: "kernel_ok k cur" and f: "\<And>q. ipc_view (f q) = ipc_view q \<and> priv_ix (f q) = priv_ix q \<and>
      proc_queue (f q) = proc_queue q \<and> sched_wf (f q) = sched_wf q"
  shows "kernel_ok (upd_proc p f k) cur"
proof -
  note K = kernel_okD [OF ok]
  have st: "state (f q) = state q" for q using f [of q] by (simp add: ipc_view_def)
  have "privs_ok (upd_proc p f k)"
    by (rule privs_ok_change [OF K(2)])
      (use f pending_bits(1,2) [OF K(2)] in \<open>auto simp: live_def st\<close>)
  moreover have "sched_inv (upd_proc p f k) \<and> none_lost (upd_proc p f k) cur"
    using K(3,4) f st by (intro sch.inv_frame) auto
  ultimately show ?thesis
    using K f by (simp add: kernel_ok_def tables_writable_def ipc_inv_upd_proc)
qed

lemma kernel_ok_amsg_out:
  assumes "kernel_ok k cur" and "amsg_out k ep a am = Some k'"
  shows "kernel_ok k' cur" "proc_table k' = proc_table k" "priv_table k' = priv_table k"
    "umsg k' = umsg k"
proof -
  obtain s where s: "uasync k s a \<noteq> None" "uwr k s a"
      "k' = k\<lparr>uasync := (uasync k)(s := (uasync k s)(a \<mapsto> am))\<rparr>"
    using assms(2) by (auto simp: amsg_out_def split: option.splits if_splits)
  show eq: "proc_table k' = proc_table k" "priv_table k' = priv_table k" "umsg k' = umsg k"
    by (simp_all add: s(3))
  note K = kernel_okD [OF assms(1)]
  have "privs_ok k'"
    by (rule privs_ok_change [OF K(2)]) (use pending_bits(1,2) [OF K(2)] in \<open>auto simp: live_def eq\<close>)
  moreover have "sched_inv k'" "none_lost k' cur"
    using K(3,4) by (auto simp: s(3) sched_inv_def none_lost_def queues_ok_def in_queue_def)
  moreover have "tables_writable k'" using K(5) s by (auto simp: tables_writable_def)
  ultimately show "kernel_ok k' cur" using K(1) by (simp add: kernel_ok_def s(3))
qed

lemma deliver_to_same:
  assumes "free_clean k" and "state (proc_table k d) \<noteq> PST_FREE_SLOT"
  shows "same_procs k (deliver_to d m k)"
  using not_free [OF assms] same_procs_state [OF assms(1), of "deliver_to d m k"]
  by (auto simp: PST_IS_SET_def deliver_to_table flag_simps)

lemma kernel_ok_deliver:
  assumes ok: "kernel_ok k cur" and d: "state (proc_table k d) \<noteq> PST_FREE_SLOT"
  shows "kernel_ok (deliver_to d m k) cur"
proof -
  note K = kernel_okD [OF ok]
  have "privs_ok (deliver_to d m k)"
    by (rule privs_ok_change [OF K(2)])
      (use pending_bits(1,2) [OF K(2)] live_cong [OF deliver_to_same [OF K(6) d]] in auto)
  moreover have "sched_inv (deliver_to d m k) \<and> none_lost (deliver_to d m k) cur"
    unfolding deliver_to_def Let_def using K(3,4)
    by (intro sch.inv_frame sch.inv_unset) (auto simp: proc_queue_def sched_wf_def)
  ultimately show ?thesis
    using K deliver_to_inv [OF K(1) d] by (simp add: kernel_ok_def tables_writable_def)
qed

section \<open>Changes of the process table\<close>

text \<open>
  What all the list and state manipulations leave alone: the privilege structures, user memory
  and the consistency of the run queues.
\<close>

definition proc_change :: "kernel \<Rightarrow> kernel \<Rightarrow> bool" where
  "proc_change k k' \<longleftrightarrow> priv_table k' = priv_table k \<and> umsg k' = umsg k \<and> uasync k' = uasync k \<and> uwr k' = uwr k \<and>
     (\<forall>p. priv_ix (proc_table k' p) = priv_ix (proc_table k p)) \<and>
     (\<forall>cur. sched_inv k \<and> none_lost k cur \<longrightarrow> sched_inv k' \<and> none_lost k' cur)"

lemma proc_change_refl [simp]: "proc_change k k"
  by (simp add: proc_change_def)

lemma proc_change_trans [trans]: "proc_change a b \<Longrightarrow> proc_change b c \<Longrightarrow> proc_change a c"
  unfolding proc_change_def by metis

lemma proc_change_upd:
  assumes "\<And>q. state (f q) = state q \<and> priv_ix (f q) = priv_ix q \<and> proc_queue (f q) = proc_queue q \<and>
    sched_wf (f q) = sched_wf q"
  shows "proc_change k (upd_proc p f k)"
  unfolding proc_change_def using assms by (auto intro!: sch.inv_frame [THEN conjunct1] sch.inv_frame [THEN conjunct2])

lemma proc_change_SET: "proc_change k (PST_SET p f k)"
  unfolding proc_change_def using sch.inv_set [of k _ p f] by auto

lemma proc_change_UNSET: "proc_change k (PST_UNSET p f k)"
  unfolding proc_change_def using sch.inv_unset [of k _ p f] by auto

lemmas proc_change_intros =
  proc_change_trans [OF _ proc_change_upd] proc_change_trans [OF _ proc_change_SET]
  proc_change_trans [OF _ proc_change_UNSET] proc_change_upd proc_change_SET proc_change_UNSET

lemma append_sending_change:
  assumes "append_sending p d k = Inr k'"
  shows "proc_change k k'"
  using assms unfolding append_sending_def bind_res_Inr_conv
  by (auto split: option.splits simp: bind_res_Inr_conv proc_queue_def sched_wf_def
      intro!: proc_change_intros)

lemma blocked_sender_change: "blocked_sender p d dest msg k k' \<Longrightarrow> proc_change k k'"
  unfolding blocked_sender_def
  by (drule append_sending_change, rule proc_change_trans)
    (auto simp: proc_queue_def sched_wf_def intro!: proc_change_intros)

lemma unlink_sending_change:
  assumes "unlink_sending r f prev k = Inr k'"
  shows "proc_change k k'"
  using assms unfolding unlink_sending_def bind_res_Inr_conv
  by (auto split: option.splits if_splits simp: proc_queue_def sched_wf_def intro!: proc_change_intros)

lemma take_message_change:
  assumes "take_message r f prev m k = Inr k'"
  shows "proc_change k k'"
proof -
  obtain k1 where k1: "unlink_sending r f prev k = Inr k1"
    using assms by (auto simp: take_message_def bind_res_Inr_conv)
  have "proc_change k1 k'"
    using assms k1 by (auto simp: take_message_def Let_def proc_queue_def sched_wf_def
        intro!: proc_change_intros split: if_splits)
  with unlink_sending_change [OF k1] show ?thesis by (rule proc_change_trans)
qed

lemma block_receiving_change: "proc_change k (block_receiving who src m fl k)"
  unfolding block_receiving_def
  by (rule proc_change_trans [OF proc_change_SET], rule proc_change_upd) (simp add: proc_queue_def sched_wf_def)

lemma kernel_ok_change:
  assumes ok: "kernel_ok k cur" and ch: "proc_change k k'" "same_procs k k'" "ipc_inv k'"
  shows "kernel_ok k' cur"
proof -
  note K = kernel_okD [OF ok]
  have "privs_ok k'"
    by (rule privs_ok_change [OF K(2)])
      (use ch(1) pending_bits(1,2) [OF K(2)] live_cong [OF ch(2)] in \<open>auto simp: proc_change_def\<close>)
  then show ?thesis using K ch by (auto simp: kernel_ok_def proc_change_def tables_writable_def)
qed

section \<open>Notifications\<close>

lemma waiting_not_free: "is_waiting_for k d x \<Longrightarrow> state (proc_table k d) \<noteq> PST_FREE_SLOT"
  by (auto simp: is_waiting_for_def dest: receiving_not_free)

lemma endpt_proc_live: "endpt_proc k ep = Some p \<Longrightarrow> live k p"
  by (erule endpt_proc_cases) (auto simp: live_def proc_addr_def proc_slot_def)

lemma resolvable_live: "resolvable k p \<Longrightarrow> live k p"
  by (auto simp: resolvable_def dest: endpt_proc_live)

lemma set_notify_msg_ok:
  assumes ok: "kernel_ok k cur" and d: "live k d"
  obtains m k' where "set_notify_msg d src k = Inr (m, k')" "kernel_ok k' cur" "proc_table k' = proc_table k"
    "source m = src" "mtype m = NOTIFY_MSG"
    "\<And>i. notify_pending (priv_table k' i) = notify_pending (priv_table k i)"
    "umsg k' = umsg k"
proof -
  obtain i where i: "priv_of k d = Inr i" using privs_okE [OF kernel_okD(2) [OF ok] d] by blast
  have "kernel_ok (upd_priv i (int_pending_update (\<lambda>_. 0)) k) cur"
    "kernel_ok (upd_priv i (psig_pending_update (\<lambda>_. 0)) k) cur"
    by (rule kernel_ok_upd_priv [OF ok]; auto)+
  note oks = ok this
  have "\<exists>m k'. set_notify_msg d src k = Inr (m, k') \<and> source m = src \<and> mtype m = NOTIFY_MSG \<and>
      (k' = k \<or> k' = upd_priv i (int_pending_update (\<lambda>_. 0)) k \<or>
       k' = upd_priv i (psig_pending_update (\<lambda>_. 0)) k)"
    using i by (simp add: set_notify_msg_def Let_def)
  then obtain m k' where mk: "set_notify_msg d src k = Inr (m, k')" "source m = src" "mtype m = NOTIFY_MSG"
    and k': "k' = k \<or> k' = upd_priv i (int_pending_update (\<lambda>_. 0)) k \<or>
      k' = upd_priv i (psig_pending_update (\<lambda>_. 0)) k"
    by blast
  from k' have "kernel_ok k' cur" "proc_table k' = proc_table k" "umsg k' = umsg k"
      "\<And>i. notify_pending (priv_table k' i) = notify_pending (priv_table k i)"
    using oks by auto
  with mk show thesis using that by blast
qed

text \<open>A notification reaches a waiting process at once and is otherwise remembered.\<close>

lemma msg_notify_ok:
  assumes ok: "kernel_ok k cur" and p: "live k p" and d: "endpt_proc k dest = Some d"
  obtains (delivered) m k1 where "is_waiting_for k d (endpoint (proc_table k p))"
      "msg_notify k p dest = Inr (0, deliver_to d m k1)" "proc_table k1 = proc_table k"
      "source m = endpoint (proc_table k p)" "mtype m = NOTIFY_MSG"
      "kernel_ok (deliver_to d m k1) cur"
  | (pending) i j k' where "\<not> is_waiting_for k d (endpoint (proc_table k p))"
      "priv_ix (proc_table k d) = Some i" "priv_ix (proc_table k p) = Some j"
      "k' = upd_priv i (notify_pending_update (\<lambda>m. SET_BIT m j)) k"
      "msg_notify k p dest = Inr (0, k')" "GET_BIT (notify_pending (priv_table k' i)) j" "kernel_ok k' cur"
proof (cases "is_waiting_for k d (endpoint (proc_table k p))")
  case True
  obtain m k1 where k1: "set_notify_msg d (endpoint (proc_table k p)) k = Inr (m, k1)" "kernel_ok k1 cur"
      "proc_table k1 = proc_table k" "source m = endpoint (proc_table k p)" "mtype m = NOTIFY_MSG"
    using set_notify_msg_ok [OF ok endpt_proc_live [OF d]] by metis
  have "msg_notify k p dest = Inr (0, deliver_to d m k1)" using True d k1(1) by (simp add: msg_notify_def)
  moreover have "kernel_ok (deliver_to d m k1) cur"
    using kernel_ok_deliver [OF k1(2)] waiting_not_free [OF True] k1(3) by simp
  ultimately show thesis using delivered True k1 by blast
next
  case False
  note P = kernel_okD(2) [OF ok]
  obtain i where i: "i < NR_PRIV_PROCS" "priv_of k d = Inr i" "priv_ix (proc_table k d) = Some i"
    using privs_okE [OF P endpt_proc_live [OF d]] by metis
  obtain j where j: "j < NR_PRIV_PROCS" "priv_of k p = Inr j" "priv_ix (proc_table k p) = Some j"
      "pr_id (priv_table k j) = j" "has_owner k j"
    using privs_okE [OF P p] by metis
  let ?k = "upd_priv i (notify_pending_update (\<lambda>m. SET_BIT m j)) k"
  have len: "length (notify_pending (priv_table k i)) = 1" using pending_bits(1) [OF P i(1)] .
  have bit: "GET_BIT (SET_BIT (notify_pending (priv_table k i)) j) x \<longleftrightarrow> x = j \<or>
      GET_BIT (notify_pending (priv_table k i)) x" for x
    by (rule bm.member_insert) (use len j(1) in simp)
  have "kernel_ok ?k cur"
    by (rule kernel_ok_upd_priv [OF ok]) (use j(5) in \<open>auto simp: length_SET_BIT bit\<close>)
  moreover have "msg_notify k p dest = Inr (0, ?k)"
    using False d i j by (simp add: msg_notify_def)
  ultimately show thesis using pending [of i j ?k] False i(3) j(3) bit by simp
qed

section \<open>Receive\<close>

lemma find_pending:
  assumes "length m = 1"
  obtains r where "bitmap_find_next_bit m NR_PRIV_PROCS start = Inr r" "next_bit_spec m NR_PRIV_PROCS start r"
  using find_next_bit_ok [of NR_PRIV_PROCS m start] assms by auto

lemma has_pending_notify_ok:
  assumes ok: "kernel_ok k cur" and p: "live k p"
  obtains r where "has_pending_notify k p src = Inr r" "\<And>i. r = Some i \<Longrightarrow> i < NR_PRIV_PROCS \<and> has_owner k i"
proof -
  note P = kernel_okD(2) [OF ok]
  obtain pi where pi: "pi < NR_PRIV_PROCS" "priv_of k p = Inr pi" using privs_okE [OF P p] by metis
  show thesis
  proof (cases "src = ANY")
    case True
    obtain r where r: "bitmap_find_next_bit (notify_pending (priv_table k pi)) NR_PRIV_PROCS 0 = Inr r"
        "next_bit_spec (notify_pending (priv_table k pi)) NR_PRIV_PROCS 0 r"
      using find_pending pending_bits(1) [OF P pi(1)] by blast
    then show thesis
      using True pi pending_bits(3) [OF P pi(1), of r]
      by (intro that [of "if r \<ge> NR_PRIV_PROCS then None else Some r"])
        (auto simp: has_pending_notify_def next_bit_spec_def split: if_splits)
  next
    case False
    show thesis
    proof (cases "endpt_proc k src")
      case None
      with False show thesis by (intro that [of None]) (simp_all add: has_pending_notify_def)
    next
      case (Some s)
      obtain si where si: "si < NR_PRIV_PROCS" "priv_of k s = Inr si" "pr_id (priv_table k si) = si" "has_owner k si"
        using privs_okE [OF P endpt_proc_live [OF Some]] by metis
      with False Some pi show thesis
        by (intro that [of "if GET_BIT (notify_pending (priv_table k pi)) si then Some si else None"])
          (auto simp: has_pending_notify_def split: if_splits)
    qed
  qed
qed

lemma has_pending_async_ok:
  assumes ok: "kernel_ok k cur" and p: "live k p"
  obtains r where "has_pending_async k p src = Inr r" "\<And>i. r = Some i \<Longrightarrow> i < NR_PRIV_PROCS \<and> has_owner k i"
proof -
  note P = kernel_okD(2) [OF ok]
  obtain pi where pi: "pi < NR_PRIV_PROCS" "priv_of k p = Inr pi" using privs_okE [OF P p] by metis
  obtain r where r: "bitmap_find_next_bit (async_pending (priv_table k pi)) NR_PRIV_PROCS 0 = Inr r"
      "next_bit_spec (async_pending (priv_table k pi)) NR_PRIV_PROCS 0 r"
    using find_pending pending_bits(2) [OF P pi(1)] by blast
  show thesis
  proof (cases "src = ANY \<or> r \<ge> NR_PRIV_PROCS \<or> endpt_proc k src = None")
    case True
    with r pi pending_bits(4) [OF P pi(1), of r]
    show thesis
      by (intro that [of "if r \<ge> NR_PRIV_PROCS \<or> src \<noteq> ANY then None else Some r"])
        (auto simp: has_pending_async_def next_bit_spec_def split: if_splits)
  next
    case False
    then obtain s where s: "endpt_proc k src = Some s" by auto
    obtain si where si: "si < NR_PRIV_PROCS" "priv_of k s = Inr si" "pr_id (priv_table k si) = si" "has_owner k si"
      using privs_okE [OF P endpt_proc_live [OF s]] by metis
    with False s pi r show thesis
      by (intro that [of "if GET_BIT (async_pending (priv_table k pi)) si then Some si else None"])
        (auto simp: has_pending_async_def split: if_splits)
  qed
qed

lemma UNSET_pending:
  assumes "length m = 1" and "i < NR_PRIV_PROCS"
  shows "GET_BIT (UNSET_BIT m i) j \<longleftrightarrow> j \<noteq> i \<and> GET_BIT m j"
  using assms by (intro bm.member_remove) simp

lemma SET_pending:
  assumes "length m = 1" and "i < NR_PRIV_PROCS"
  shows "GET_BIT (SET_BIT m i) j \<longleftrightarrow> j = i \<or> GET_BIT m j"
  using assms by (intro bm.member_insert) simp

lemma receive_notify_ok:
  assumes ok: "kernel_ok k cur" and p: "live k p" "state (proc_table k p) \<noteq> PST_FREE_SLOT"
    and i: "i < NR_PRIV_PROCS" "priv_proc k i = Inr n"
  shows "\<exists>k'. receive_notify p i m k = Inr (0, k') \<and> kernel_ok k' cur \<and>
    has_flag (flags (proc_table k' p)) PF_DELIVER_MSG \<and>
    source (deliver_msg (proc_table k' p)) = endpoint (proc_table k n)"
proof -
  obtain msg k1 where k1: "set_notify_msg p (endpoint (proc_table k n)) k = Inr (msg, k1)" "kernel_ok k1 cur"
      "proc_table k1 = proc_table k" "source msg = endpoint (proc_table k n)"
    using set_notify_msg_ok [OF ok p(1)] by metis
  have "live k1 p" using p(1) k1(3) by (simp add: live_def)
  then obtain pi where pi: "pi < NR_PRIV_PROCS" "priv_of k1 p = Inr pi"
    using privs_okE [OF kernel_okD(2) [OF k1(2)]] by metis
  define k2 where "k2 = upd_priv pi (notify_pending_update (\<lambda>m. UNSET_BIT m i)) k1"
  have "kernel_ok k2 cur"
    unfolding k2_def
    by (rule kernel_ok_upd_priv [OF k1(2)])
      (use i pending_bits(1) [OF kernel_okD(2) [OF k1(2)] pi(1)] in
        \<open>auto simp: length_UNSET_BIT UNSET_pending\<close>)
  then have "kernel_ok (upd_proc p (recv_msg_update (\<lambda>_. m)) k2) cur"
    by (rule kernel_ok_upd_proc) (simp add: ipc_view_def proc_queue_def sched_wf_def)
  then have "kernel_ok (deliver_to p msg (upd_proc p (recv_msg_update (\<lambda>_. m)) k2)) cur"
    by (rule kernel_ok_deliver) (use p(2) k1(3) in \<open>simp add: k2_def\<close>)
  moreover have "receive_notify p i m k = Inr (0, deliver_to p msg (upd_proc p (recv_msg_update (\<lambda>_. m)) k2))"
    using i k1(1) pi by (simp add: receive_notify_def unset_notify_pending_def k2_def)
  ultimately show ?thesis using k1(4) by (simp add: deliver_to_table flag_simps)
qed

text \<open>The queue is scanned for the first process with endpoint \<open>src\<close>.\<close>

lemma pick_sender_ok:
  assumes inv: "ipc_inv k" and w: "resolvable k who" and q: "squeue k who qs"
    and src: "endpt_proc k src = Some from" "src \<noteq> ANY" "src \<noteq> NO_TASK"
  obtains (sending) xs ys where "qs = xs @ from # ys" "pick_sender k who src from = Inr (Some (from, prev_of xs))"
  | (idle) "from \<notin> set qs" "pick_sender k who src from = Inr None"
proof (cases "from \<in> set qs")
  case True
  note I = ipc_invD [OF inv]
  from True obtain xs ys where qs: "qs = xs @ from # ys" by (meson split_list)
  have qp: "qpath (nxt k) (q_sending (proc_table k who)) (xs @ from # ys)" "distinct (xs @ from # ys)"
    using q qs by (simp_all add: squeue_def)
  have edge: "(x, who) \<in> sends_to k" if "x \<in> set qs" for x using that q by (auto simp: squeue_def senders_def)
  have ep: "endpoint (proc_table k from) = src" using endpt_proc_endpoint [OF src] .
  have "endpoint (proc_table k x) \<noteq> src" if "x \<in> set xs" for x
    using sends_to_endpoint(1) [OF I(1) edge] resolvable_inj [of k x "from"] that qp(2) qs ep by auto
  moreover have "length xs < NR_SLOTS + 1" using squeue_length [OF I(1) q] qs by simp
  ultimately have "find_sending (NR_SLOTS + 1) k src None (q_sending (proc_table k who)) = Inr (Some from, prev_of xs)"
    using find_sending_ok [OF qp(1)] ep by (simp add: prev_of_def)
  moreover have "q_sending (proc_table k who) \<noteq> None" using qp(1) by (cases xs) auto
  moreover have "sendto (proc_table k from) = endpoint (proc_table k who)" "PST_IS_SET k from PST_SENDING"
    using edge [OF True] sends_to_endpoint(3) [OF I(1) edge [OF True]] by (simp_all add: sends_to_def)
  ultimately show thesis using sending [OF qs] by (simp add: pick_sender_def)
next
  case False
  have "(from, who) \<in> sends_to k" if "PST_IS_SET k from PST_SENDING"
      "sendto (proc_table k from) = endpoint (proc_table k who)"
    using that w by (simp add: sends_to_def resolvable_def)
  with False q have "pick_sender k who src from = Inr None"
    by (auto simp: pick_sender_def squeue_def senders_def)
  with False show thesis by (rule idle)
qed

lemma receive_sync_ok:
  assumes ok: "kernel_ok k cur" and w: "running k who" and q: "squeue k who qs" and m: "m \<noteq> 0"
    and src: "src = ANY \<or> endpt_proc k src \<noteq> None" "src \<noteq> NO_TASK"
  obtains (taken) xs f ys k' where "qs = xs @ f # ys" "src = ANY \<Longrightarrow> xs = []"
      "src \<noteq> ANY \<Longrightarrow> endpoint (proc_table k f) = src"
      "receive_sync who src m fl ret k = Inr (ret, k')" "kernel_ok k' cur" "squeue k' who (xs @ ys)"
      "deliver_msg (proc_table k' who) = send_msg (proc_table k f)"
      "has_flag (flags (proc_table k' who)) PF_DELIVER_MSG" "\<not> PST_IS_SET k' f PST_SENDING"
  | (blocked) "\<And>s. s \<in> set qs \<Longrightarrow> src \<noteq> ANY \<and> src \<noteq> endpoint (proc_table k s)"
      "receive_sync who src m fl ret k = Inr (ret, block_receiving who src m fl k)"
      "kernel_ok (block_receiving who src m fl k) cur"
proof -
  note inv = kernel_okD(1) [OF ok]
  note I = ipc_invD [OF inv]
  note R = runningD [OF w]
  have edge: "x \<in> set qs \<longleftrightarrow> (x, who) \<in> sends_to k" for x using q by (auto simp: squeue_def senders_def)
  have bl: "kernel_ok (block_receiving who src m fl k) cur"
    if "\<And>s. s \<in> set qs \<Longrightarrow> src \<noteq> ANY \<and> src \<noteq> endpoint (proc_table k s)"
  proof (rule kernel_ok_change [OF ok block_receiving_change])
    show "same_procs k (block_receiving who src m fl k)"
      using not_free [OF I(3) R(4)] same_procs_state [OF I(3), of "block_receiving who src m fl k"]
      by (auto simp: PST_IS_SET_def block_receiving_table flag_simps)
    show "ipc_inv (block_receiving who src m fl k)"
      using block_receiving_inv [OF inv R(1,3)] R(2) that edge by blast
  qed
  have tk: "\<exists>k'. take_message who f (prev_of xs) m k = Inr k' \<and> kernel_ok k' cur \<and> squeue k' who (xs @ ys) \<and>
      deliver_msg (proc_table k' who) = send_msg (proc_table k f) \<and>
      has_flag (flags (proc_table k' who)) PF_DELIVER_MSG \<and> \<not> PST_IS_SET k' f PST_SENDING"
    if "qs = xs @ f # ys" for xs f ys
    using take_message_inv [OF inv _ R(1) R(2) R(2) m, of xs f ys] q that
      kernel_ok_change [OF ok take_message_change] by blast
  show thesis
  proof (cases "src = ANY")
    case True
    show thesis
    proof (cases qs)
      case Nil
      then have "q_sending (proc_table k who) = None" using q by (simp add: squeue_def)
      with True bl Nil show thesis by (intro blocked) (simp_all add: receive_sync_def)
    next
      case (Cons f ys)
      then have "q_sending (proc_table k who) = Some f" using q by (simp add: squeue_def)
      then have rs: "receive_sync who src m fl ret k =
          bind_res (take_message who f (prev_of []) m k) (\<lambda>k. Inr (ret, k))"
        using True by (simp add: receive_sync_def prev_of_def)
      obtain k' where "take_message who f (prev_of []) m k = Inr k'" "kernel_ok k' cur" "squeue k' who ([] @ ys)"
          "deliver_msg (proc_table k' who) = send_msg (proc_table k f)"
          "has_flag (flags (proc_table k' who)) PF_DELIVER_MSG" "\<not> PST_IS_SET k' f PST_SENDING"
        using tk [of "[]" f ys] Cons by auto
      with True Cons rs show thesis by (intro taken [of "[]" f ys k']) simp_all
    qed
  next
    case False
    with src obtain s where s: "endpt_proc k src = Some s" by auto
    note ep = endpt_proc_endpoint [OF s False src(2)]
    from inv R(1) q s False src(2) show thesis
    proof (cases rule: pick_sender_ok)
      case (sending xs ys)
      then have rs: "receive_sync who src m fl ret k =
          bind_res (take_message who s (prev_of xs) m k) (\<lambda>k. Inr (ret, k))"
        using False s by (simp add: receive_sync_def)
      obtain k' where "take_message who s (prev_of xs) m k = Inr k'" "kernel_ok k' cur" "squeue k' who (xs @ ys)"
          "deliver_msg (proc_table k' who) = send_msg (proc_table k s)"
          "has_flag (flags (proc_table k' who)) PF_DELIVER_MSG" "\<not> PST_IS_SET k' s PST_SENDING"
        using tk [OF sending(1)] by auto
      with False sending(1) rs ep show thesis by (intro taken [of xs s ys k']) simp_all
    next
      case idle
      have "src \<noteq> endpoint (proc_table k x)" if "x \<in> set qs" for x
      proof
        assume "src = endpoint (proc_table k x)"
        moreover have "resolvable k x" using that edge sends_to_endpoint(1) [OF I(1)] by blast
        ultimately have "x = s" using s by (simp add: resolvable_def)
        with that idle(1) show False by simp
      qed
      moreover have "receive_sync who src m fl ret k = Inr (ret, block_receiving who src m fl k)"
        using False s idle(2) by (simp add: receive_sync_def)
      ultimately show thesis using blocked bl False by blast
    qed
  qed
qed

section \<open>Asynchronous messages\<close>

lemma amsg_out_after_in:
  assumes "tables_writable k" and "amsg_in k ep a = Some am" and "endpt_proc k' ep = endpt_proc k ep"
    and "uasync k' = uasync k" "uwr k' = uwr k"
  shows "\<exists>k2. amsg_out k' ep a am' = Some k2"
  using assms by (auto simp: amsg_in_def amsg_out_def tables_writable_def split: option.splits)

text \<open>The scan delivers one message or changes nothing.\<close>

lemma receive_async_scan_ok:
  assumes ok: "kernel_ok k cur" and p: "state (proc_table k p) \<noteq> PST_FREE_SLOT"
  shows "(\<exists>ret dn. receive_async_scan n i p s si d k = (ret, dn, k) \<and> ret \<noteq> 0) \<or>
    (\<exists>k'. receive_async_scan n i p s si d k = (0, Some False, k') \<and> kernel_ok k' cur \<and>
      priv_table k' = priv_table k \<and> has_flag (flags (proc_table k' p)) PF_DELIVER_MSG \<and>
      source (deliver_msg (proc_table k' p)) = endpoint (proc_table k s) \<and> same_procs k k')"
proof (induction n arbitrary: i d)
  case (Suc n)
  let ?ep = "endpoint (proc_table k s)" and ?a = "async_table (priv_table k si) + i"
  show ?case
  proof (cases "amsg_in k ?ep ?a")
    case None
    then show ?thesis by (simp add: Let_def)
  next
    case (Some am)
    let ?amsg = "am\<lparr>am_msg := (am_msg am)\<lparr>source := ?ep\<rparr>\<rparr>"
    show ?thesis
    proof (cases "am_flags am = 0 \<or> has_flag (am_flags am) ASMF_DONE \<or> am_dest am \<noteq> endpoint (proc_table k p)")
      case True
      then have "receive_async_scan (Suc n) i p s si d k = receive_async_scan n (i + 1) p s si
          (if am_flags am = 0 \<or> has_flag (am_flags am) ASMF_DONE then d else False) k"
        using Some by (auto simp: Let_def)
      then show ?thesis using Suc.IH [of "i + 1"] by presburger
    next
      case False
      let ?k = "deliver_to p (am_msg ?amsg) k"
      have sp: "same_procs k ?k" by (rule deliver_to_same [OF kernel_okD(6) [OF ok] p])
      obtain k2 where k2: "amsg_out ?k ?ep ?a (?amsg\<lparr>am_result := 0, am_flags := am_flags ?amsg OR ASMF_DONE\<rparr>) = Some k2"
        using amsg_out_after_in [OF kernel_okD(5) [OF ok] Some, of ?k] endpt_proc_cong [OF sp] by auto
      note K = kernel_ok_amsg_out [OF kernel_ok_deliver [OF ok p] k2]
      moreover have "same_procs k k2" using sp by (simp add: same_procs_def K(2))
      ultimately show ?thesis using False Some k2 by (simp add: Let_def deliver_to_table flag_simps)
    qed
  qed
qed simp

lemma running_cong: "proc_table k' = proc_table k \<Longrightarrow> running k' p = running k p"
  using endpt_proc_cong [of k k'] by (simp add: running_def resolvable_def same_procs_def)

lemma live_table_cong: "proc_table k' = proc_table k \<Longrightarrow> live k' p = live k p"
  by (simp add: live_def)

lemma receive_async_from_ok:
  assumes ok: "kernel_ok k cur" and p: "running k p" and s: "live k s"
  shows "\<exists>ret k'. receive_async_from p s k = Inr (ret, k') \<and> kernel_ok k' cur \<and>
    (ret \<noteq> 0 \<longrightarrow> proc_table k' = proc_table k)"
proof -
  note P = kernel_okD(2) [OF ok]
  obtain si where si: "si < NR_PRIV_PROCS" "priv_of k s = Inr si" "pr_id (priv_table k si) = si" "has_owner k si"
    using privs_okE [OF P s] by metis
  obtain pi where pi: "pi < NR_PRIV_PROCS" "priv_of k p = Inr pi"
    using privs_okE [OF P resolvable_live [OF runningD(1) [OF p]]] by metis
  show ?thesis
  proof (cases "has_flag (prflags (priv_table k si)) PRF_PRIV_PROC")
    case False
    with si ok show ?thesis by (simp add: receive_async_from_def)
  next
    case True
    define k1 where "k1 = upd_priv pi (async_pending_update (\<lambda>m. UNSET_BIT m si)) k"
    have k1: "kernel_ok k1 cur"
      unfolding k1_def
      by (rule kernel_ok_upd_priv [OF ok])
        (use si(1) pending_bits(2) [OF P pi(1)] in \<open>auto simp: length_UNSET_BIT UNSET_pending\<close>)
    obtain ret dn k2 where scan: "receive_async_scan (async_len (priv_table k1 si)) 0 p s si True k1 = (ret, dn, k2)"
      by (cases "receive_async_scan (async_len (priv_table k1 si)) 0 p s si True k1")
    have k2: "kernel_ok k2 cur" "priv_table k2 = priv_table k1" "ret \<noteq> 0 \<Longrightarrow> proc_table k2 = proc_table k"
      "has_owner k2 si"
    proof -
      have "state (proc_table k1 p) \<noteq> PST_FREE_SLOT" using runningD(4) [OF p] by (simp add: k1_def)
      note scan_ok = receive_async_scan_ok [OF k1 this, of "async_len (priv_table k1 si)" 0 s si True]
      from scan_ok
      show "kernel_ok k2 cur" and eq: "priv_table k2 = priv_table k1" and "ret \<noteq> 0 \<Longrightarrow> proc_table k2 = proc_table k"
        using k1 unfolding scan by (auto simp: k1_def)
      from scan_ok have "same_procs k1 k2" unfolding scan by (auto simp: same_procs_def)
      then have "live k2 x = live k x" for x using live_cong [of k1 k2 x] by (simp add: k1_def live_def)
      moreover have "proc_nr (priv_table k2 i) = proc_nr (priv_table k i)" for i by (simp add: eq k1_def)
      ultimately show "has_owner k2 si" using si(4) by (simp add: has_owner_def priv_proc_def)
    qed
    have done_ok: "kernel_ok (upd_priv si (\<lambda>v. v\<lparr>async_table := 0, async_len := 0\<rparr>) k2) cur"
      by (rule kernel_ok_upd_priv [OF k2(1)]) auto
    have again_ok: "kernel_ok (upd_priv pi (async_pending_update (\<lambda>m. SET_BIT m si)) k2) cur"
      by (rule kernel_ok_upd_priv [OF k2(1)])
        (use si(1) k2(4) pending_bits(2) [OF kernel_okD(2) [OF k2(1)] pi(1)] in
          \<open>auto simp: length_SET_BIT SET_pending\<close>)
    have "receive_async_from p s k =
        (case dn of None \<Rightarrow> Inr (ret, k2)
         | Some True \<Rightarrow> Inr (ret, upd_priv si (\<lambda>v. v\<lparr>async_table := 0, async_len := 0\<rparr>) k2)
         | Some False \<Rightarrow> Inr (ret, upd_priv pi (async_pending_update (\<lambda>m. SET_BIT m si)) k2))"
      unfolding receive_async_from_def si(2) pi(2) bind_res_simps Let_def si(3) k1_def [symmetric] scan
      using True by simp
    with k2 done_ok again_ok show ?thesis by (auto split: option.split bool.split)
  qed
qed


text \<open>The loop over the senders ends: every round goes on at a larger index.\<close>

lemma receive_async_loop_ok:
  assumes "kernel_ok k cur" and "running k p" and "start \<le> NR_PRIV_PROCS" and "NR_PRIV_PROCS + 1 \<le> fuel + start"
  shows "\<exists>ret k'. receive_async_loop fuel start p k = Inr (ret, k') \<and> kernel_ok k' cur \<and>
    (ret \<noteq> 0 \<longrightarrow> proc_table k' = proc_table k)"
  using assms
proof (induction fuel arbitrary: start k)
  case (Suc fuel)
  note P = kernel_okD(2) [OF Suc.prems(1)]
  obtain pi where pi: "pi < NR_PRIV_PROCS" "priv_of k p = Inr pi"
    using privs_okE [OF P resolvable_live [OF runningD(1) [OF Suc.prems(2)]]] by metis
  obtain i where i: "bitmap_find_next_bit (async_pending (priv_table k pi)) NR_PRIV_PROCS start = Inr i"
      "next_bit_spec (async_pending (priv_table k pi)) NR_PRIV_PROCS start i"
    using find_pending pending_bits(2) [OF P pi(1)] by blast
  show ?case
  proof (cases "i \<ge> NR_PRIV_PROCS")
    case True
    with Suc.prems(1) pi i show ?thesis by simp
  next
    case False
    then have lt: "i < NR_PRIV_PROCS" "start \<le> i" "has_owner k i"
      using i(2) pending_bits(4) [OF P pi(1), of i] by (auto simp: next_bit_spec_def)
    then obtain s where s: "priv_proc k i = Inr s" "live k s" by (auto simp: has_owner_def)
    have nt: "proc_nr (priv_table k i) \<noteq> NO_TASK" using s(1) by (auto simp: priv_proc_def Let_def split: if_splits)
    from receive_async_from_ok [OF Suc.prems(1,2) s(2)] obtain ret k1 where
      k1: "receive_async_from p s k = Inr (ret, k1)" "kernel_ok k1 cur" "ret \<noteq> 0 \<Longrightarrow> proc_table k1 = proc_table k"
      by blast
    show ?thesis
    proof (cases "ret = 0")
      case True
      with False pi i s nt k1 show ?thesis by simp
    next
      case ret: False
      have "\<exists>ret k'. receive_async_loop fuel (i + 1) p k1 = Inr (ret, k') \<and> kernel_ok k' cur \<and>
          (ret \<noteq> 0 \<longrightarrow> proc_table k' = proc_table k1)"
        using Suc.prems lt k1(2) running_cong [OF k1(3) [OF ret]] by (intro Suc.IH) auto
      with ret False pi i s nt k1 show ?thesis by simp
    qed
  qed
qed simp

lemma receive_pending_async_ok:
  assumes ok: "kernel_ok k cur" and p: "running k p"
  shows "\<exists>res k'. receive_pending_async p src m k = Inr (res, k') \<and> kernel_ok k' cur \<and>
    (\<forall>ret. res = Some ret \<longrightarrow> running k' p \<and> same_procs k k')"
proof -
  have upd: "kernel_ok (upd_proc p (recv_msg_update (\<lambda>_. x)) k) cur" if "kernel_ok k cur" for k x
    by (rule kernel_ok_upd_proc [OF that]) (simp add: ipc_view_def proc_queue_def sched_wf_def)
  have run: "running (upd_proc p (recv_msg_update (\<lambda>_. x)) k) p = running k p" for k x
  proof -
    have "same_procs k (upd_proc p (recv_msg_update (\<lambda>_. x)) k)" by (simp add: same_procs_def)
    then show ?thesis by (simp add: running_def resolvable_def endpt_proc_cong)
  qed
  obtain r where r: "has_pending_async k p src = Inr r" "\<And>i. r = Some i \<Longrightarrow> i < NR_PRIV_PROCS \<and> has_owner k i"
    using has_pending_async_ok [OF ok resolvable_live [OF runningD(1) [OF p]]] by metis
  show ?thesis
  proof (cases r)
    case None
    with r ok p show ?thesis by (simp add: receive_pending_async_def same_procs_def)
  next
    case (Some i)
    then obtain s where s: "priv_proc k i = Inr s" "live k s" using r(2) by (auto simp: has_owner_def)
    let ?k = "upd_proc p (recv_msg_update (\<lambda>_. m)) k"
    have "live ?k s" using s(2) by (simp add: live_def)
    then have "\<exists>ret k'. (if src = ANY then receive_async p ?k else receive_async_from p s ?k) = Inr (ret, k') \<and>
        kernel_ok k' cur \<and> (ret \<noteq> 0 \<longrightarrow> proc_table k' = proc_table ?k)"
      using receive_async_loop_ok [OF upd [OF ok, of m], of p 0 "NR_PRIV_PROCS + 1"] run p
        receive_async_from_ok [OF upd [OF ok, of m], of p s] by (simp add: receive_async_def)
    then obtain ret k1 where k1: "(if src = ANY then receive_async p ?k else receive_async_from p s ?k) = Inr (ret, k1)"
        "kernel_ok k1 cur" "ret \<noteq> 0 \<Longrightarrow> proc_table k1 = proc_table ?k" by blast
    have "running (upd_proc p (recv_msg_update (\<lambda>_. 0)) k1) p" if "ret \<noteq> 0"
      using running_cong [OF k1(3) [OF that]] p by (simp add: run)
    moreover have "same_procs k (upd_proc p (recv_msg_update (\<lambda>_. 0)) k1)" if "ret \<noteq> 0"
      using k1(3) [OF that] by (simp add: same_procs_def)
    ultimately show ?thesis
      using Some r s k1(1,2) upd by (auto simp: receive_pending_async_def Let_def)
  qed
qed


text \<open>Sending a table: every entry is delivered, refused or left pending.\<close>

definition sender_ok :: "kernel \<Rightarrow> nat \<Rightarrow> nat \<Rightarrow> bool" where
  "sender_ok k cur si \<longleftrightarrow> kernel_ok k cur \<and> si < NR_PRIV_PROCS \<and> pr_id (priv_table k si) = si \<and> has_owner k si"

lemma has_owner_cong:
  assumes "same_procs k k'" and "\<And>i. proc_nr (priv_table k' i) = proc_nr (priv_table k i)"
  shows "has_owner k' i = has_owner k i"
  using live_cong [OF assms(1)] assms(2) by (simp add: has_owner_def priv_proc_def)

lemma sender_ok_async_done:
  assumes "sender_ok k cur si"
  shows "sender_ok (async_done ep a amsg ret k) cur si"
proof (cases "amsg_out k ep a (amsg\<lparr>am_result := ret, am_flags := am_flags amsg OR ASMF_DONE\<rparr>)")
  case None
  with assms show ?thesis by (simp add: async_done_def)
next
  case (Some k')
  note K = kernel_ok_amsg_out [OF _ Some]
  have "kernel_ok k cur" using assms by (simp add: sender_ok_def)
  with K [of cur] assms Some show ?thesis
    by (simp add: sender_ok_def async_done_def has_owner_def priv_proc_def live_def)
qed

lemma msg_senda_entry_ok:
  assumes so: "sender_ok k cur si"
  shows "\<exists>dn' k'. msg_senda_entry p si a dn k = Inr (dn', k') \<and> sender_ok k' cur si"
proof -
  let ?ep = "endpoint (proc_table k p)"
  have ok: "kernel_ok k cur" and si: "si < NR_PRIV_PROCS" "pr_id (priv_table k si) = si" "has_owner k si"
    using so by (simp_all add: sender_ok_def)
  show ?thesis
  proof (cases "amsg_in k ?ep a")
    case None
    with so show ?thesis by (simp add: msg_senda_entry_def Let_def)
  next
    case (Some am)
    show ?thesis
    proof (cases "am_flags am = 0 \<or> has_flag (am_flags am) ASMF_DONE \<or> am_dest am = ?ep \<or> endpt_proc k (am_dest am) = None")
      case True
      with Some so sender_ok_async_done [OF so] show ?thesis
        by (auto simp: msg_senda_entry_def Let_def)
    next
      case False
      then obtain d where d: "endpt_proc k (am_dest am) = Some d" by auto
      let ?m = "(am_msg am)\<lparr>source := ?ep\<rparr>"
      show ?thesis
      proof (cases "is_waiting_for k d ?ep \<and> has_flag (flags (proc_table k d)) PF_RECV_ASYNC")
        case True
        then have nf: "state (proc_table k d) \<noteq> PST_FREE_SLOT" using waiting_not_free by blast
        have "sender_ok (deliver_to d ?m k) cur si"
          using so kernel_ok_deliver [OF ok nf]
            has_owner_cong [OF deliver_to_same [OF kernel_okD(6) [OF ok] nf]]
          by (simp add: sender_ok_def)
        with True False Some d sender_ok_async_done show ?thesis by (simp add: msg_senda_entry_def Let_def)
      next
        case nw: False
        obtain di where di: "di < NR_PRIV_PROCS" "priv_of k d = Inr di"
          using privs_okE [OF kernel_okD(2) [OF ok] endpt_proc_live [OF d]] by metis
        let ?k = "upd_priv di (async_pending_update (\<lambda>m. SET_BIT m si)) k"
        have "kernel_ok ?k cur"
          by (rule kernel_ok_upd_priv [OF ok])
            (use si pending_bits(2) [OF kernel_okD(2) [OF ok] di(1)] in \<open>auto simp: length_SET_BIT SET_pending\<close>)
        moreover have "has_owner ?k i = has_owner k i" for i
          by (rule has_owner_cong) (simp_all add: same_procs_def)
        ultimately have "sender_ok ?k cur si" using si by (auto simp: sender_ok_def)
        with nw False Some d di si show ?thesis by (auto simp: msg_senda_entry_def Let_def)
      qed
    qed
  qed
qed

lemma msg_senda_loop_ok:
  "sender_ok k cur si \<Longrightarrow> \<exists>dn' k'. msg_senda_loop n p si a dn k = Inr (dn', k') \<and> sender_ok k' cur si"
proof (induction n arbitrary: a dn k)
  case (Suc n)
  obtain dn1 k1 where "msg_senda_entry p si a dn k = Inr (dn1, k1)" "sender_ok k1 cur si"
    using msg_senda_entry_ok [OF Suc.prems] by blast
  with Suc.IH [of k1 "a + 1" dn1] show ?case by simp
qed simp

lemma msg_senda_ok:
  assumes ok: "kernel_ok k cur" and p: "live k p"
  shows "\<exists>ret k'. msg_senda k p tbl len = Inr (ret, k') \<and> kernel_ok k' cur"
proof -
  obtain si where si: "si < NR_PRIV_PROCS" "priv_of k p = Inr si" "pr_id (priv_table k si) = si" "has_owner k si"
    using privs_okE [OF kernel_okD(2) [OF ok] p] by metis
  have tbl: "kernel_ok (upd_priv si (\<lambda>v. v\<lparr>async_table := t, async_len := l\<rparr>) k) cur" if "kernel_ok k cur" for k t l
    by (rule kernel_ok_upd_priv [OF that]) auto
  let ?k = "upd_priv si (\<lambda>v. v\<lparr>async_table := 0, async_len := 0\<rparr>) k"
  have "has_owner ?k si"
    using has_owner_cong [of k ?k si] si(4) by (simp add: same_procs_def)
  then have "sender_ok ?k cur si" using tbl [OF ok] si by (simp add: sender_ok_def)
  from msg_senda_loop_ok [OF this, of len p tbl True] obtain dn k1 where
    k1: "msg_senda_loop len p si tbl True ?k = Inr (dn, k1)" "kernel_ok k1 cur"
    by (auto simp: sender_ok_def)
  show ?thesis
  proof (cases "has_flag (prflags (priv_table k si)) PRF_PRIV_PROC \<and> len \<noteq> 0")
    case True
    then have "msg_senda k p tbl len =
        Inr (0, if dn then k1 else upd_priv si (\<lambda>v. v\<lparr>async_table := tbl, async_len := len\<rparr>) k1)"
      using si(2) k1(1) by (simp add: msg_senda_def Let_def)
    with k1(2) tbl [OF k1(2), of len tbl] show ?thesis by simp
  next
    case False
    with si(2) ok tbl [OF ok, of 0 0] show ?thesis by (auto simp: msg_senda_def Let_def)
  qed
qed

section \<open>The system call\<close>

lemma msg_receive_ok:
  assumes ok: "kernel_ok k cur" and p: "running k p" and m: "m \<noteq> 0"
    and src: "src = ANY \<or> endpt_proc k src \<noteq> None" "src \<noteq> NO_TASK"
  shows "\<exists>ret k'. msg_receive k p src m fl = Inr (ret, k') \<and> kernel_ok k' cur"
proof -
  note R = runningD [OF p]
  note lv = resolvable_live [OF R(1)]
  obtain r where r: "has_pending_notify k p src = Inr r" "\<And>i. r = Some i \<Longrightarrow> i < NR_PRIV_PROCS \<and> has_owner k i"
    using has_pending_notify_ok [OF ok lv] by metis
  show ?thesis
  proof (cases r)
    case (Some i)
    then obtain n where "i < NR_PRIV_PROCS" "priv_proc k i = Inr n" using r(2) by (auto simp: has_owner_def)
    from receive_notify_ok [OF ok lv R(4) this, of m] Some r(1) R(2) [of PST_SENDING]
    show ?thesis by (auto simp: msg_receive_def)
  next
    case None
    have "\<exists>res k1. (if has_flag fl IPCF_ASYNC then receive_pending_async p src m k else Inr (Some 0, k)) = Inr (res, k1) \<and>
        kernel_ok k1 cur \<and> (\<forall>ret. res = Some ret \<longrightarrow> running k1 p \<and> same_procs k k1)"
      using receive_pending_async_ok [OF ok p, of src m] ok p by simp
    then obtain res k1 where k1: "(if has_flag fl IPCF_ASYNC then receive_pending_async p src m k else Inr (Some 0, k)) = Inr (res, k1)"
      "kernel_ok k1 cur" "\<And>ret. res = Some ret \<Longrightarrow> running k1 p \<and> same_procs k k1"
      by blast
    have mr: "msg_receive k p src m fl =
        (case res of None \<Rightarrow> Inr (0, k1) | Some retval \<Rightarrow> receive_sync p src m fl retval k1)"
      using None r(1) R(2) [of PST_SENDING] k1(1) by (simp add: msg_receive_def)
    show ?thesis
    proof (cases res)
      case None
      with mr k1(2) show ?thesis by simp
    next
      case (Some retval)
      then have run: "running k1 p" and sp: "same_procs k k1" using k1(3) by auto
      obtain qs where q: "squeue k1 p qs" using ipc_invD(5) [OF kernel_okD(1) [OF k1(2)]] by blast
      have "src = ANY \<or> endpt_proc k1 src \<noteq> None" using src(1) by (simp add: endpt_proc_cong [OF sp])
      from k1(2) run q m this src(2) show ?thesis
        by (cases rule: receive_sync_ok [where ret = retval and fl = fl]) (auto simp: mr Some)
    qed
  qed
qed

text \<open>
  The calls that \<open>sys_sendrec\<close> is made for.  A message to send can be read and goes to a process, a message to
  receive has a buffer and comes from a process or from \<open>ANY\<close>; notifications, tables of asynchronous messages
  and unknown functions are not restricted.  Outside of this the code can fail: a receiver without a
  buffer and a sender with an unreadable one run into assertions (\<open>Ipc_Props\<close>
  has an example of each).
\<close>

definition call_ok :: "kernel \<Rightarrow> nat \<Rightarrow> sr_args \<Rightarrow> bool" where
  "call_ok k p a \<longleftrightarrow>
     (SR_FUNCTION a \<in> {SEND, SEND_NONBLOCK, BOTH} \<longrightarrow> umsg k p (SR_MSG a) \<noteq> None \<and> SR_SRCDEST a \<notin> {ANY, NO_TASK}) \<and>
     (SR_FUNCTION a \<in> {RECEIVE, RECEIVE_ASYNC, BOTH} \<longrightarrow> SR_MSG a \<noteq> 0 \<and> SR_SRCDEST a \<noteq> NO_TASK)"

lemma verify_endpt_Some: "verify_endpt k ep \<noteq> None \<longleftrightarrow> endpt_proc k ep \<noteq> None"
  by (auto simp: endpt_proc_def split: option.split)

lemma msg_send_both_ok:
  assumes ok: "kernel_ok k cur" and p: "running k p" and d: "endpt_proc k dest = Some d" "dest \<noteq> ANY" "dest \<noteq> NO_TASK"
    and neq: "endpoint (proc_table k p) \<noteq> dest" and msg: "umsg k p m = Some msg"
  shows "\<exists>ret k'. msg_send k p dest (UserMsg m) fl = Inr (ret, k') \<and> kernel_ok k' cur \<and>
    (ret = 0 \<longrightarrow> (running k' p \<and> endpt_proc k' dest \<noteq> None) \<or>
      (PST_IS_SET k' p PST_SENDING \<and> kernel_ok (block_receiving p dest m rfl k') cur))"
proof -
  note inv = kernel_okD(1) [OF ok]
  have "d \<noteq> p" using dest_resolvable(2) [OF d] neq by auto
  have fm: "fetch_msg k p (UserMsg m) = Some msg" using msg by (simp add: fetch_msg_def)
  obtain qs where q: "squeue k d qs" using ipc_invD(5) [OF inv] by blast
  from inv p d \<open>d \<noteq> p\<close> fm q show ?thesis
  proof (cases rule: msg_send_ok [where fl = fl])
    case delivered
    let ?k = "deliver_to d (msg\<lparr>source := endpoint (proc_table k p)\<rparr>) k"
    have nf: "state (proc_table k d) \<noteq> PST_FREE_SLOT" using waiting_not_free [OF delivered(2)] .
    have sp: "same_procs k ?k" using deliver_to_same [OF kernel_okD(6) [OF ok] nf] .
    have "running ?k p"
      using p \<open>d \<noteq> p\<close> by (simp add: running_def resolvable_def endpt_proc_cong [OF sp]) (simp add: deliver_to_table)
    with delivered kernel_ok_deliver [OF ok nf] d endpt_proc_cong [OF sp] show ?thesis by simp
  next
    case (queued k')
    have k': "kernel_ok k' cur"
      by (rule kernel_ok_change [OF ok blocked_sender_change [OF queued(7)] queued(8,5)])
    have "p \<notin> set qs" using q runningD(2) [OF p] by (auto simp: squeue_def senders_def sends_to_def)
    note F = blocked_sender_fields [OF queued(7) q ipc_invD(1) [OF inv] this]
    have snd: "PST_IS_SET k' p PST_SENDING" by (simp add: PST_IS_SET_def F flag_simps)
    have "resolvable k' p" "\<not> has_flag (flags (proc_table k' p)) PF_DELIVER_MSG"
      using runningD(1,3) [OF p] by (simp_all add: resolvable_def endpt_proc_cong [OF queued(8)] F)
    then have "ipc_inv (block_receiving p dest m rfl k')"
      using block_receiving_inv [OF kernel_okD(1) [OF k']] snd by (simp add: F)
    moreover have "same_procs k' (block_receiving p dest m rfl k')"
      using not_free [OF kernel_okD(6) [OF k'] resolvable_not_free [OF \<open>resolvable k' p\<close>]]
        same_procs_state [OF kernel_okD(6) [OF k'], of "block_receiving p dest m rfl k'"]
      by (auto simp: PST_IS_SET_def block_receiving_table flag_simps)
    ultimately have "kernel_ok (block_receiving p dest m rfl k') cur"
      by (intro kernel_ok_change [OF k' block_receiving_change])
    with k' queued(4) snd show ?thesis by simp
  qed (use ok in auto)
qed

lemma sys_sendrec_ok:
  assumes ok: "kernel_ok k cur" and p: "running k p" and a: "call_ok k p a"
  shows "\<exists>ret k'. sys_sendrec k a p = Inr (ret, k') \<and> kernel_ok k' cur"
proof (cases "SR_FUNCTION a \<noteq> SEND_ASYNC \<and>
    (verify_endpt k (SR_SRCDEST a) = None \<or> endpoint (proc_table k p) = SR_SRCDEST a)")
  case True
  with ok show ?thesis by (simp add: sys_sendrec_def Let_def)
next
  case False
  have lv: "live k p" by (rule resolvable_live [OF runningD(1) [OF p]])
  show ?thesis
  proof (cases "SR_FUNCTION a = SEND_ASYNC")
    case True
    with msg_senda_ok [OF ok lv] show ?thesis by (simp add: sys_sendrec_def Let_def)
  next
    case nas: False
    with False obtain d where d: "endpt_proc k (SR_SRCDEST a) = Some d"
      and neq: "endpoint (proc_table k p) \<noteq> SR_SRCDEST a"
      using verify_endpt_Some by blast
    have recv: "\<exists>ret k'. msg_receive k p (SR_SRCDEST a) (SR_MSG a) fl = Inr (ret, k') \<and> kernel_ok k' cur"
      if "SR_FUNCTION a \<in> {RECEIVE, RECEIVE_ASYNC}" for fl
      by (rule msg_receive_ok [OF ok p]) (use that a d in \<open>auto simp: call_ok_def\<close>)
    have send: "\<exists>ret k'. msg_send k p (SR_SRCDEST a) (UserMsg (SR_MSG a)) fl = Inr (ret, k') \<and> kernel_ok k' cur \<and>
        (ret = 0 \<longrightarrow> (running k' p \<and> endpt_proc k' (SR_SRCDEST a) \<noteq> None) \<or> (PST_IS_SET k' p PST_SENDING \<and>
          kernel_ok (block_receiving p (SR_SRCDEST a) (SR_MSG a) 0 k') cur))"
      if f: "SR_FUNCTION a \<in> {SEND, BOTH, SEND_NONBLOCK}" for fl
    proof -
      obtain msg where "umsg k p (SR_MSG a) = Some msg" "SR_SRCDEST a \<noteq> ANY" "SR_SRCDEST a \<noteq> NO_TASK"
        using f a by (auto simp: call_ok_def)
      then show ?thesis by (intro msg_send_both_ok [OF ok p d _ _ neq])
    qed
    have note_ok: "\<exists>ret k'. msg_notify k p (SR_SRCDEST a) = Inr (ret, k') \<and> kernel_ok k' cur"
      using ok lv d by (cases rule: msg_notify_ok) auto
    show ?thesis
    proof (cases "SR_FUNCTION a = BOTH")
      case True
      obtain ret k1 where k1: "msg_send k p (SR_SRCDEST a) (UserMsg (SR_MSG a)) 0 = Inr (ret, k1)" "kernel_ok k1 cur"
          "ret = 0 \<Longrightarrow> (running k1 p \<and> endpt_proc k1 (SR_SRCDEST a) \<noteq> None) \<or> (PST_IS_SET k1 p PST_SENDING \<and>
            kernel_ok (block_receiving p (SR_SRCDEST a) (SR_MSG a) 0 k1) cur)"
        using send [of 0] True by auto
      have m: "SR_MSG a \<noteq> 0" and nt: "SR_SRCDEST a \<noteq> NO_TASK" using a True by (auto simp: call_ok_def)
      have "\<exists>r k'. msg_receive k1 p (SR_SRCDEST a) (SR_MSG a) 0 = Inr (r, k') \<and> kernel_ok k' cur" if "ret = 0"
      proof (cases "running k1 p \<and> endpt_proc k1 (SR_SRCDEST a) \<noteq> None")
        case True
        then show ?thesis by (intro msg_receive_ok [OF k1(2) _ m _ nt]) auto
      next
        case False
        with k1(3) [OF that] show ?thesis by (auto simp: msg_receive_def)
      qed
      moreover have "sys_sendrec k a p = (if ret \<noteq> 0 then Inr (ret, k1)
          else msg_receive k1 p (SR_SRCDEST a) (SR_MSG a) 0)"
        using True False k1(1) by (auto simp: sys_sendrec_def Let_def)
      ultimately show ?thesis using k1(2) by simp
    next
      case nb: False
      have send1: "\<exists>ret k'. msg_send k p (SR_SRCDEST a) (UserMsg (SR_MSG a)) fl = Inr (ret, k') \<and> kernel_ok k' cur"
        if "SR_FUNCTION a \<in> {SEND, BOTH, SEND_NONBLOCK}" for fl
        using send [OF that] by blast
      have guard: "\<not> (verify_endpt k (SR_SRCDEST a) = None \<or> endpoint (proc_table k p) = SR_SRCDEST a)"
        using False nas by blast
      show ?thesis
      proof (cases "SR_FUNCTION a")
        case SEND
        with guard send1 [of 0] show ?thesis by (auto simp: sys_sendrec_def Let_def)
      next
        case SEND_NONBLOCK
        with guard send1 [of IPCF_NONBLOCK] show ?thesis by (auto simp: sys_sendrec_def Let_def)
      next
        case RECEIVE
        with guard recv [of 0] show ?thesis by (auto simp: sys_sendrec_def Let_def)
      next
        case RECEIVE_ASYNC
        with guard recv [of IPCF_ASYNC] show ?thesis by (auto simp: sys_sendrec_def Let_def)
      next
        case NOTIFY
        with guard note_ok show ?thesis by (auto simp: sys_sendrec_def Let_def)
      next
        case OTHER
        with guard ok show ?thesis by (auto simp: sys_sendrec_def Let_def)
      qed (use nas nb in simp_all)
    qed
  qed
qed

end
