(* ===== verification/Ipc_Props.thy ===== *)
theory Ipc_Props
  imports Ipc_Steps
begin

text \<open>
  The properties of message passing, with the small kernels their witnesses run on.
\<close>

unbundle bit_operations_syntax

section \<open>A kernel with two processes\<close>

text \<open>
  Process 5 (slot 9) is running, process 6 (slot 10) has state \<open>st\<close> and would receive from
  anybody, and the address space of process 5 has a message at address 1.
\<close>

definition pair_with :: "u32 \<Rightarrow> kernel" where
  "pair_with st = blank_kernel
    \<lparr>proc_table := (\<lambda>_. blank_proc)
       (9 := blank_proc\<lparr>endpoint := 5, state := 0, priv_ix := Some 1\<rparr>,
        10 := blank_proc\<lparr>endpoint := 6, state := st, priv_ix := Some 2, recvfrom := ANY\<rparr>),
     priv_table := (\<lambda>i. blank_priv\<lparr>pr_id := i, proc_nr := if i = 0 then INTERRUPT else int i + 4\<rparr>),
     umsg := (\<lambda>p a. if p = 9 \<and> a = 1 then Some reset_msg else None)\<rparr>"

abbreviation pair_kernel :: kernel where "pair_kernel \<equiv> pair_with PST_RECEIVING"
abbreviation busy_kernel :: kernel where "busy_kernel \<equiv> pair_with PST_STOPPED"

lemma pair_table:
  "proc_table (pair_with st) p =
     (if p = 9 then blank_proc\<lparr>endpoint := 5, state := 0, priv_ix := Some 1\<rparr>
      else if p = 10 then blank_proc\<lparr>endpoint := 6, state := st, priv_ix := Some 2, recvfrom := ANY\<rparr>
      else blank_proc)"
  by (simp add: pair_with_def)

lemma pair_priv: "priv_table (pair_with st) i =
    blank_priv\<lparr>pr_id := i, proc_nr := if i = 0 then INTERRUPT else int i + 4\<rparr>"
  by (simp add: pair_with_def)

lemma pair_sched:
  assumes "st \<noteq> 0" shows "sched_inv (pair_with st)" "none_lost (pair_with st) 9"
  using blank_kernel_sched(1) assms
  by (auto simp: sched_inv_def queues_ok_def in_queue_def none_lost_def pair_with_def blank_kernel_def
      blank_proc_def sched_wf_def proc_queue_def)

lemma pair_endpt:
  assumes "st \<noteq> PST_FREE_SLOT"
  shows "endpt_proc (pair_with st) 5 = Some 9" "endpt_proc (pair_with st) 6 = Some 10"
  using assms by (simp_all add: endpt_proc_def verify_endpt_def Let_def ENDPOINT_P_mod proc_slot_def
      proc_addr_def pair_table blank_proc_def)

lemma pair_no_sends:
  assumes "\<not> has_flag st PST_SENDING"
  shows "\<not> PST_IS_SET (pair_with st) p PST_SENDING" "sends_to (pair_with st) = {}" "squeue (pair_with st) d []"
proof -
  show ns: "\<not> PST_IS_SET (pair_with st) p PST_SENDING" for p
    using assms by (simp add: PST_IS_SET_def pair_table blank_proc_def flag_simps)
  then show e: "sends_to (pair_with st) = {}" by (simp add: sends_to_def)
  show "squeue (pair_with st) d []" by (simp add: squeue_def senders_def e pair_table blank_proc_def)
qed

lemma pair_ok:
  assumes st: "\<not> has_flag st PST_SENDING" "\<not> has_flag st PST_FREE_SLOT" "st \<noteq> 0"
  shows "kernel_ok (pair_with st) 9"
proof -
  note ns = pair_no_sends [OF st(1)]
  have nf: "st \<noteq> PST_FREE_SLOT" using st(2) by (auto simp: flag_simps)
  have "\<forall>d. \<exists>qs. squeue (pair_with st) d qs" using ns(3) by blast
  moreover have "free_clean (pair_with st)"
    using st by (auto simp: free_clean_def PST_IS_SET_def pair_table blank_proc_def flag_simps)
  moreover have "rendezvous (pair_with st)"
    using ns(1,2) by (auto simp: rendezvous_def pair_table blank_proc_def flag_simps)
  ultimately have "ipc_inv (pair_with st)"
    using ns by (simp add: ipc_inv_def ipc_graph_def sends_live_def acyclic_def)
  moreover have live: "live (pair_with st) p \<longleftrightarrow> p = 3 \<or> p = 9 \<or> p = 10" for p
    using nf by (auto simp: live_def pair_table blank_proc_def proc_addr_def proc_slot_def)
  have "has_owner (pair_with st) 0" "has_owner (pair_with st) 1" "has_owner (pair_with st) 2"
    by (simp_all add: has_owner_def live priv_proc_def pair_priv proc_addr_def proc_slot_def)
  then have "privs_ok (pair_with st)"
    by (auto simp: privs_ok_def live pair_table pair_priv blank_proc_def blank_priv_def GET_BIT_def)
  moreover have "tables_writable (pair_with st)"
    by (simp add: tables_writable_def pair_with_def blank_kernel_def)
  ultimately show ?thesis using pair_sched [OF st(3)] by (simp add: kernel_ok_def)
qed

lemma pair_running: "st \<noteq> PST_FREE_SLOT \<Longrightarrow> running (pair_with st) 9"
  by (simp add: running_def resolvable_def pair_table pair_endpt blank_proc_def flag_simps)

lemma pair_waits: "is_waiting_for pair_kernel 10 5"
  by (simp add: is_waiting_for_def PST_IS_SET_def pair_table blank_proc_def flag_simps)

lemma pair_kernel_ok: "kernel_ok pair_kernel 9" "kernel_ok busy_kernel 9"
  by (rule pair_ok; simp add: flag_simps)+

text \<open>Process 6 is running and process 5 is blocked sending to it.\<close>

definition sender_kernel :: kernel where
  "sender_kernel = (pair_with 0)\<lparr>proc_table := (proc_table (pair_with 0))
     (9 := blank_proc\<lparr>endpoint := 5, state := PST_SENDING, priv_ix := Some 1, sendto := 6\<rparr>,
      10 := blank_proc\<lparr>endpoint := 6, state := 0, priv_ix := Some 2, q_sending := Some 9\<rparr>)\<rparr>"

lemma sender_table:
  "proc_table sender_kernel p =
     (if p = 9 then blank_proc\<lparr>endpoint := 5, state := PST_SENDING, priv_ix := Some 1, sendto := 6\<rparr>
      else if p = 10 then blank_proc\<lparr>endpoint := 6, state := 0, priv_ix := Some 2, q_sending := Some 9\<rparr>
      else blank_proc)"
  by (simp add: sender_kernel_def pair_table)

lemma sender_endpt: "endpt_proc sender_kernel 5 = Some 9" "endpt_proc sender_kernel 6 = Some 10"
  by (simp_all add: endpt_proc_def verify_endpt_def Let_def ENDPOINT_P_mod proc_slot_def
      proc_addr_def sender_table blank_proc_def)

lemma sender_queue:
  "sends_to sender_kernel = {(9, 10)}" "squeue sender_kernel d (if d = 10 then [9] else [])"
proof -
  have s: "PST_IS_SET sender_kernel p PST_SENDING \<longleftrightarrow> p = 9" for p
    by (simp add: PST_IS_SET_def sender_table blank_proc_def flag_simps)
  show e: "sends_to sender_kernel = {(9, 10)}"
    using sender_endpt by (auto simp: sends_to_def s sender_table)
  show "squeue sender_kernel d (if d = 10 then [9] else [])"
    by (auto simp: squeue_def senders_def e sender_table blank_proc_def)
qed

lemma sender_ok: "kernel_ok sender_kernel 10"
proof -
  have "\<forall>d. \<exists>qs. squeue sender_kernel d qs" using sender_queue(2) by blast
  moreover have "sends_live sender_kernel"
    by (auto simp: sends_live_def resolvable_def PST_IS_SET_def sender_table sender_endpt blank_proc_def
        flag_simps intro!: exI [of _ 10])
  moreover have "free_clean sender_kernel"
    by (auto simp: free_clean_def PST_IS_SET_def sender_table blank_proc_def flag_simps)
  moreover have "rendezvous sender_kernel"
    by (auto simp: rendezvous_def sender_queue is_waiting_for_def PST_IS_SET_def sender_table
        blank_proc_def flag_simps)
  moreover have "acyclic {}" by (simp add: acyclic_def)
  ultimately have "ipc_inv sender_kernel"
    by (simp add: ipc_inv_def ipc_graph_def sender_queue acyclic_insert)
  moreover have live: "live sender_kernel p \<longleftrightarrow> p = 3 \<or> p = 9 \<or> p = 10" for p
    by (auto simp: live_def sender_table blank_proc_def proc_addr_def proc_slot_def)
  have pv: "priv_table sender_kernel i =
      blank_priv\<lparr>pr_id := i, proc_nr := if i = 0 then INTERRUPT else int i + 4\<rparr>" for i
    by (simp add: sender_kernel_def pair_priv)
  have "has_owner sender_kernel 0" "has_owner sender_kernel 1" "has_owner sender_kernel 2"
    by (simp_all add: has_owner_def live priv_proc_def pv proc_addr_def proc_slot_def)
  then have "privs_ok sender_kernel"
    by (auto simp: privs_ok_def live sender_table pv blank_proc_def blank_priv_def GET_BIT_def)
  moreover have "sched_inv sender_kernel" "none_lost sender_kernel 10" "tables_writable sender_kernel"
    using blank_kernel_sched(1)
    by (auto simp: sched_inv_def queues_ok_def in_queue_def none_lost_def tables_writable_def
        sender_kernel_def pair_with_def blank_kernel_def blank_proc_def sched_wf_def proc_queue_def)
  ultimately show ?thesis by (simp add: kernel_ok_def)
qed

lemma sender_running: "running sender_kernel 10"
  by (simp add: running_def resolvable_def sender_table sender_endpt blank_proc_def flag_simps)

lemma sender_no_notify: "has_pending_notify sender_kernel 10 ANY = Inr None"
proof -
  have "bitmap_find_next_bit [0] NR_PRIV_PROCS 0 = Inr NR_PRIV_PROCS"
    by (simp add: bitmap_find_next_bit_def chunk_at_def find_next_bit_loop.simps BITCHUNKS_def)
  then show ?thesis
    by (simp add: has_pending_notify_def priv_of_def sender_table sender_kernel_def pair_priv blank_priv_def)
qed

section \<open>Properties\<close>



text \<open>
  C3: the deadlock check is exact.  A send is refused with \<open>EDEADLK\<close> precisely when the
  receiver is itself blocked, directly or through other blocked senders, on the process that
  wants to send; nothing changes then.
\<close>

theorem deadlock_check_exact:
  assumes "kernel_ok k cur" and "running k p" and "endpt_proc k dest = Some d"
    and "dest \<noteq> ANY" and "dest \<noteq> NO_TASK" and "d \<noteq> p" and "fetch_msg k p m = Some msg"
  shows "((\<exists>k'. msg_send k p dest m fl = Inr (EDEADLK, k')) \<longleftrightarrow> (d, p) \<in> (sends_to k)\<^sup>+) \<and>
    ((d, p) \<in> (sends_to k)\<^sup>+ \<longrightarrow> msg_send k p dest m fl = Inr (EDEADLK, k))"
proof -
  obtain qs where "squeue k d qs" using ipc_invD(5) [OF kernel_okD(1) [OF assms(1)]] by blast
  from kernel_okD(1) [OF assms(1)] assms(2-7) this
  show ?thesis by (cases rule: msg_send_ok [where fl = fl]; simp)
qed

theorem deadlock_check_exact_witness:
  "(\<exists>k'. msg_send pair_kernel 9 6 (UserMsg 1) 0 = Inr (EDEADLK, k')) \<longleftrightarrow>
     (10, 9) \<in> (sends_to pair_kernel)\<^sup>+"
  by (rule deadlock_check_exact [OF pair_kernel_ok(1) pair_running pair_endpt(2), THEN conjunct1])
    (simp_all add: fetch_msg_def pair_with_def)


text \<open>
  C6: messages are queued in the order of the sends.  A send that neither finds its receiver
  waiting nor would deadlock blocks the sender behind all processes already queued at the
  receiver; its message, stamped with its endpoint, is kept until it is received.
\<close>

theorem blocked_send_queues_last:
  assumes "kernel_ok k cur" and "running k p" and "endpt_proc k dest = Some d"
    and "dest \<noteq> ANY" and "dest \<noteq> NO_TASK" and "d \<noteq> p" and "fetch_msg k p m = Some msg"
    and "squeue k d qs" and "\<not> is_waiting_for k d (endpoint (proc_table k p))"
    and "(d, p) \<notin> (sends_to k)\<^sup>+"
  shows "\<exists>k'. msg_send k p dest m 0 = Inr (0, k') \<and> squeue k' d (qs @ [p]) \<and>
    PST_IS_SET k' p PST_SENDING \<and>
    send_msg (proc_table k' p) = msg\<lparr>source := endpoint (proc_table k p)\<rparr> \<and>
    (\<forall>x. x \<noteq> p \<longrightarrow> send_msg (proc_table k' x) = send_msg (proc_table k x))"
proof -
  note inv = kernel_okD(1) [OF assms(1)]
  have pq: "p \<notin> set qs"
    using assms(8) runningD(2) [OF assms(2)] by (auto simp: squeue_def senders_def sends_to_def)
  from inv assms(2-8) show ?thesis
  proof (cases rule: msg_send_ok [where fl = 0])
    case (queued k')
    note F = blocked_sender_fields [OF queued(7) assms(8) ipc_invD(1) [OF inv] pq]
    with queued show ?thesis by (auto simp: PST_IS_SET_def F flag_simps)
  qed (use assms(9,10) in \<open>simp_all add: flag_simps\<close>)
qed

text \<open>
  C4: a receive from \<open>ANY\<close> without a pending notification takes the message of the process
  that has waited longest, unblocks exactly that sender and leaves the others queued in order.
\<close>

theorem receive_any_takes_oldest:
  assumes "kernel_ok k cur" and "running k who" and "squeue k who (f # ys)" and "m \<noteq> 0"
    and "has_pending_notify k who ANY = Inr None"
  shows "\<exists>k'. msg_receive k who ANY m 0 = Inr (0, k') \<and> squeue k' who ys \<and> kernel_ok k' cur \<and>
    deliver_msg (proc_table k' who) = send_msg (proc_table k f) \<and>
    has_flag (flags (proc_table k' who)) PF_DELIVER_MSG \<and> \<not> PST_IS_SET k' f PST_SENDING"
proof -
  have mr: "msg_receive k who ANY m 0 = receive_sync who ANY m 0 0 k"
    using assms(5) runningD(2) [OF assms(2)] by (simp add: msg_receive_def flag_simps)
  have any: "ANY = ANY \<or> endpt_proc k ANY \<noteq> None" "ANY \<noteq> NO_TASK" by simp_all
  from assms(1-4) any show ?thesis
  proof (cases rule: receive_sync_ok [where ret = 0 and fl = 0])
    case (taken xs f' ys' k')
    then have "xs = []" "f' = f" "ys' = ys" by simp_all
    with taken mr show ?thesis by simp
  next
    case blocked
    then show ?thesis by force
  qed
qed

text \<open>
  C7: a notification is never lost.  It is delivered at once to a process waiting for it;
  otherwise the notified process finds it pending, whether it next receives from the notifier
  or from \<open>ANY\<close>.
\<close>

theorem notification_not_lost:
  assumes "kernel_ok k cur" and "resolvable k p" and "endpt_proc k dest = Some d"
  shows "\<exists>k'. msg_notify k p dest = Inr (0, k') \<and> kernel_ok k' cur \<and>
    (if is_waiting_for k d (endpoint (proc_table k p))
     then has_flag (flags (proc_table k' d)) PF_DELIVER_MSG \<and>
       source (deliver_msg (proc_table k' d)) = endpoint (proc_table k p) \<and>
       \<not> PST_IS_SET k' d PST_RECEIVING
     else (\<exists>i. has_pending_notify k' d (endpoint (proc_table k p)) = Inr (Some i)) \<and>
       (\<exists>i. has_pending_notify k' d ANY = Inr (Some i)))"
  using assms(1) resolvable_live [OF assms(2)] assms(3)
proof (cases rule: msg_notify_ok)
  case (delivered m k1)
  then show ?thesis by (simp add: deliver_to_table PST_IS_SET_def flag_simps)
next
  case (pending i j k')
  note P = kernel_okD(2) [OF pending(7)]
  have tab: "proc_table k' = proc_table k" using pending(4) by simp
  have ep: "endpt_proc k' x = endpt_proc k x" for x by (rule endpt_proc_cong) (simp add: same_procs_def tab)
  obtain j' where j: "j' < NR_PRIV_PROCS" "priv_of k' p = Inr j'" "priv_ix (proc_table k' p) = Some j'" "pr_id (priv_table k' j') = j'"
    using privs_okE [OF P, of p] resolvable_live [OF assms(2)] live_table_cong [OF tab] by metis
  obtain i' where i: "i' < NR_PRIV_PROCS" "priv_of k' d = Inr i'" "priv_ix (proc_table k' d) = Some i'"
    using privs_okE [OF P, of d] endpt_proc_live [OF assms(3)] live_table_cong [OF tab] by metis
  have eq: "i' = i" "j' = j" using pending(2,3) i(3) j(3) by (simp_all add: tab)
  have "has_pending_notify k' d (endpoint (proc_table k p)) = Inr (Some j)"
    using assms(2) i j pending(6) eq by (simp add: has_pending_notify_def resolvable_def ep)
  moreover obtain r where r: "bitmap_find_next_bit (notify_pending (priv_table k' i)) NR_PRIV_PROCS 0 = Inr r"
      "next_bit_spec (notify_pending (priv_table k' i)) NR_PRIV_PROCS 0 r"
    using find_pending pending_bits(1) [OF P i(1)] eq by blast
  moreover have "r < NR_PRIV_PROCS"
    using r(2) pending(6) j(1) eq by (metis next_bit_spec_def le_antisym le_less_linear le_neq_implies_less zero_le)
  then have "has_pending_notify k' d ANY = Inr (Some r)"
    using i(2) eq r(1) by (simp add: has_pending_notify_def)
  ultimately show ?thesis using pending by simp
qed

theorem blocked_send_queues_last_witness:
  "\<exists>k'. msg_send busy_kernel 9 6 (UserMsg 1) 0 = Inr (0, k') \<and> squeue k' 10 ([] @ [9]) \<and>
    PST_IS_SET k' 9 PST_SENDING \<and>
    send_msg (proc_table k' 9) = reset_msg\<lparr>source := endpoint (proc_table busy_kernel 9)\<rparr> \<and>
    (\<forall>x. x \<noteq> 9 \<longrightarrow> send_msg (proc_table k' x) = send_msg (proc_table busy_kernel x))"
  by (rule blocked_send_queues_last [OF pair_kernel_ok(2) pair_running pair_endpt(2)])
    (simp_all add: fetch_msg_def pair_no_sends flag_simps, simp_all add: pair_table is_waiting_for_def
      PST_IS_SET_def blank_proc_def flag_simps, simp add: pair_with_def)

theorem receive_any_takes_oldest_witness:
  "\<exists>k'. msg_receive sender_kernel 10 ANY 1 0 = Inr (0, k') \<and> squeue k' 10 [] \<and> kernel_ok k' 10 \<and>
    deliver_msg (proc_table k' 10) = send_msg (proc_table sender_kernel 9) \<and>
    has_flag (flags (proc_table k' 10)) PF_DELIVER_MSG \<and> \<not> PST_IS_SET k' 9 PST_SENDING"
  by (rule receive_any_takes_oldest [OF sender_ok sender_running _ _ sender_no_notify])
    (use sender_queue(2) [of 10] in simp_all)

theorem notification_not_lost_witness:
  "\<exists>k'. msg_notify pair_kernel 9 6 = Inr (0, k') \<and> kernel_ok k' 9 \<and>
    (if is_waiting_for pair_kernel 10 (endpoint (proc_table pair_kernel 9))
     then has_flag (flags (proc_table k' 10)) PF_DELIVER_MSG \<and>
       source (deliver_msg (proc_table k' 10)) = endpoint (proc_table pair_kernel 9) \<and>
       \<not> PST_IS_SET k' 10 PST_RECEIVING
     else (\<exists>i. has_pending_notify k' 10 (endpoint (proc_table pair_kernel 9)) = Inr (Some i)) \<and>
       (\<exists>i. has_pending_notify k' 10 ANY = Inr (Some i)))"
  by (rule notification_not_lost [OF pair_kernel_ok(1)])
    (use pair_running [of PST_RECEIVING] in \<open>simp_all add: running_def pair_endpt\<close>)

text \<open>
  C38: a send whose message buffer cannot be read leaves its sender stranded.  \<open>msg_send\<close>
  marks the sender as sending before it copies the message; when the copy fails it returns
  \<open>EFAULT\<close>, but the sender stays blocked without being in the queue of the receiver, and
  the receiver that then asks for a message from it runs into the assertion of
  \<open>msg_receive\<close>.
\<close>

theorem send_fault_strands_sender:
  assumes "kernel_ok k cur" and "running k p" and "endpt_proc k dest = Some d"
    and "dest \<noteq> ANY" and "dest \<noteq> NO_TASK" and "umsg k p m = None" and "squeue k d []"
    and "\<not> is_waiting_for k d (endpoint (proc_table k p))" and "(d, p) \<notin> (sends_to k)\<^sup>+"
  shows "\<exists>k'. msg_send k p dest (UserMsg m) 0 = Inr (EFAULT, k') \<and> PST_IS_SET k' p PST_SENDING \<and>
    pick_sender k' d (endpoint (proc_table k' p)) p = Inl AssertFail"
proof -
  note I = ipc_invD [OF kernel_okD(1) [OF assms(1)]]
  have dl: "deadlock k (endpoint (proc_table k p)) dest = Inr False"
    using deadlock_ok [OF I(1,2) runningD(1) [OF assms(2)] assms(3)] assms(9) by simp
  let ?k = "upd_proc p (sendto_update (\<lambda>_. dest)) (PST_SET p PST_SENDING k)"
  have "msg_send k p dest (UserMsg m) 0 = Inr (EFAULT, ?k)"
    using assms(3,6,8) dl by (simp add: msg_send_def fetch_msg_def Let_def flag_simps)
  moreover have "PST_IS_SET ?k p PST_SENDING" by (simp add: PST_IS_SET_def flag_simps)
  moreover have "endpoint (proc_table ?k d) = dest"
    using dest_resolvable(2) [OF assms(3-5)] by auto
  moreover have "q_sending (proc_table ?k d) = None" using assms(7) by (auto simp: squeue_def)
  ultimately show ?thesis by (simp add: pick_sender_def)
qed

theorem send_fault_strands_sender_witness:
  "\<exists>k'. msg_send busy_kernel 9 6 (UserMsg 2) 0 = Inr (EFAULT, k') \<and> PST_IS_SET k' 9 PST_SENDING \<and>
    pick_sender k' 10 (endpoint (proc_table k' 9)) 9 = Inl AssertFail"
  by (rule send_fault_strands_sender [OF pair_kernel_ok(2) pair_running pair_endpt(2)])
    (simp_all add: pair_no_sends flag_simps, simp_all add: pair_table is_waiting_for_def
      PST_IS_SET_def blank_proc_def flag_simps, simp add: pair_with_def)

text \<open>
  A null message pointer of a receiver reaches an assertion of the kernel: when a sender is
  queued, \<open>msg_receive\<close> with \<open>m = NULL\<close> takes it out of the queue and then asserts.
\<close>

theorem receive_null_asserts:
  assumes "kernel_ok k cur" and "running k who" and "squeue k who (f # ys)"
    and "has_pending_notify k who ANY = Inr None"
  shows "msg_receive k who ANY 0 0 = Inl AssertFail"
proof -
  have q: "qpath (nxt k) (q_sending (proc_table k who)) ([] @ f # ys)" "distinct ([] @ f # ys)"
    using assms(3) by (simp_all add: squeue_def)
  obtain k1 where "unlink_sending who f (prev_of []) k = Inr k1"
    by (rule unlink_sending_ok [OF q], rule that)
  then have "take_message who f None 0 k = Inl AssertFail" by (simp add: take_message_def prev_of_def)
  moreover have "q_sending (proc_table k who) = Some f" using q(1) by simp
  ultimately show ?thesis
    using assms(4) runningD(2) [OF assms(2)] by (simp add: msg_receive_def receive_sync_def flag_simps)
qed

theorem receive_null_asserts_witness: "msg_receive sender_kernel 10 ANY 0 0 = Inl AssertFail"
  by (rule receive_null_asserts [OF sender_ok sender_running _ sender_no_notify])
    (use sender_queue(2) [of 10] in simp)

end
