(* ===== verification/Grants.thy ===== *)
theory Grants
  imports Kernel_State
begin

text \<open>
  Memory grants: the grant table a process keeps (\<open>lib/liblyos/mgrant.c\<close>,
  \<open>include/lyos/mgrant.h\<close>) and the check the kernel makes before it copies between two
  address spaces (\<open>kernel/system/sys_safecopy.c\<close>, \<open>sys_setgrant.c\<close>).
\<close>

unbundle bit_operations_syntax

section \<open>Grants and grant identifiers\<close>

abbreviation MGF_READ :: u32 where "MGF_READ \<equiv> 0x001"
abbreviation MGF_WRITE :: u32 where "MGF_WRITE \<equiv> 0x002"
abbreviation MGF_ACCMODES :: u32 where "MGF_ACCMODES \<equiv> MGF_READ OR MGF_WRITE"
abbreviation MGF_USED :: u32 where "MGF_USED \<equiv> 0x004"
abbreviation MGF_DIRECT :: u32 where "MGF_DIRECT \<equiv> 0x008"
abbreviation MGF_INDIRECT :: u32 where "MGF_INDIRECT \<equiv> 0x010"
abbreviation MGF_PROXY :: u32 where "MGF_PROXY \<equiv> 0x020"
abbreviation MGF_VALID :: u32 where "MGF_VALID \<equiv> 0x040"

type_synonym mgrant_id = u32

text \<open>
  \<open>mgrant_t\<close>.  Its union is kept as the memory cells the members share: two \<open>int\<close>s and two
  64-bit words.  The links of a free slot, which overlay them, are not represented; no flag of
  a free slot is set, so nobody reads its union.
\<close>

record mgrant =
  gflags :: u32
  gseq :: int
  u_int0 :: endpoint
  u_int1 :: endpoint
  u_word1 :: u64
  u_word2 :: u64

definition direct_to :: "mgrant \<Rightarrow> endpoint" where "direct_to g = u_int0 g"
definition direct_addr :: "mgrant \<Rightarrow> u64" where "direct_addr g = u_word1 g"
definition direct_len :: "mgrant \<Rightarrow> u64" where "direct_len g = u_word2 g"
definition indirect_to :: "mgrant \<Rightarrow> endpoint" where "indirect_to g = u_int0 g"
definition indirect_from :: "mgrant \<Rightarrow> endpoint" where "indirect_from g = u_int1 g"
definition indirect_grant :: "mgrant \<Rightarrow> mgrant_id" where "indirect_grant g = ucast (u_word1 g)"
definition proxy_from :: "mgrant \<Rightarrow> endpoint" where "proxy_from g = u_int0 g"
definition proxy_to :: "mgrant \<Rightarrow> endpoint" where "proxy_to g = u_int1 g"
definition proxy_addr :: "mgrant \<Rightarrow> u64" where "proxy_addr g = u_word1 g"
definition proxy_len :: "mgrant \<Rightarrow> u64" where "proxy_len g = u_word2 g"

lemmas grant_member_defs = direct_to_def direct_addr_def direct_len_def indirect_to_def
  indirect_from_def indirect_grant_def proxy_from_def proxy_to_def proxy_addr_def proxy_len_def

abbreviation GRANT_INVALID :: mgrant_id where "GRANT_INVALID \<equiv> - 1"
abbreviation GRANT_SHIFT :: nat where "GRANT_SHIFT \<equiv> 20"
abbreviation GRANT_MAX_SEQ :: int where "GRANT_MAX_SEQ \<equiv> 2048"
abbreviation GRANT_MAX_IDX :: nat where "GRANT_MAX_IDX \<equiv> 1048576"

definition GRANT_ID :: "nat \<Rightarrow> int \<Rightarrow> mgrant_id" where
  "GRANT_ID idx sq = push_bit GRANT_SHIFT (of_int sq) OR of_nat idx"

definition GRANT_SEQ :: "mgrant_id \<Rightarrow> int" where
  "GRANT_SEQ g = uint (drop_bit GRANT_SHIFT g AND 2047)"

definition GRANT_IDX :: "mgrant_id \<Rightarrow> nat" where
  "GRANT_IDX g = unat (g AND 1048575)"

section \<open>The grant table of a process\<close>

abbreviation NR_STATIC_GRANTS :: nat where "NR_STATIC_GRANTS \<equiv> 20"

text \<open>
  \<open>grants\<close> points to an array, identified by a number (0 is \<open>static_grants\<close>, each
  \<open>malloc\<close> gives a new one), with contents \<open>gtab\<close>.  The free list is the sequence of its
  nodes, each an element of some array.
\<close>

record grant_lib =
  grants :: "nat option"
  gtab :: "mgrant list"
  grant_size :: nat
  free_list :: "(nat \<times> nat) list"
  next_array :: nat

definition grant_lib_init :: grant_lib where
  "grant_lib_init = \<lparr>grants = None, gtab = [], grant_size = 0, free_list = [], next_array = 1\<rparr>"

text \<open>What the environment does during one call: whether \<open>malloc\<close> and \<open>setgrant\<close> succeed.\<close>

record grant_env =
  malloc_ok :: bool
  setgrant_ok :: bool

definition fresh_grant :: mgrant where
  "fresh_grant = \<lparr>gflags = 0, gseq = 0, u_int0 = 0, u_int1 = 0, u_word1 = 0, u_word2 = 0\<rparr>"

text \<open>
  The array and size chosen by \<open>alloc_grants\<close>; \<open>None\<close> for the early returns.  The
  subtraction from \<open>GRANT_MAX_IDX\<close> is unsigned.
\<close>

definition grants_target :: "grant_env \<Rightarrow> nat \<Rightarrow> grant_lib \<Rightarrow> (nat \<times> nat) option" where
  "grants_target env cnt s =
     (if grants s = None \<and> cnt \<le> NR_STATIC_GRANTS then Some (0, NR_STATIC_GRANTS)
      else if cnt \<noteq> 0 \<and> cnt \<ge> GRANT_MAX_IDX then None
      else
        let new_size =
          (if cnt \<noteq> 0 then
             grant_size s +
               (if grant_size s \<le> GRANT_MAX_IDX \<and> cnt > GRANT_MAX_IDX - grant_size s
                then GRANT_MAX_IDX - grant_size s else cnt)
           else (1 + grant_size s) * 2)
        in if malloc_ok env then Some (next_array s, new_size) else None)"

definition alloc_grants :: "grant_env \<Rightarrow> nat \<Rightarrow> grant_lib \<Rightarrow> grant_lib" where
  "alloc_grants env cnt s0 =
     (let s = s0\<lparr>free_list := []\<rparr> in
      case grants_target env cnt s of
        None \<Rightarrow> s
      | Some (a, new_size) \<Rightarrow>
          let new_grants = gtab s @ replicate (new_size - grant_size s) fresh_grant;
              s = s\<lparr>free_list := rev (map (\<lambda>i. (a, i)) [grant_size s..<new_size]),
                    next_array := max (next_array s) (a + 1)\<rparr>
          in if setgrant_ok env
             then s\<lparr>grants := Some a, gtab := new_grants, grant_size := new_size\<rparr> else s)"

definition alloc_slot :: "grant_env \<Rightarrow> grant_lib \<Rightarrow> (nat \<times> nat) option \<times> grant_lib" where
  "alloc_slot env s0 =
     (let s = (if free_list s0 = [] then alloc_grants env 0 s0 else s0) in
      case free_list s of
        [] \<Rightarrow> (None, s)
      | g # gs \<Rightarrow> (Some g, s\<lparr>free_list := gs\<rparr>))"

text \<open>
  The common shape of the three \<open>mgrant_set\<close> functions: fill the slot and return its
  identifier.  A slot outside the current array is a wild pointer.
\<close>

definition set_slot :: "grant_env \<Rightarrow> (mgrant \<Rightarrow> mgrant) \<Rightarrow> grant_lib \<Rightarrow> (mgrant_id \<times> grant_lib) res" where
  "set_slot env fill s0 =
     (case alloc_slot env s0 of
        (None, s) \<Rightarrow> Inr (GRANT_INVALID, s)
      | (Some (a, i), s) \<Rightarrow>
          if grants s = Some a \<and> i < grant_size s
          then Inr (GRANT_ID i (gseq (gtab s ! i)),
                    s\<lparr>gtab := (gtab s)[i := fill (gtab s ! i)]\<rparr>)
          else Inl OutOfBounds)"

definition mgrant_set_direct ::
  "grant_env \<Rightarrow> endpoint \<Rightarrow> u64 \<Rightarrow> u64 \<Rightarrow> u32 \<Rightarrow> grant_lib \<Rightarrow> (mgrant_id \<times> grant_lib) res" where
  "mgrant_set_direct env to addr sz acc =
     set_slot env (\<lambda>g. g\<lparr>u_int0 := to, u_word1 := addr, u_word2 := sz,
       gflags := MGF_USED OR MGF_VALID OR MGF_DIRECT OR (acc AND MGF_ACCMODES)\<rparr>)"

definition mgrant_set_indirect ::
  "grant_env \<Rightarrow> endpoint \<Rightarrow> endpoint \<Rightarrow> mgrant_id \<Rightarrow> grant_lib \<Rightarrow> (mgrant_id \<times> grant_lib) res" where
  "mgrant_set_indirect env to from grant =
     set_slot env (\<lambda>g. g\<lparr>u_int0 := to, u_int1 := from,
       u_word1 := (u_word1 g AND NOT 0xffffffff) OR ucast grant,
       gflags := MGF_USED OR MGF_VALID OR MGF_INDIRECT\<rparr>)"

definition mgrant_set_proxy ::
  "grant_env \<Rightarrow> endpoint \<Rightarrow> endpoint \<Rightarrow> u64 \<Rightarrow> u64 \<Rightarrow> u32 \<Rightarrow> grant_lib \<Rightarrow> (mgrant_id \<times> grant_lib) res" where
  "mgrant_set_proxy env to from addr sz acc =
     set_slot env (\<lambda>g. g\<lparr>u_int1 := to, u_int0 := from, u_word1 := addr, u_word2 := sz,
       gflags := MGF_USED OR MGF_VALID OR MGF_PROXY OR (acc AND MGF_ACCMODES)\<rparr>)"

definition next_seq :: "int \<Rightarrow> int" where
  "next_seq sq = (if sq < GRANT_MAX_SEQ - 1 then sq + 1 else 0)"

definition mgrant_revoke :: "mgrant_id \<Rightarrow> grant_lib \<Rightarrow> grant_lib res" where
  "mgrant_revoke grant s =
     (let i = GRANT_IDX grant in
      case grants s of
        None \<Rightarrow> Inl NullDeref
      | Some a \<Rightarrow>
          if i < grant_size s
          then Inr (s\<lparr>gtab := (gtab s)[i := (gtab s ! i)\<lparr>gflags := 0, gseq := next_seq (gseq (gtab s ! i))\<rparr>],
                      free_list := (a, i) # free_list s\<rparr>)
          else Inl OutOfBounds)"

section \<open>The check in the kernel\<close>

abbreviation MAX_INDIRECT_DEPTH :: nat where "MAX_INDIRECT_DEPTH \<equiv> 5"
abbreviation KERNEL_VMA :: u64 where "KERNEL_VMA \<equiv> 0xffffffff80000000"

text \<open>
  The memory of the granters: \<open>rd ep tab i\<close> is entry \<open>i\<close> of the table at address \<open>tab\<close> of
  process \<open>ep\<close>, \<open>None\<close> where the copy into the kernel fails.
\<close>

type_synonym grant_mem = "endpoint \<Rightarrow> nat \<Rightarrow> nat \<Rightarrow> mgrant option"

text \<open>One round of the loop up to the sequence number: the entry of a grant, and its granter's privileges.\<close>

definition grant_entry_of :: "kernel \<Rightarrow> grant_mem \<Rightarrow> endpoint \<Rightarrow> mgrant_id \<Rightarrow> int + (mgrant \<times> priv)" where
  "grant_entry_of k rd granter grant =
     (if grant = GRANT_INVALID then Inl EINVAL
      else case endpt_proc k granter of
        None \<Rightarrow> Inl EINVAL
      | Some gp \<Rightarrow>
          (case priv_ix (proc_table k gp) of
             None \<Rightarrow> Inl EPERM
           | Some pi \<Rightarrow>
               let pv = priv_table k pi in
               if grant_endpoint pv \<noteq> endpoint (proc_table k gp) then Inl EAGAIN
               else if grant_table pv = 0 then Inl EPERM
               else if GRANT_IDX grant \<ge> grant_entries pv then Inl EPERM
               else case rd granter (grant_table pv) (GRANT_IDX grant) of
                 None \<Rightarrow> Inl EPERM
               | Some e \<Rightarrow>
                   if gflags e AND (MGF_USED OR MGF_VALID) \<noteq> (MGF_USED OR MGF_VALID) then Inl EPERM
                   else if gseq e \<noteq> GRANT_SEQ grant then Inl EPERM
                   else Inr (e, pv)))"

definition may_use :: "endpoint \<Rightarrow> endpoint \<Rightarrow> bool" where
  "may_use to grantee \<longleftrightarrow> to = grantee \<or> grantee = ANY \<or> to = ANY"

text \<open>
  The loop, with the number of indirections still allowed.  It ends at an entry that is not
  indirect, with the granter and grantee of that entry.
\<close>

fun grant_chain :: "nat \<Rightarrow> kernel \<Rightarrow> grant_mem \<Rightarrow> endpoint \<Rightarrow> endpoint \<Rightarrow> mgrant_id \<Rightarrow>
    int + (endpoint \<times> endpoint \<times> mgrant \<times> priv)" where
  "grant_chain left k rd granter grantee grant =
     (case grant_entry_of k rd granter grant of
        Inl err \<Rightarrow> Inl err
      | Inr (e, pv) \<Rightarrow>
          if has_flag (gflags e) MGF_INDIRECT then
            (case left of
               0 \<Rightarrow> Inl ELOOP
             | Suc left' \<Rightarrow>
                 if \<not> may_use (indirect_to e) grantee then Inl EPERM
                 else grant_chain left' k rd (indirect_from e) granter (indirect_grant e))
          else Inr (granter, grantee, e, pv))"

declare grant_chain.simps [simp del]

text \<open>\<open>offset + bytes < offset || offset + bytes > len\<close> in unsigned arithmetic.\<close>

definition out_of_range :: "u64 \<Rightarrow> u64 \<Rightarrow> u64 \<Rightarrow> bool" where
  "out_of_range offset bytes len \<longleftrightarrow> offset + bytes < offset \<or> offset + bytes > len"

text \<open>The result is the address and the process whose memory it is in.\<close>

definition verify_grant :: "kernel \<Rightarrow> grant_mem \<Rightarrow> endpoint \<Rightarrow> endpoint \<Rightarrow> mgrant_id \<Rightarrow> u64 \<Rightarrow> u32 \<Rightarrow> u64 \<Rightarrow>
    int + (u64 \<times> endpoint)" where
  "verify_grant k rd granter grantee grant bytes access offset =
     (case grant_chain MAX_INDIRECT_DEPTH k rd granter grantee grant of
        Inl err \<Rightarrow> Inl err
      | Inr (granter, grantee, e, pv) \<Rightarrow>
          if gflags e AND access \<noteq> access then Inl EPERM
          else if has_flag (gflags e) MGF_DIRECT then
            if KERNEL_VMA - direct_len e + 1 < direct_addr e then Inl EPERM
            else if \<not> may_use (direct_to e) grantee then Inl EPERM
            else if out_of_range offset bytes (direct_len e) then Inl EPERM
            else Inr (direct_addr e + offset, granter)
          else if has_flag (gflags e) MGF_PROXY then
            if \<not> has_flag (prflags pv) PRF_ALLOW_PROXY_GRANT then Inl EPERM
            else if \<not> may_use (proxy_to e) grantee then Inl EPERM
            else if out_of_range offset bytes (proxy_len e) then Inl EPERM
            else Inr (proxy_addr e + offset, proxy_from e)
          else Inl EPERM)"

text \<open>The copy that \<open>safecopy\<close> hands to \<open>vir_copy_check\<close>.\<close>

record copy_request =
  cr_dest_ep :: endpoint
  cr_dest_addr :: u64
  cr_src_ep :: endpoint
  cr_src_addr :: u64
  cr_bytes :: u64

definition safecopy :: "kernel \<Rightarrow> grant_mem \<Rightarrow> endpoint \<Rightarrow> endpoint \<Rightarrow> mgrant_id \<Rightarrow> u64 \<Rightarrow> u64 \<Rightarrow> u64 \<Rightarrow> u32 \<Rightarrow>
    int + copy_request" where
  "safecopy k rd granter grantee grant bytes offset addr access =
     (if granter = NO_TASK \<or> grantee = NO_TASK then Inl EFAULT
      else case verify_grant k rd granter grantee grant bytes access offset of
        Inl err \<Rightarrow> Inl err
      | Inr (voffset, new_granter) \<Rightarrow>
          if has_flag access MGF_READ
          then Inr \<lparr>cr_dest_ep = grantee, cr_dest_addr = addr,
                    cr_src_ep = new_granter, cr_src_addr = voffset, cr_bytes = bytes\<rparr>
          else Inr \<lparr>cr_dest_ep = new_granter, cr_dest_addr = voffset,
                    cr_src_ep = grantee, cr_src_addr = addr, cr_bytes = bytes\<rparr>)"

record safecopy_msg =
  src_dest :: endpoint
  sc_grant :: mgrant_id
  sc_len :: u64
  sc_offset :: u64
  sc_addr :: u64

definition sys_safecopyfrom :: "kernel \<Rightarrow> grant_mem \<Rightarrow> safecopy_msg \<Rightarrow> nat \<Rightarrow> int + copy_request" where
  "sys_safecopyfrom k rd m p =
     safecopy k rd (src_dest m) (endpoint (proc_table k p)) (sc_grant m) (sc_len m) (sc_offset m)
       (sc_addr m) MGF_READ"

definition sys_safecopyto :: "kernel \<Rightarrow> grant_mem \<Rightarrow> safecopy_msg \<Rightarrow> nat \<Rightarrow> int + copy_request" where
  "sys_safecopyto k rd m p =
     safecopy k rd (src_dest m) (endpoint (proc_table k p)) (sc_grant m) (sc_len m) (sc_offset m)
       (sc_addr m) MGF_WRITE"

definition sys_setgrant :: "nat \<Rightarrow> nat \<Rightarrow> nat \<Rightarrow> kernel \<Rightarrow> int \<times> kernel" where
  "sys_setgrant buf cnt p k =
     (case priv_ix (proc_table k p) of
        None \<Rightarrow> (EPERM, k)
      | Some i \<Rightarrow>
          if \<not> has_flag (prflags (priv_table k i)) PRF_PRIV_PROC then (EPERM, k)
          else (0, upd_priv i (\<lambda>v. v\<lparr>grant_table := buf, grant_entries := cnt,
                  grant_endpoint := endpoint (proc_table k p)\<rparr>) k))"

section \<open>Identifiers\<close>

lemma GRANT_ID_word:
  assumes "i < GRANT_MAX_IDX" and "0 \<le> sq" and "sq < GRANT_MAX_SEQ"
  shows "uint (GRANT_ID i sq) = sq * 2 ^ 20 + int i"
proof -
  have "\<not> bit (push_bit 20 (of_int sq :: u32)) n \<or> \<not> bit (of_nat i :: u32) n" for n
  proof (cases "n < 20")
    case False
    then have "i < 2 ^ n" using assms(1) power_increasing [of 20 n "2 :: nat"] by simp
    then have "\<not> bit i n" by (simp add: bit_iff_odd)
    then show ?thesis by (simp add: bit_of_nat_iff)
  qed (simp add: bit_push_bit_iff)
  then have "GRANT_ID i sq = push_bit 20 (of_int sq) + of_nat i"
    unfolding GRANT_ID_def by (rule disjunctive_add [symmetric])
  also have "\<dots> = of_int (sq * 2 ^ 20 + int i)" by (simp add: push_bit_eq_mult)
  finally have id: "GRANT_ID i sq = of_int (sq * 2 ^ 20 + int i)" .
  show ?thesis unfolding id unsigned_of_int using assms by (simp add: take_bit_eq_mod)
qed

lemma GRANT_IDX_mod: "GRANT_IDX g = unat g mod 2 ^ 20"
proof -
  have "g AND 1048575 = take_bit 20 g" by (simp add: take_bit_eq_mask mask_eq_exp_minus_1)
  then have "GRANT_IDX g = unat (take_bit 20 g)" by (simp only: GRANT_IDX_def)
  also have "\<dots> = take_bit 20 (unat g)" by (rule unsigned_take_bit_eq)
  finally show ?thesis by (simp add: take_bit_eq_mod)
qed

lemma GRANT_SEQ_div: "GRANT_SEQ g = uint g div 2 ^ 20 mod 2048"
proof -
  have "drop_bit 20 g AND 2047 = take_bit 11 (drop_bit 20 g)"
    by (simp add: take_bit_eq_mask mask_eq_exp_minus_1)
  then have "GRANT_SEQ g = uint (take_bit 11 (drop_bit 20 g))" by (simp only: GRANT_SEQ_def)
  also have "\<dots> = take_bit 11 (uint (drop_bit 20 g))" by (rule unsigned_take_bit_eq)
  also have "uint (drop_bit 20 g) = drop_bit 20 (take_bit LENGTH(32) (uint g))"
    by (rule unsigned_drop_bit_eq)
  also have "take_bit LENGTH(32) (uint g) = uint g"
    using uint_lt2p [of g] by (simp add: take_bit_int_eq_self)
  finally show ?thesis by (simp add: take_bit_eq_mod drop_bit_eq_div)
qed

lemma grant_id_parts:
  assumes "i < GRANT_MAX_IDX" and "0 \<le> sq" and "sq < GRANT_MAX_SEQ"
  shows "GRANT_IDX (GRANT_ID i sq) = i" and "GRANT_SEQ (GRANT_ID i sq) = sq"
    and "GRANT_ID i sq \<noteq> GRANT_INVALID"
proof -
  note w = GRANT_ID_word [OF assms]
  have "int (unat (GRANT_ID i sq) mod 2 ^ 20) = (sq * 2 ^ 20 + int i) mod 2 ^ 20"
    by (simp add: zmod_int w flip: uint_nat)
  then show "GRANT_IDX (GRANT_ID i sq) = i" using assms by (simp add: GRANT_IDX_mod)
  have "(sq * 2 ^ 20 + int i) div 2 ^ 20 = sq" using assms by simp
  then show "GRANT_SEQ (GRANT_ID i sq) = sq" using assms by (simp add: GRANT_SEQ_div w)
  have "uint (GRANT_INVALID) = 4294967295"
    by (simp add: unsigned_minus_1_eq_mask mask_eq_exp_minus_1)
  moreover have "sq * 2 ^ 20 + int i < 2147483648" using assms by simp
  ultimately show "GRANT_ID i sq \<noteq> GRANT_INVALID" using w by auto
qed

section \<open>The grant table\<close>

text \<open>
  The free list names each unused slot of the current array once, and sequence numbers are in
  range.
\<close>

definition glib_ok :: "grant_lib \<Rightarrow> bool" where
  "glib_ok s \<longleftrightarrow>
     length (gtab s) = grant_size s \<and> distinct (free_list s) \<and> 0 < next_array s \<and>
     (\<forall>g \<in> set (gtab s). 0 \<le> gseq g \<and> gseq g < GRANT_MAX_SEQ) \<and>
     (case grants s of
        None \<Rightarrow> grant_size s = 0 \<and> free_list s = []
      | Some a \<Rightarrow> a < next_array s \<and>
          (\<forall>x. x \<in> set (free_list s) \<longleftrightarrow> fst x = a \<and> snd x < grant_size s \<and> gflags (gtab s ! snd x) = 0))"

lemma glib_init_ok: "glib_ok grant_lib_init"
  by (simp add: glib_ok_def grant_lib_init_def)

lemma fresh_slots:
  assumes "length t = n" and "n \<le> m"
  shows "(i < m \<and> gflags ((t @ replicate (m - n) fresh_grant) ! i) = 0) \<longleftrightarrow>
    (n \<le> i \<and> i < m) \<or> (i < n \<and> gflags (t ! i) = 0)"
  using assms by (auto simp: nth_append fresh_grant_def)

text \<open>Growing the table, when no slot is free, adds free slots and keeps the old ones.\<close>

lemma alloc_grants_ok:
  assumes ok: "glib_ok s" and env: "setgrant_ok env" and none: "free_list s = []"
  defines "s' \<equiv> alloc_grants env 0 s"
  shows "glib_ok s'" and "grant_size s \<le> grant_size s'"
    and "\<And>i. i < grant_size s \<Longrightarrow> gtab s' ! i = gtab s ! i"
proof -
  have len: "length (gtab s) = grant_size s" using ok by (simp add: glib_ok_def)
  show "glib_ok s'"
  proof (cases "grants_target env 0 (s\<lparr>free_list := []\<rparr>)")
    case None
    then have "s' = s" using none by (simp add: s'_def alloc_grants_def)
    with ok show ?thesis by simp
  next
    case (Some t)
    obtain a n where t: "t = (a, n)" by (cases t)
    have n: "grant_size s \<le> n"
      using Some t ok by (auto simp: grants_target_def glib_ok_def split: if_splits option.splits)
    have full: "\<forall>i < grant_size s. gflags (gtab s ! i) \<noteq> 0"
      using ok none by (cases "grants s") (auto simp: glib_ok_def)
    have "s' = s\<lparr>free_list := rev (map (\<lambda>i. (a, i)) [grant_size s..<n]), next_array := max (next_array s) (a + 1),
        grants := Some a, gtab := gtab s @ replicate (n - grant_size s) fresh_grant, grant_size := n\<rparr>"
      using Some t env by (simp add: s'_def alloc_grants_def Let_def)
    then show ?thesis
      using ok n full fresh_slots [OF len n] len
      by (auto simp: glib_ok_def distinct_map inj_on_def fresh_grant_def)
  qed
  show "grant_size s \<le> grant_size s'"
    using ok env by (auto simp: s'_def alloc_grants_def Let_def grants_target_def glib_ok_def split: option.splits if_splits)
  show "gtab s' ! i = gtab s ! i" if "i < grant_size s" for i
    using that len env by (auto simp: s'_def alloc_grants_def Let_def nth_append split: option.splits)
qed

lemma glib_free:
  assumes "glib_ok s" and "(a, i) \<in> set (free_list s)"
  shows "grants s = Some a" "i < grant_size s" "gflags (gtab s ! i) = 0"
proof -
  obtain b where b: "grants s = Some b" using assms by (cases "grants s") (auto simp: glib_ok_def)
  have "\<forall>x. x \<in> set (free_list s) \<longleftrightarrow> fst x = b \<and> snd x < grant_size s \<and> gflags (gtab s ! snd x) = 0"
    using assms(1) b by (simp add: glib_ok_def)
  from this [THEN spec, of "(a, i)"] assms(2) b
  show "grants s = Some a" "i < grant_size s" "gflags (gtab s ! i) = 0" by auto
qed

text \<open>What filling a slot does: it takes a free slot and changes nothing else.\<close>

lemma set_slot_ok:
  assumes ok: "glib_ok s" and env: "setgrant_ok env"
    and fill: "\<And>g. gseq (fill g) = gseq g \<and> gflags (fill g) \<noteq> 0"
  obtains (full) s' where "set_slot env fill s = Inr (GRANT_INVALID, s')" "glib_ok s'" "free_list s = []"
  | (filled) i g s' where "set_slot env fill s = Inr (GRANT_ID i (gseq g), s')" "i < grant_size s'" "glib_ok s'"
      "gtab s' ! i = fill g" "0 \<le> gseq g" "gseq g < GRANT_MAX_SEQ" "grants s' \<noteq> None"
      "grant_size s \<le> grant_size s'"
      "i < grant_size s \<Longrightarrow> g = gtab s ! i \<and> gflags g = 0"
      "\<And>j. j < grant_size s \<Longrightarrow> j \<noteq> i \<Longrightarrow> gtab s' ! j = gtab s ! j"
      "free_list s \<noteq> [] \<Longrightarrow> i = snd (hd (free_list s)) \<and> g = gtab s ! i"
proof -
  define s1 where "s1 = (if free_list s = [] then alloc_grants env 0 s else s)"
  have s1: "glib_ok s1" "grant_size s \<le> grant_size s1" "\<And>i. i < grant_size s \<Longrightarrow> gtab s1 ! i = gtab s ! i"
    using ok alloc_grants_ok [OF ok env] by (auto simp: s1_def)
  show thesis
  proof (cases "free_list s1")
    case Nil
    then have "set_slot env fill s = Inr (GRANT_INVALID, s1)"
      by (simp add: set_slot_def alloc_slot_def Let_def flip: s1_def)
    moreover have "free_list s = []" using Nil by (simp add: s1_def split: if_splits)
    ultimately show thesis using full s1(1) by blast
  next
    case (Cons x xs)
    obtain a i where x: "x = (a, i)" by (cases x)
    have a: "grants s1 = Some a" "i < grant_size s1" "gflags (gtab s1 ! i) = 0"
      using glib_free [OF s1(1), of a i] Cons x by simp_all
    have len: "length (gtab s1) = grant_size s1" using s1(1) by (simp add: glib_ok_def)
    let ?g = "gtab s1 ! i"
    let ?s = "s1\<lparr>free_list := xs, gtab := (gtab s1)[i := fill ?g]\<rparr>"
    have sq: "0 \<le> gseq ?g \<and> gseq ?g < GRANT_MAX_SEQ"
      using s1(1) a(2) len by (auto simp: glib_ok_def)
    have bits: "y \<in> set xs \<longleftrightarrow> y \<noteq> (a, i) \<and> y \<in> set (free_list s1)" for y
      using s1(1) Cons x by (auto simp: glib_ok_def)
    have "glib_ok ?s"
      unfolding glib_ok_def
    proof (intro conjI)
      show "\<forall>g\<in>set (gtab ?s). 0 \<le> gseq g \<and> gseq g < GRANT_MAX_SEQ"
        using s1(1) sq fill set_update_subset_insert [of "gtab s1" i "fill ?g"] by (auto simp: glib_ok_def)
      show "case grants ?s of None \<Rightarrow> grant_size ?s = 0 \<and> free_list ?s = [] | Some a \<Rightarrow> a < next_array ?s \<and>
          (\<forall>x. x \<in> set (free_list ?s) \<longleftrightarrow> fst x = a \<and> snd x < grant_size ?s \<and> gflags (gtab ?s ! snd x) = 0)"
        using s1(1) a len fill by (auto simp: glib_ok_def bits nth_list_update split: if_splits)
    qed (use s1(1) Cons in \<open>auto simp: glib_ok_def\<close>)
    moreover have "set_slot env fill s = Inr (GRANT_ID i (gseq ?g), ?s)"
      using Cons x a(1,2) by (simp add: set_slot_def alloc_slot_def Let_def flip: s1_def)
    ultimately show thesis
    proof (intro filled [of i ?g ?s])
      show "free_list s \<noteq> [] \<Longrightarrow> i = snd (hd (free_list s)) \<and> ?g = gtab s ! i"
        using Cons x by (simp add: s1_def)
    qed (use a len sq s1(2,3) in auto)
  qed
qed

lemma mgrant_revoke_ok:
  assumes ok: "glib_ok s" and "grants s \<noteq> None" and i: "GRANT_IDX g < grant_size s"
    and used: "gflags (gtab s ! GRANT_IDX g) \<noteq> 0"
  obtains s' a where "mgrant_revoke g s = Inr s'" "glib_ok s'" "grant_size s' = grant_size s" "grants s' = grants s"
    "gseq (gtab s' ! GRANT_IDX g) = next_seq (gseq (gtab s ! GRANT_IDX g))" "gflags (gtab s' ! GRANT_IDX g) = 0"
    "hd (free_list s') = (a, GRANT_IDX g)" "free_list s' \<noteq> []"
    "\<And>j. j \<noteq> GRANT_IDX g \<Longrightarrow> gtab s' ! j = gtab s ! j"
proof -
  obtain a where a: "grants s = Some a" using assms(2) by auto
  let ?i = "GRANT_IDX g"
  let ?e = "(gtab s ! ?i)\<lparr>gflags := 0, gseq := next_seq (gseq (gtab s ! ?i))\<rparr>"
  let ?s = "s\<lparr>gtab := (gtab s)[?i := ?e], free_list := (a, ?i) # free_list s\<rparr>"
  have len: "length (gtab s) = grant_size s" using ok by (simp add: glib_ok_def)
  have free: "x \<in> set (free_list s) \<longleftrightarrow> fst x = a \<and> snd x < grant_size s \<and> gflags (gtab s ! snd x) = 0" for x
    using ok a by (cases x) (simp add: glib_ok_def)
  have sq: "0 \<le> gseq (gtab s ! ?i) \<and> gseq (gtab s ! ?i) < GRANT_MAX_SEQ"
    using ok i len by (auto simp: glib_ok_def)
  have "glib_ok ?s"
    unfolding glib_ok_def
  proof (intro conjI)
    show "\<forall>g\<in>set (gtab ?s). 0 \<le> gseq g \<and> gseq g < GRANT_MAX_SEQ"
      using ok sq set_update_subset_insert [of "gtab s" ?i ?e] by (auto simp: glib_ok_def next_seq_def)
    show "distinct (free_list ?s)" using ok used free by (auto simp: glib_ok_def)
    show "case grants ?s of None \<Rightarrow> grant_size ?s = 0 \<and> free_list ?s = [] | Some a \<Rightarrow> a < next_array ?s \<and>
        (\<forall>x. x \<in> set (free_list ?s) \<longleftrightarrow> fst x = a \<and> snd x < grant_size ?s \<and> gflags (gtab ?s ! snd x) = 0)"
      using ok a i len free by (auto simp: glib_ok_def nth_list_update split: if_splits)
  qed (use ok in \<open>auto simp: glib_ok_def\<close>)
  moreover have "mgrant_revoke g s = Inr ?s" using a i by (simp add: mgrant_revoke_def Let_def)
  ultimately show thesis using that [of ?s a] i len a by simp
qed

section \<open>Grants as the kernel sees them\<close>

text \<open>The table of process \<open>ep\<close>, registered with \<open>setgrant\<close>, is the one of the library state \<open>s\<close>.\<close>

definition exports :: "kernel \<Rightarrow> grant_mem \<Rightarrow> endpoint \<Rightarrow> grant_lib \<Rightarrow> bool" where
  "exports k rd ep s \<longleftrightarrow>
     (\<exists>gp pi. endpt_proc k ep = Some gp \<and> priv_ix (proc_table k gp) = Some pi \<and>
       grant_endpoint (priv_table k pi) = endpoint (proc_table k gp) \<and>
       grant_table (priv_table k pi) \<noteq> 0 \<and> grant_entries (priv_table k pi) = grant_size s \<and>
       (\<forall>i < grant_size s. rd ep (grant_table (priv_table k pi)) i = Some (gtab s ! i)))"

lemma grant_entry_exported:
  assumes "exports k rd ep s" and "GRANT_IDX g < grant_size s" and "g \<noteq> GRANT_INVALID"
  obtains pv where "grant_entry_of k rd ep g =
    (if gflags (gtab s ! GRANT_IDX g) AND (MGF_USED OR MGF_VALID) \<noteq> (MGF_USED OR MGF_VALID) then Inl EPERM
     else if gseq (gtab s ! GRANT_IDX g) \<noteq> GRANT_SEQ g then Inl EPERM
     else Inr (gtab s ! GRANT_IDX g, pv))"
  using assms by (auto simp: exports_def grant_entry_of_def Let_def)

lemma verify_grant_stale:
  assumes "exports k rd ep s" and "GRANT_IDX g < grant_size s" and "g \<noteq> GRANT_INVALID"
    and "gflags (gtab s ! GRANT_IDX g) = 0 \<or> gseq (gtab s ! GRANT_IDX g) \<noteq> GRANT_SEQ g"
  shows "verify_grant k rd ep grantee g bytes access offset = Inl EPERM"
proof -
  obtain pv where "grant_entry_of k rd ep g =
    (if gflags (gtab s ! GRANT_IDX g) AND (MGF_USED OR MGF_VALID) \<noteq> (MGF_USED OR MGF_VALID) then Inl EPERM
     else if gseq (gtab s ! GRANT_IDX g) \<noteq> GRANT_SEQ g then Inl EPERM
     else Inr (gtab s ! GRANT_IDX g, pv))"
    by (rule grant_entry_exported [OF assms(1-3)])
  then have "grant_entry_of k rd ep g = Inl EPERM" using assms(4) by auto
  then show ?thesis by (simp add: verify_grant_def grant_chain.simps)
qed

end
