(* ===== verification/Grant_Props.thy ===== *)
theory Grant_Props
  imports Grants
begin

text \<open>
  The properties of memory grants: what the library writes into its table and what the kernel
  makes of it.
\<close>

unbundle bit_operations_syntax

lemma out_of_range_iff: "out_of_range offset bytes len \<longleftrightarrow> \<not> unat offset + unat bytes \<le> unat len"
proof (cases "unat offset + unat bytes < 2 ^ 64")
  case True
  then have "unat (offset + bytes) = unat offset + unat bytes" using unat_add_lem [of offset bytes] by simp
  then show ?thesis by (auto simp: out_of_range_def word_less_nat_alt)
next
  case False
  have "unat (offset + bytes) = (unat offset + unat bytes) mod 2 ^ 64" by (simp add: unat_word_ariths)
  moreover have "unat offset < 2 ^ 64" "unat bytes < 2 ^ 64" "unat len < 2 ^ 64"
    using unsigned_less [of offset] unsigned_less [of bytes] unsigned_less [of len] by simp_all
  ultimately show ?thesis
    using False by (auto simp: out_of_range_def word_less_nat_alt mod_if)
qed

section \<open>Properties\<close>

lemma nonzero_or: "f \<noteq> 0 \<Longrightarrow> f OR g \<noteq> (0 :: u32)"
  by (auto simp: bit_eq_iff bit_simps)

lemma set_slot_total:
  assumes "glib_ok s" and "setgrant_ok env" and "\<And>g. gseq (fill g) = gseq g \<and> gflags (fill g) \<noteq> 0"
  shows "\<exists>g s'. set_slot env fill s = Inr (g, s') \<and> glib_ok s'"
  using assms by (cases rule: set_slot_ok [where fill = fill]) auto

lemma set_direct_total:
  assumes "glib_ok s" and "setgrant_ok env"
  shows "\<exists>g s'. mgrant_set_direct env to addr len acc s = Inr (g, s') \<and> glib_ok s'"
  unfolding mgrant_set_direct_def by (rule set_slot_total [OF assms]) (simp add: nonzero_or)

text \<open>
  C10: the grant table stays well formed.  As long as the kernel accepts the table, no
  \<open>mgrant_set\<close> function runs into a wild pointer, and each keeps the free list equal to the
  unused slots of the current table and the sequence numbers in range.
\<close>

theorem grant_table_kept:
  assumes "glib_ok s" and "setgrant_ok env"
  shows "(\<exists>g s'. mgrant_set_direct env to addr len acc s = Inr (g, s') \<and> glib_ok s') \<and>
    (\<exists>g s'. mgrant_set_indirect env to from grant s = Inr (g, s') \<and> glib_ok s') \<and>
    (\<exists>g s'. mgrant_set_proxy env to from addr len acc s = Inr (g, s') \<and> glib_ok s')"
  unfolding mgrant_set_indirect_def mgrant_set_proxy_def
  by (intro conjI set_direct_total set_slot_total assms) (simp_all add: nonzero_or)

text \<open>
  C5: a direct grant means what was granted.  After \<open>mgrant_set_direct\<close> and with the table
  registered, the kernel lets a grantee use the grant exactly when it is the process named in
  it (or either side is \<open>ANY\<close>), the access is among the granted ones, and the requested bytes
  lie inside the granted range, computed without wrap-around; the address it hands out is the
  granted address plus the offset, in the memory of the granter.
\<close>

theorem direct_grant_exact:
  assumes "glib_ok s" and "setgrant_ok env" and "mgrant_set_direct env to addr len acc s = Inr (g, s')"
    and "g \<noteq> GRANT_INVALID" and "grant_size s' \<le> GRANT_MAX_IDX" and "exports k rd granter s'"
    and "access = MGF_READ \<or> access = MGF_WRITE"
  shows "verify_grant k rd granter grantee g bytes access offset =
    (if acc AND access = access \<and> \<not> KERNEL_VMA - len + 1 < addr \<and> may_use to grantee \<and>
        unat offset + unat bytes \<le> unat len
     then Inr (addr + offset, granter) else Inl EPERM)"
proof -
  define fl where "fl = MGF_USED OR MGF_VALID OR MGF_DIRECT OR (acc AND MGF_ACCMODES)"
  define fill :: "mgrant \<Rightarrow> mgrant" where "fill = (\<lambda>g. g\<lparr>u_int0 := to, u_word1 := addr, u_word2 := len, gflags := fl\<rparr>)"
  have fl: "\<not> has_flag fl MGF_INDIRECT" "has_flag fl MGF_DIRECT" "has_flag fl MGF_USED"
    by (simp_all add: fl_def flag_simps)
  have flb: "fl AND (MGF_USED OR MGF_VALID) = (MGF_USED OR MGF_VALID)"
    "fl AND access = access \<longleftrightarrow> acc AND access = access"
    using assms(7) by (auto simp: fl_def bit.conj_disj_distrib2 and.assoc)
  have ss: "set_slot env fill s = Inr (g, s')"
    using assms(3) by (simp only: mgrant_set_direct_def fill_def fl_def)
  have fok: "gseq (fill x) = gseq x \<and> gflags (fill x) \<noteq> 0" for x
    using has_flag_nonzero [OF fl(3)] by (simp add: fill_def)
  obtain i e where i: "g = GRANT_ID i (gseq e)" "i < grant_size s'" "gtab s' ! i = fill e"
      "0 \<le> gseq e" "gseq e < GRANT_MAX_SEQ"
    using assms(1,2) fok
  proof (cases rule: set_slot_ok [where fill = fill])
    case (filled j e s1)
    with ss that [of j e] show thesis by simp
  qed (use ss assms(4) in simp)
  have lt: "i < GRANT_MAX_IDX" using i(2) assms(5) by simp
  note id = grant_id_parts [OF lt i(4,5), folded i(1)]
  obtain pv where "grant_entry_of k rd granter g =
      (if gflags (gtab s' ! GRANT_IDX g) AND (MGF_USED OR MGF_VALID) \<noteq> (MGF_USED OR MGF_VALID) then Inl EPERM
       else if gseq (gtab s' ! GRANT_IDX g) \<noteq> GRANT_SEQ g then Inl EPERM
       else Inr (gtab s' ! GRANT_IDX g, pv))"
    using grant_entry_exported [OF assms(6) _ assms(4)] i(2) id(1) by metis
  then have e: "grant_entry_of k rd granter g = Inr (fill e, pv)"
    unfolding id i(3) using flb(1) id(2) by (simp add: fill_def)
  have "out_of_range offset bytes len \<longleftrightarrow> \<not> unat offset + unat bytes \<le> unat len"
    by (rule out_of_range_iff)
  with e fl flb(2) show ?thesis
    by (simp add: verify_grant_def grant_chain.simps grant_member_defs fill_def)
qed

text \<open>
  C9: a revoked grant stays dead.  Once \<open>mgrant_revoke\<close> has taken a grant back, the kernel
  refuses every use of its identifier, also after the slot has been given to a new grant, whose
  identifier is a different one.
\<close>

theorem revoked_grant_dead:
  assumes "glib_ok s" and "grants s \<noteq> None" and "GRANT_IDX g < grant_size s" and "g \<noteq> GRANT_INVALID"
    and "gflags (gtab s ! GRANT_IDX g) \<noteq> 0" and "gseq (gtab s ! GRANT_IDX g) = GRANT_SEQ g"
    and "mgrant_revoke g s = Inr s1" and "exports k1 rd1 granter s1"
    and "setgrant_ok env" and "mgrant_set_direct env to addr len acc s1 = Inr (g2, s2)"
    and "exports k2 rd2 granter s2" and "grant_size s2 \<le> GRANT_MAX_IDX"
  shows "verify_grant k1 rd1 granter grantee g bytes access offset = Inl EPERM \<and>
    verify_grant k2 rd2 granter grantee g bytes access offset = Inl EPERM \<and> g2 \<noteq> g"
proof -
  from assms(1-3,5) obtain a where s1: "glib_ok s1" "grant_size s1 = grant_size s" "gflags (gtab s1 ! GRANT_IDX g) = 0"
      "gseq (gtab s1 ! GRANT_IDX g) = next_seq (gseq (gtab s ! GRANT_IDX g))" "hd (free_list s1) = (a, GRANT_IDX g)"
      "free_list s1 \<noteq> []"
    by (rule mgrant_revoke_ok) (use assms(7) in simp)
  have ne: "next_seq (GRANT_SEQ g) \<noteq> GRANT_SEQ g"
    by (simp add: next_seq_def GRANT_SEQ_div)
  define fill :: "mgrant \<Rightarrow> mgrant" where "fill = (\<lambda>g. g\<lparr>u_int0 := to, u_word1 := addr, u_word2 := len,
    gflags := MGF_USED OR MGF_VALID OR MGF_DIRECT OR (acc AND MGF_ACCMODES)\<rparr>)"
  have fok: "gseq (fill x) = gseq x \<and> gflags (fill x) \<noteq> 0" for x
    using has_flag_nonzero [of "gflags (fill x)" MGF_USED] by (simp add: fill_def flag_simps)
  have ss: "set_slot env fill s1 = Inr (g2, s2)"
    using assms(10) by (simp only: mgrant_set_direct_def fill_def)
  have "g2 \<noteq> g \<and> GRANT_IDX g < grant_size s2 \<and> gseq (gtab s2 ! GRANT_IDX g) \<noteq> GRANT_SEQ g"
    using s1(1) assms(9) fok
  proof (cases rule: set_slot_ok [where fill = fill])
    case (full s')
    with s1(6) show ?thesis by simp
  next
    case (filled i e s')
    then have i: "i = GRANT_IDX g" "e = gtab s1 ! GRANT_IDX g" using s1(5,6) by auto
    have eq: "g2 = GRANT_ID i (gseq e)" "s' = s2" using filled(1) ss by simp_all
    have sq: "gseq e = next_seq (GRANT_SEQ g)" using i s1(4) assms(6) by simp
    have lt: "i < GRANT_MAX_IDX" by (simp add: i GRANT_IDX_mod)
    have "GRANT_SEQ g2 = gseq e" using grant_id_parts(2) [OF lt filled(5,6)] eq by simp
    then have "g2 \<noteq> g" using sq ne by auto
    moreover have "gseq (gtab s2 ! GRANT_IDX g) \<noteq> GRANT_SEQ g"
      using filled(4) fok [of e] eq i sq ne by simp
    ultimately show ?thesis using filled(2) eq i by simp
  qed
  then show ?thesis
    using verify_grant_stale [OF assms(8) _ assms(4)] verify_grant_stale [OF assms(11) _ assms(4)]
      s1(2,3) assms(3) by simp
qed

text \<open>
  The chain of indirect grants from one grant to another: each hop is a valid indirect grant
  of its granter that its grantee may use.
\<close>

inductive delegated :: "kernel \<Rightarrow> grant_mem \<Rightarrow> nat \<Rightarrow> endpoint \<Rightarrow> endpoint \<Rightarrow> mgrant_id \<Rightarrow>
    endpoint \<Rightarrow> endpoint \<Rightarrow> mgrant_id \<Rightarrow> bool" for k rd where
  here: "delegated k rd 0 gr ge g gr ge g"
| via: "grant_entry_of k rd gr g = Inr (e, pv) \<Longrightarrow> has_flag (gflags e) MGF_INDIRECT \<Longrightarrow>
    may_use (indirect_to e) ge \<Longrightarrow> delegated k rd n (indirect_from e) gr (indirect_grant e) gr' ge' g' \<Longrightarrow>
    delegated k rd (Suc n) gr ge g gr' ge' g'"

lemma grant_chain_delegated:
  "grant_chain left k rd gr ge g = Inr (gr', ge', e, pv) \<Longrightarrow>
    \<exists>n g'. n \<le> left \<and> delegated k rd n gr ge g gr' ge' g' \<and>
      grant_entry_of k rd gr' g' = Inr (e, pv) \<and> \<not> has_flag (gflags e) MGF_INDIRECT"
proof (induction left arbitrary: gr ge g)
  case 0
  then show ?case
    by (fastforce simp: grant_chain.simps intro: delegated.here split: sum.splits if_splits)
next
  case (Suc left)
  from Suc.prems obtain e1 pv1 where e1: "grant_entry_of k rd gr g = Inr (e1, pv1)"
    by (subst (asm) grant_chain.simps) (auto split: sum.splits)
  show ?case
  proof (cases "has_flag (gflags e1) MGF_INDIRECT")
    case True
    then have "may_use (indirect_to e1) ge"
        "grant_chain left k rd (indirect_from e1) gr (indirect_grant e1) = Inr (gr', ge', e, pv)"
      using Suc.prems e1 by (auto simp: grant_chain.simps [of "Suc left"] split: if_splits)
    with Suc.IH [OF this(2)] True e1 show ?thesis by (meson delegated.via Suc_le_mono)
  next
    case False
    with Suc.prems e1 show ?thesis
      by (fastforce simp: grant_chain.simps [of "Suc left"] intro: delegated.here)
  qed
qed

text \<open>
  C8: the kernel hands out only granted memory.  When \<open>verify_grant\<close> succeeds, at most five
  indirect grants lead from the one presented to a valid direct or proxy grant that allows the
  access, names the process the memory is taken from, and covers the requested bytes.
\<close>

theorem verify_grant_sound:
  assumes "verify_grant k rd granter grantee g bytes access offset = Inr (addr, from)"
  shows "\<exists>n gr ge g' e pv. n \<le> MAX_INDIRECT_DEPTH \<and> delegated k rd n granter grantee g gr ge g' \<and>
    grant_entry_of k rd gr g' = Inr (e, pv) \<and> gflags e AND access = access \<and>
    (has_flag (gflags e) MGF_DIRECT \<and> from = gr \<and> may_use (direct_to e) ge \<and>
       addr = direct_addr e + offset \<and> unat offset + unat bytes \<le> unat (direct_len e) \<or>
     has_flag (gflags e) MGF_PROXY \<and> has_flag (prflags pv) PRF_ALLOW_PROXY_GRANT \<and> from = proxy_from e \<and>
       may_use (proxy_to e) ge \<and>
       addr = proxy_addr e + offset \<and> unat offset + unat bytes \<le> unat (proxy_len e))"
proof -
  obtain gr ge e pv where c: "grant_chain MAX_INDIRECT_DEPTH k rd granter grantee g = Inr (gr, ge, e, pv)"
    using assms by (auto simp: verify_grant_def split: sum.splits)
  from grant_chain_delegated [OF c] obtain n g' where
    d: "n \<le> MAX_INDIRECT_DEPTH" "delegated k rd n granter grantee g gr ge g'" "grant_entry_of k rd gr g' = Inr (e, pv)"
    by blast
  show ?thesis
    using assms d by (intro exI [of _ n] exI [of _ gr] exI [of _ ge] exI [of _ g'] exI [of _ e] exI [of _ pv])
      (auto simp: verify_grant_def c out_of_range_iff split: if_splits)
qed

text \<open>
  Grants that refer to themselves do not hang the kernel: following an indirect grant that
  leads back to itself ends with \<open>ELOOP\<close>.
\<close>

theorem grant_loop_refused:
  assumes "grant_entry_of k rd gr g = Inr (e, pv)" and "has_flag (gflags e) MGF_INDIRECT"
    and "indirect_from e = gr" and "indirect_grant e = g"
    and "may_use (indirect_to e) gr" and "may_use (indirect_to e) grantee"
  shows "verify_grant k rd gr grantee g bytes access offset = Inl ELOOP"
proof -
  have "may_use (indirect_to e) ge \<Longrightarrow> grant_chain n k rd gr ge g = Inl ELOOP" for n ge
    by (induction n arbitrary: ge; subst grant_chain.simps) (use assms in simp_all)
  with assms(6) show ?thesis by (simp add: verify_grant_def)
qed

section \<open>A process with grants\<close>

text \<open>Process 5 has registered a table of \<open>n\<close> grants, the one of the library state \<open>s\<close>.\<close>

definition grant_kernel :: "nat \<Rightarrow> kernel" where
  "grant_kernel n = blank_kernel
     \<lparr>proc_table := (\<lambda>_. blank_proc)(9 := blank_proc\<lparr>endpoint := 5, state := 0, priv_ix := Some 1\<rparr>),
      priv_table := (\<lambda>i. blank_priv\<lparr>pr_id := i, grant_table := 4096, grant_entries := n, grant_endpoint := 5\<rparr>)\<rparr>"

definition grant_mem_of :: "grant_lib \<Rightarrow> grant_mem" where
  "grant_mem_of s = (\<lambda>ep tab i. if ep = 5 \<and> i < grant_size s then Some (gtab s ! i) else None)"

lemma grant_kernel_endpt: "endpt_proc (grant_kernel n) 5 = Some 9"
  by (simp add: endpt_proc_def verify_endpt_def Let_def ENDPOINT_P_mod proc_slot_def proc_addr_def
      grant_kernel_def blank_proc_def)

lemma grant_kernel_exports: "exports (grant_kernel (grant_size s)) (grant_mem_of s) 5 s"
  unfolding exports_def
  by (rule exI [of _ 9], rule exI [of _ 1])
    (simp add: grant_kernel_endpt, simp add: grant_kernel_def grant_mem_of_def blank_priv_def)

definition demo_env :: grant_env where
  "demo_env = \<lparr>malloc_ok = True, setgrant_ok = True\<rparr>"

text \<open>The table after a first direct grant, of 100 bytes at 4096 to process 6 for reading.\<close>

definition demo_lib :: grant_lib where
  "demo_lib = snd (projr (mgrant_set_direct demo_env 6 4096 100 MGF_READ grant_lib_init))"

lemma demo_set: "mgrant_set_direct demo_env 6 4096 100 MGF_READ grant_lib_init = Inr (19, demo_lib)"
  by (simp add: demo_lib_def) code_simp

lemma demo_lib_facts:
  "grant_size demo_lib = 20" "grants demo_lib = Some 0" "gflags (gtab demo_lib ! 19) \<noteq> 0" "gseq (gtab demo_lib ! 19) = 0"
  "GRANT_IDX 19 = 19" "GRANT_SEQ 19 = 0"
  by code_simp+

lemma demo_lib_ok: "glib_ok demo_lib"
  using set_direct_total [OF glib_init_ok, of demo_env 6 4096 100 MGF_READ] demo_set
  by (simp add: demo_env_def)

theorem grant_table_kept_witness:
  "(\<exists>g s'. mgrant_set_direct demo_env 1 2 3 MGF_READ demo_lib = Inr (g, s') \<and> glib_ok s') \<and>
    (\<exists>g s'. mgrant_set_indirect demo_env 1 2 3 demo_lib = Inr (g, s') \<and> glib_ok s') \<and>
    (\<exists>g s'. mgrant_set_proxy demo_env 1 2 2 3 MGF_READ demo_lib = Inr (g, s') \<and> glib_ok s')"
  by (rule grant_table_kept [OF demo_lib_ok]) (simp add: demo_env_def)

theorem direct_grant_exact_witness:
  "verify_grant (grant_kernel (grant_size demo_lib)) (grant_mem_of demo_lib) 5 6 19 10 MGF_READ 90 =
    (if MGF_READ AND MGF_READ = MGF_READ \<and> \<not> KERNEL_VMA - 100 + 1 < 4096 \<and> may_use 6 6 \<and>
        unat (90 :: u64) + unat (10 :: u64) \<le> unat (100 :: u64)
     then Inr (4096 + 90, 5) else Inl EPERM)"
  by (rule direct_grant_exact [OF glib_init_ok _ demo_set _ _ grant_kernel_exports])
    (simp_all add: demo_env_def demo_lib_facts)

definition demo_revoked :: grant_lib where
  "demo_revoked = projr (mgrant_revoke 19 demo_lib)"

definition demo_reused :: grant_lib where
  "demo_reused = snd (projr (mgrant_set_direct demo_env 7 0 8 MGF_WRITE demo_revoked))"

lemma demo_revoke: "mgrant_revoke 19 demo_lib = Inr demo_revoked"
  by (simp add: demo_revoked_def) code_simp

lemma demo_reuse: "mgrant_set_direct demo_env 7 0 8 MGF_WRITE demo_revoked = Inr (GRANT_ID 19 1, demo_reused)"
  by (simp add: demo_reused_def) code_simp

theorem revoked_grant_dead_witness:
  "verify_grant (grant_kernel (grant_size demo_revoked)) (grant_mem_of demo_revoked) 5 6 19 10 MGF_READ 0 = Inl EPERM \<and>
   verify_grant (grant_kernel (grant_size demo_reused)) (grant_mem_of demo_reused) 5 6 19 10 MGF_READ 0 = Inl EPERM \<and>
   GRANT_ID 19 1 \<noteq> 19"
proof (rule revoked_grant_dead [OF demo_lib_ok _ _ _ _ _ demo_revoke grant_kernel_exports _ demo_reuse
      grant_kernel_exports])
  have "grant_size demo_reused = 20" by code_simp
  then show "grant_size demo_reused \<le> GRANT_MAX_IDX" by simp
qed (simp_all add: demo_lib_facts demo_env_def)

theorem verify_grant_sound_witness:
  "\<exists>n gr ge g' e pv. n \<le> MAX_INDIRECT_DEPTH \<and>
    delegated (grant_kernel (grant_size demo_lib)) (grant_mem_of demo_lib) n 5 6 19 gr ge g' \<and>
    grant_entry_of (grant_kernel (grant_size demo_lib)) (grant_mem_of demo_lib) gr g' = Inr (e, pv) \<and>
    gflags e AND MGF_READ = MGF_READ \<and>
    (has_flag (gflags e) MGF_DIRECT \<and> 5 = gr \<and> may_use (direct_to e) ge \<and>
       4186 = direct_addr e + 90 \<and> unat (90 :: u64) + unat (10 :: u64) \<le> unat (direct_len e) \<or>
     has_flag (gflags e) MGF_PROXY \<and> has_flag (prflags pv) PRF_ALLOW_PROXY_GRANT \<and> 5 = proxy_from e \<and>
       may_use (proxy_to e) ge \<and>
       4186 = proxy_addr e + 90 \<and> unat (90 :: u64) + unat (10 :: u64) \<le> unat (proxy_len e))"
  by (rule verify_grant_sound) code_simp

text \<open>A table whose only grant is indirect and refers to itself.\<close>

definition loop_lib :: grant_lib where
  "loop_lib = demo_lib\<lparr>gtab := [fresh_grant\<lparr>gflags := MGF_USED OR MGF_VALID OR MGF_INDIRECT,
     u_int0 := ANY, u_int1 := 5\<rparr>], grant_size := 1\<rparr>"

theorem grant_loop_refused_witness:
  "verify_grant (grant_kernel 1) (grant_mem_of loop_lib) 5 6 0 10 MGF_READ 0 = Inl ELOOP"
proof (rule grant_loop_refused)
  show "grant_entry_of (grant_kernel 1) (grant_mem_of loop_lib) 5 0 =
      Inr (gtab loop_lib ! 0, blank_priv\<lparr>pr_id := 1, grant_table := 4096, grant_entries := 1, grant_endpoint := 5\<rparr>)"
    by code_simp
qed (code_simp+)

text \<open>
  The check that keeps direct grants out of the kernel's address range can be passed by a
  grant that is too long.  The bound \<open>KERNEL_VMA - len + 1\<close> wraps around for a length above
  \<open>KERNEL_VMA\<close>, and \<open>verify_grant\<close> then hands out an address of the kernel.
\<close>

theorem long_grant_reaches_kernel:
  "\<exists>k rd g addr. verify_grant k rd 5 6 g 1 MGF_READ KERNEL_VMA = Inr (addr, 5) \<and> KERNEL_VMA \<le> addr"
proof -
  let ?e = "fresh_grant\<lparr>gflags := MGF_USED OR MGF_VALID OR MGF_DIRECT OR MGF_READ, u_int0 := ANY,
    u_word1 := 1, u_word2 := - 1\<rparr>"
  have "verify_grant (grant_kernel 1) (\<lambda>_ _ _. Some ?e) 5 6 0 1 MGF_READ KERNEL_VMA = Inr (KERNEL_VMA + 1, 5)"
    by code_simp
  moreover have "KERNEL_VMA \<le> KERNEL_VMA + 1" by simp
  ultimately show ?thesis by blast
qed

end
