(* ===== verification/Avl.thy ===== *)
theory Avl
  imports Lyos_Prelude
begin

text \<open>
  The AVL trees of \<open>include/lyos/avl.h\<close>.  A tree is a value: the functions of the header take
  and return the root of a subtree and never share nodes between trees.  A node carries its
  stored height; \<open>Leaf\<close> is \<open>NULL\<close>, and following a pointer of \<open>Leaf\<close> is a fault.
\<close>

unbundle bit_operations_syntax

section \<open>Trees\<close>

datatype 'a avl = Leaf | Node (left: "'a avl") (entry: 'a) (right: "'a avl") (hgt: int)

fun avl_tree_height :: "'a avl \<Rightarrow> int" where
  "avl_tree_height Leaf = 0"
| "avl_tree_height (Node l a r h) = h"

fun avl_set_height :: "'a avl \<Rightarrow> 'a avl res" where
  "avl_set_height Leaf = Inl NullDeref"
| "avl_set_height (Node l a r h) =
     (let lh = avl_tree_height l; rh = avl_tree_height r in
      Inr (Node l a r ((if lh > rh then lh else rh) + 1)))"

fun avl_balance_factor :: "'a avl \<Rightarrow> int res" where
  "avl_balance_factor Leaf = Inl NullDeref"
| "avl_balance_factor (Node l a r h) = Inr (avl_tree_height r - avl_tree_height l)"

text \<open>
  The rotations.  \<open>avl_set_height\<close> is called on the lower node first, then on the new root.
\<close>

fun avl_left_rotate :: "'a avl \<Rightarrow> 'a avl res" where
  "avl_left_rotate (Node l a (Node k2 b r1 h1) h) =
     bind_res (avl_set_height (Node l a k2 h)) (\<lambda>subroot. avl_set_height (Node subroot b r1 h1))"
| "avl_left_rotate _ = Inl NullDeref"

fun avl_right_rotate :: "'a avl \<Rightarrow> 'a avl res" where
  "avl_right_rotate (Node (Node l1 b k2 h1) a r h) =
     bind_res (avl_set_height (Node k2 a r h)) (\<lambda>subroot. avl_set_height (Node l1 b subroot h1))"
| "avl_right_rotate _ = Inl NullDeref"

fun avl_left_right_rotate :: "'a avl \<Rightarrow> 'a avl res" where
  "avl_left_right_rotate Leaf = Inl NullDeref"
| "avl_left_right_rotate (Node l a r h) =
     bind_res (avl_left_rotate l) (\<lambda>l'. avl_right_rotate (Node l' a r h))"

fun avl_right_left_rotate :: "'a avl \<Rightarrow> 'a avl res" where
  "avl_right_left_rotate Leaf = Inl NullDeref"
| "avl_right_left_rotate (Node l a r h) =
     bind_res (avl_right_rotate r) (\<lambda>r'. avl_left_rotate (Node l a r' h))"

fun avl_fixup :: "int \<Rightarrow> 'a avl \<Rightarrow> 'a avl res" where
  "avl_fixup bf Leaf = (if bf = 2 \<or> bf = -2 then Inl NullDeref else Inr Leaf)"
| "avl_fixup bf (Node l a r h) =
     (if bf = 2 then
        (case r of
           Leaf \<Rightarrow> Inl NullDeref
         | Node rl _ rr _ \<Rightarrow>
             if avl_tree_height rl \<le> avl_tree_height rr then avl_left_rotate (Node l a r h)
             else avl_right_left_rotate (Node l a r h))
      else if bf = -2 then
        (case l of
           Leaf \<Rightarrow> Inl NullDeref
         | Node ll _ lr _ \<Rightarrow>
             if avl_tree_height ll \<ge> avl_tree_height lr then avl_right_rotate (Node l a r h)
             else avl_left_right_rotate (Node l a r h))
      else Inr (Node l a r h))"

text \<open>The end of insertion and erasure: set the height, then rebalance.\<close>

definition avl_rebalance :: "'a avl \<Rightarrow> 'a avl res" where
  "avl_rebalance t =
     bind_res (avl_set_height t) (\<lambda>subroot.
     bind_res (avl_balance_factor subroot) (\<lambda>bf.
       if bf = 2 \<or> bf = -2 then avl_fixup bf subroot else Inr subroot))"

fun avl_insert_recur :: "('a \<Rightarrow> 'a \<Rightarrow> int) \<Rightarrow> 'a \<Rightarrow> 'a avl \<Rightarrow> 'a avl res" where
  "avl_insert_recur nn_comp node Leaf = Inr (Node Leaf node Leaf 1)"
| "avl_insert_recur nn_comp node (Node l a r h) =
     (if nn_comp node a = -1
      then bind_res (avl_insert_recur nn_comp node l) (\<lambda>l'. avl_rebalance (Node l' a r h))
      else bind_res (avl_insert_recur nn_comp node r) (\<lambda>r'. avl_rebalance (Node l a r' h)))"

text \<open>\<open>avl_erase_min\<close> returns the smallest node through its second argument.\<close>

fun avl_erase_min :: "'a avl \<Rightarrow> ('a avl \<times> 'a option) res" where
  "avl_erase_min Leaf = Inr (Leaf, None)"
| "avl_erase_min (Node l a r h) =
     (if l \<noteq> Leaf then
        bind_res (avl_erase_min l) (\<lambda>(l', it).
        bind_res (avl_set_height (Node l' a r h)) (\<lambda>t. Inr (t, it)))
      else if r = Leaf then Inr (Leaf, Some a)
      else bind_res (avl_set_height r) (\<lambda>t. Inr (t, Some a)))"

text \<open>
  \<open>tmp\<close> takes the place of the erased node.  Whatever height it carries is overwritten by
  \<open>avl_set_height\<close> right after.
\<close>

fun avl_erase_recur :: "('a \<Rightarrow> 'a \<Rightarrow> int) \<Rightarrow> 'a \<Rightarrow> 'a avl \<Rightarrow> 'a avl res" where
  "avl_erase_recur nn_comp node Leaf = Inr Leaf"
| "avl_erase_recur nn_comp node (Node l a r h) =
     bind_res
       (let comp = nn_comp node a in
        if comp = -1 then bind_res (avl_erase_recur nn_comp node l) (\<lambda>l'. Inr (Node l' a r h))
        else if comp = 1 then bind_res (avl_erase_recur nn_comp node r) (\<lambda>r'. Inr (Node l a r' h))
        else if l = Leaf then Inr r
        else if r = Leaf then Inr l
        else bind_res (avl_erase_min r) (\<lambda>(r', tmp).
          case tmp of None \<Rightarrow> Inl NullDeref | Some b \<Rightarrow> Inr (Node l b r' h)))
       (\<lambda>subroot. if subroot = Leaf then Inr Leaf else avl_rebalance subroot)"

section \<open>Heights and order\<close>

fun inorder :: "'a avl \<Rightarrow> 'a list" where
  "inorder Leaf = []"
| "inorder (Node l a r h) = inorder l @ a # inorder r"

text \<open>The stored heights are the heights.\<close>

fun heights :: "'a avl \<Rightarrow> bool" where
  "heights Leaf \<longleftrightarrow> True"
| "heights (Node l a r h) \<longleftrightarrow> heights l \<and> heights r \<and> h = max (avl_tree_height l) (avl_tree_height r) + 1"

fun balanced :: "'a avl \<Rightarrow> bool" where
  "balanced Leaf \<longleftrightarrow> True"
| "balanced (Node l a r h) \<longleftrightarrow> balanced l \<and> balanced r \<and> \<bar>avl_tree_height r - avl_tree_height l\<bar> \<le> 1"

definition avl :: "'a avl \<Rightarrow> bool" where
  "avl t \<longleftrightarrow> heights t \<and> balanced t"

lemma height_nonneg: "heights t \<Longrightarrow> 0 \<le> avl_tree_height t"
  by (induction t) auto

lemma height_pos: "heights t \<Longrightarrow> 0 < avl_tree_height t \<longleftrightarrow> t \<noteq> Leaf"
  by (cases t) (auto dest: height_nonneg)

text \<open>
  Rebalancing never follows a null pointer, keeps the sequence of entries and leaves correct
  heights, whatever the balance was.
\<close>

lemma avl_rebalance_heights:
  assumes "heights l" and "heights r"
  shows "\<exists>t. avl_rebalance (Node l a r h) = Inr t \<and> heights t \<and> inorder t = inorder l @ a # inorder r"
proof -
  define hl hr where "hl = avl_tree_height l" and "hr = avl_tree_height r"
  have nn: "0 \<le> hl" "0 \<le> hr" using assms by (simp_all add: hl_def hr_def height_nonneg)
  consider "hr - hl = 2" | "hl - hr = 2" | "hr - hl \<noteq> 2" "hl - hr \<noteq> 2" by blast
  then show ?thesis
  proof cases
    case 1
    then obtain rl b rr h1 where r: "r = Node rl b rr h1" using nn(1) by (cases r) (auto simp: hr_def)
    show ?thesis
    proof (cases "avl_tree_height rl \<le> avl_tree_height rr")
      case True
      with 1 assms show ?thesis
        by (auto simp: avl_rebalance_def r hl_def hr_def Let_def)
    next
      case False
      then obtain rll c rlr h2 where "rl = Node rll c rlr h2"
        using assms(2) r height_nonneg [of rr] by (cases rl) auto
      with False 1 assms show ?thesis
        by (auto simp: avl_rebalance_def r hl_def hr_def Let_def)
    qed
  next
    case 2
    then obtain ll b lr h1 where l: "l = Node ll b lr h1" using nn(2) by (cases l) (auto simp: hl_def)
    show ?thesis
    proof (cases "avl_tree_height ll \<ge> avl_tree_height lr")
      case True
      with 2 assms show ?thesis
        by (auto simp: avl_rebalance_def l hl_def hr_def Let_def)
    next
      case False
      then obtain lrl c lrr h2 where "lr = Node lrl c lrr h2"
        using assms(1) l height_nonneg [of ll] by (cases lr) auto
      with False 2 assms show ?thesis
        by (auto simp: avl_rebalance_def l hl_def hr_def Let_def)
    qed
  next
    case 3
    with assms show ?thesis by (auto simp: avl_rebalance_def hl_def hr_def Let_def)
  qed
qed

text \<open>A subtree that is off balance by at most two comes out balanced.\<close>

lemma avl_rebalance_avl:
  assumes "avl l" and "avl r" and "\<bar>avl_tree_height r - avl_tree_height l\<bar> \<le> 2"
  shows "\<exists>t. avl_rebalance (Node l a r h) = Inr t \<and> avl t \<and> inorder t = inorder l @ a # inorder r \<and>
    (if \<bar>avl_tree_height r - avl_tree_height l\<bar> \<le> 1
     then avl_tree_height t = max (avl_tree_height l) (avl_tree_height r) + 1
     else max (avl_tree_height l) (avl_tree_height r) \<le> avl_tree_height t \<and>
       avl_tree_height t \<le> max (avl_tree_height l) (avl_tree_height r) + 1)"
proof -
  define hl hr where "hl = avl_tree_height l" and "hr = avl_tree_height r"
  have nn: "0 \<le> hl" "0 \<le> hr" using assms by (simp_all add: hl_def hr_def avl_def height_nonneg)
  consider "hr - hl = 2" | "hl - hr = 2" | "\<bar>hr - hl\<bar> \<le> 1" using assms(3) hl_def hr_def by linarith
  then show ?thesis
  proof cases
    case 1
    then obtain rl b rr h1 where r: "r = Node rl b rr h1" using nn(1) by (cases r) (auto simp: hr_def)
    show ?thesis
    proof (cases "avl_tree_height rl \<le> avl_tree_height rr")
      case True
      with 1 assms show ?thesis
        by (auto simp: avl_rebalance_def r hl_def hr_def Let_def avl_def)
    next
      case False
      then obtain rll c rlr h2 where "rl = Node rll c rlr h2"
        using assms(2) r height_nonneg [of rr] by (cases rl) (auto simp: avl_def)
      with False 1 assms show ?thesis
        by (auto simp: avl_rebalance_def r hl_def hr_def Let_def avl_def)
    qed
  next
    case 2
    then obtain ll b lr h1 where l: "l = Node ll b lr h1" using nn(2) by (cases l) (auto simp: hl_def)
    show ?thesis
    proof (cases "avl_tree_height ll \<ge> avl_tree_height lr")
      case True
      with 2 assms show ?thesis
        by (auto simp: avl_rebalance_def l hl_def hr_def Let_def avl_def)
    next
      case False
      then obtain lrl c lrr h2 where "lr = Node lrl c lrr h2"
        using assms(1) l height_nonneg [of ll] by (cases lr) (auto simp: avl_def)
      with False 2 assms show ?thesis
        by (auto simp: avl_rebalance_def l hl_def hr_def Let_def avl_def)
    qed
  next
    case 3
    with assms show ?thesis by (auto simp: avl_rebalance_def hl_def hr_def Let_def avl_def)
  qed
qed

section \<open>Insertion\<close>

text \<open>The comparison functions of the users of the trees compare a key.\<close>

definition cmp_by :: "('a \<Rightarrow> 'k::linorder) \<Rightarrow> 'a \<Rightarrow> 'a \<Rightarrow> int" where
  "cmp_by key a b = (if key a < key b then -1 else if key b < key a then 1 else 0)"

lemma cmp_by_cases [simp]:
  "key a < key b \<Longrightarrow> cmp_by key a b = -1" "key b < key a \<Longrightarrow> cmp_by key a b = 1"
  "key a = key b \<Longrightarrow> cmp_by key a b = 0" "cmp_by key a b = -1 \<longleftrightarrow> key a < key b"
  by (auto simp: cmp_by_def)

lemma avl_insert_ok:
  assumes "avl t" and "sorted (map key (inorder t))"
  shows "\<exists>t'. avl_insert_recur (cmp_by key) x t = Inr t' \<and> avl t' \<and>
    inorder t' = filter (\<lambda>a. key a \<le> key x) (inorder t) @ x # filter (\<lambda>a. key x < key a) (inorder t) \<and>
    avl_tree_height t \<le> avl_tree_height t' \<and> avl_tree_height t' \<le> avl_tree_height t + 1"
  using assms
proof (induction t)
  case Leaf
  then show ?case by (simp add: avl_def)
next
  case (Node l a r h)
  have sub: "avl l" "avl r" "sorted (map key (inorder l))" "sorted (map key (inorder r))"
    and b: "\<bar>avl_tree_height r - avl_tree_height l\<bar> \<le> 1" "h = max (avl_tree_height l) (avl_tree_height r) + 1"
    and ord: "\<forall>y \<in> set (inorder l). key y \<le> key a" "\<forall>y \<in> set (inorder r). key a \<le> key y"
    using Node.prems by (auto simp: avl_def sorted_append)
  show ?case
  proof (cases "key x < key a")
    case True
    obtain l' where l': "avl_insert_recur (cmp_by key) x l = Inr l'" "avl l'"
        "inorder l' = filter (\<lambda>a. key a \<le> key x) (inorder l) @ x # filter (\<lambda>a. key x < key a) (inorder l)"
        "avl_tree_height l \<le> avl_tree_height l'" "avl_tree_height l' \<le> avl_tree_height l + 1"
      using Node.IH(1) [OF sub(1,3)] by blast
    have "\<bar>avl_tree_height r - avl_tree_height l'\<bar> \<le> 2" using b l'(4,5) by linarith
    from avl_rebalance_avl [OF l'(2) sub(2) this, of a h] obtain t where
      t: "avl_rebalance (Node l' a r h) = Inr t" "avl t" "inorder t = inorder l' @ a # inorder r"
        "(if \<bar>avl_tree_height r - avl_tree_height l'\<bar> \<le> 1
         then avl_tree_height t = max (avl_tree_height l') (avl_tree_height r) + 1
         else max (avl_tree_height l') (avl_tree_height r) \<le> avl_tree_height t \<and>
           avl_tree_height t \<le> max (avl_tree_height l') (avl_tree_height r) + 1)"
      by blast
    have "filter (\<lambda>a. key a \<le> key x) (inorder r) = []" "filter (\<lambda>a. key x < key a) (inorder r) = inorder r"
      using True ord(2) by (auto simp: filter_empty_conv filter_id_conv)
    with True t l' b show ?thesis by (auto split: if_splits)
  next
    case False
    obtain r' where r': "avl_insert_recur (cmp_by key) x r = Inr r'" "avl r'"
        "inorder r' = filter (\<lambda>a. key a \<le> key x) (inorder r) @ x # filter (\<lambda>a. key x < key a) (inorder r)"
        "avl_tree_height r \<le> avl_tree_height r'" "avl_tree_height r' \<le> avl_tree_height r + 1"
      using Node.IH(2) [OF sub(2,4)] by blast
    have "\<bar>avl_tree_height r' - avl_tree_height l\<bar> \<le> 2" using b r'(4,5) by linarith
    from avl_rebalance_avl [OF sub(1) r'(2) this, of a h] obtain t where
      t: "avl_rebalance (Node l a r' h) = Inr t" "avl t" "inorder t = inorder l @ a # inorder r'"
        "(if \<bar>avl_tree_height r' - avl_tree_height l\<bar> \<le> 1
         then avl_tree_height t = max (avl_tree_height l) (avl_tree_height r') + 1
         else max (avl_tree_height l) (avl_tree_height r') \<le> avl_tree_height t \<and>
           avl_tree_height t \<le> max (avl_tree_height l) (avl_tree_height r') + 1)"
      by blast
    have "filter (\<lambda>a. key a \<le> key x) (inorder l) = inorder l" "filter (\<lambda>a. key x < key a) (inorder l) = []"
      using False ord(1) by (auto simp: filter_empty_conv filter_id_conv)
    with False t r' b show ?thesis by (auto split: if_splits)
  qed
qed

section \<open>Erasure\<close>

lemma avl_erase_min_ok:
  "heights t \<Longrightarrow> t \<noteq> Leaf \<Longrightarrow>
    \<exists>t' b. avl_erase_min t = Inr (t', Some b) \<and> heights t' \<and> inorder t = b # inorder t'"
proof (induction t)
  case (Node l a r h)
  show ?case
  proof (cases "l = Leaf")
    case True
    with Node.prems show ?thesis by (cases r) (auto simp: Let_def)
  next
    case False
    with Node obtain l' b where "avl_erase_min l = Inr (l', Some b)" "heights l'" "inorder l = b # inorder l'"
      by auto
    with False Node.prems show ?thesis by (auto simp: Let_def)
  qed
qed simp

lemma avl_erase_ok:
  assumes "heights t" and "sorted_wrt (<) (map key (inorder t))"
  shows "\<exists>t'. avl_erase_recur (cmp_by key) x t = Inr t' \<and> heights t' \<and>
    inorder t' = filter (\<lambda>a. key a \<noteq> key x) (inorder t)"
  using assms
proof (induction t)
  case (Node l a r h)
  have sub: "heights l" "heights r" "sorted_wrt (<) (map key (inorder l))" "sorted_wrt (<) (map key (inorder r))"
    and ord: "\<forall>y \<in> set (inorder l). key y < key a" "\<forall>y \<in> set (inorder r). key a < key y"
    using Node.prems by (auto simp: sorted_wrt_append)
  consider "key x < key a" | "key a < key x" | "key x = key a" by fastforce
  then show ?case
  proof cases
    case 1
    obtain l' where l': "avl_erase_recur (cmp_by key) x l = Inr l'" "heights l'"
        "inorder l' = filter (\<lambda>a. key a \<noteq> key x) (inorder l)"
      using Node.IH(1) [OF sub(1,3)] by blast
    moreover have "filter (\<lambda>a. key a \<noteq> key x) (inorder r) = inorder r"
      using 1 ord(2) by (auto simp: filter_id_conv)
    ultimately show ?thesis
      using 1 avl_rebalance_heights [OF l'(2) sub(2), of a h] by auto
  next
    case 2
    obtain r' where r': "avl_erase_recur (cmp_by key) x r = Inr r'" "heights r'"
        "inorder r' = filter (\<lambda>a. key a \<noteq> key x) (inorder r)"
      using Node.IH(2) [OF sub(2,4)] by blast
    moreover have "filter (\<lambda>a. key a \<noteq> key x) (inorder l) = inorder l"
      using 2 ord(1) by (auto simp: filter_id_conv)
    ultimately show ?thesis
      using 2 avl_rebalance_heights [OF sub(1) r'(2), of a h] by auto
  next
    case 3
    have f: "filter (\<lambda>a. key a \<noteq> key x) (inorder l) = inorder l" "filter (\<lambda>a. key a \<noteq> key x) (inorder r) = inorder r"
      using 3 ord by (auto simp: filter_id_conv)
    consider "l = Leaf" "r = Leaf" | "l = Leaf" "r \<noteq> Leaf" | "l \<noteq> Leaf" "r = Leaf" | "l \<noteq> Leaf" "r \<noteq> Leaf" by blast
    then show ?thesis
    proof cases
      case 4
      obtain r' b where r': "avl_erase_min r = Inr (r', Some b)" "heights r'" "inorder r = b # inorder r'"
        using avl_erase_min_ok [OF sub(2)] 4 by blast
      with 3 4 f avl_rebalance_heights [OF sub(1) r'(2), of b h] show ?thesis by auto
    next
      case 2
      then obtain rl b rr hr where r: "r = Node rl b rr hr" by (cases r) auto
      with 2 3 f sub(2) avl_rebalance_heights [of rl rr b hr] show ?thesis by auto
    next
      case c: 3
      then obtain ll b lr hl where l: "l = Node ll b lr hl" by (cases l) auto
      with c 3 f sub(1) avl_rebalance_heights [of ll lr b hl] show ?thesis by auto
    qed (use 3 in auto)
  qed
qed simp

end
