(* ===== verification/Avl_Iter.thy ===== *)
theory Avl_Iter
  imports Avl
begin

text \<open>
  The iterators of \<open>include/lyos/avl.h\<close>: a path of at most \<open>AVL_MAX_DEPTH\<close> nodes below the
  root and a word with one bit per level that says in which direction the path goes.
\<close>

unbundle bit_operations_syntax

section \<open>Operations\<close>

abbreviation AVL_MAX_DEPTH :: nat where "AVL_MAX_DEPTH \<equiv> 32"
abbreviation AVL_LESS :: u32 where "AVL_LESS \<equiv> 0x1"
abbreviation AVL_EQUAL :: u32 where "AVL_EQUAL \<equiv> 0x2"
abbreviation AVL_GREATER :: u32 where "AVL_GREATER \<equiv> 0x4"
abbreviation AVL_LESS_EQUAL :: u32 where "AVL_LESS_EQUAL \<equiv> 0x3"
abbreviation AVL_GREATER_EQUAL :: u32 where "AVL_GREATER_EQUAL \<equiv> 0x6"

text \<open>The depth is \<open>None\<close> for \<open>~0\<close>, the iterator that points nowhere.\<close>

record 'a avl_iter =
  root :: "'a avl"
  depth :: "nat option"
  branch :: u64
  path :: "'a avl list"

text \<open>\<open>1 << d\<close> is an \<open>int\<close>, extended to \<open>unsigned long\<close> with its sign.\<close>

definition level_bit :: "nat \<Rightarrow> u64" where
  "level_bit d = scast (push_bit d (1 :: u32))"

definition go_left :: "nat \<Rightarrow> 'a avl_iter \<Rightarrow> 'a avl_iter" where
  "go_left d it = it\<lparr>branch := branch it AND NOT (level_bit d)\<rparr>"

definition go_right :: "nat \<Rightarrow> 'a avl_iter \<Rightarrow> 'a avl_iter" where
  "go_right d it = it\<lparr>branch := branch it OR level_bit d\<rparr>"

text \<open>\<open>iter->path[d] = cur\<close>.\<close>

definition put_path :: "nat \<Rightarrow> 'a avl \<Rightarrow> 'a avl_iter \<Rightarrow> 'a avl_iter res" where
  "put_path d t it =
     (if d < AVL_MAX_DEPTH then Inr (it\<lparr>path := (path it)[d := t]\<rparr>) else Inl OutOfBounds)"

fun start_walk :: "('a \<Rightarrow> int) \<Rightarrow> u32 \<Rightarrow> int \<Rightarrow> 'a avl \<Rightarrow> nat \<Rightarrow> 'a avl_iter \<Rightarrow> 'a avl_iter res" where
  "start_walk kn fl target Leaf d it = Inl NullDeref"
| "start_walk kn fl target (Node l a r h) d it =
     (if kn a = 0 \<and> has_flag fl AVL_EQUAL then Inr (it\<lparr>depth := Some d\<rparr>)
      else
        let cmp = (if kn a = 0 then - target else kn a);
            it = (if target \<noteq> 0 \<and> target = cmp then it\<lparr>depth := Some d\<rparr> else it)
        in if cmp < 0 then
             if l = Leaf then Inr it
             else bind_res (put_path d l (go_left d it)) (start_walk kn fl target l (d + 1))
           else
             if r = Leaf then Inr it
             else bind_res (put_path d r (go_right d it)) (start_walk kn fl target r (d + 1)))"

definition avl_start_iter :: "('a \<Rightarrow> int) \<Rightarrow> 'a avl \<Rightarrow> u32 \<Rightarrow> 'a avl list \<Rightarrow> 'a avl_iter res" where
  "avl_start_iter kn t fl junk =
     (let it = \<lparr>root = t, depth = None, branch = 0, path = junk\<rparr>;
          target = (if has_flag fl AVL_LESS then 1 else if has_flag fl AVL_GREATER then -1 else 0)
      in if t = Leaf then Inr it else start_walk kn fl target t 0 it)"

definition node_at :: "'a avl_iter \<Rightarrow> nat \<Rightarrow> 'a avl" where
  "node_at it d = (if d = 0 then root it else path it ! (d - 1))"

definition avl_get_iter :: "'a avl_iter \<Rightarrow> 'a avl" where
  "avl_get_iter it = (case depth it of None \<Rightarrow> Leaf | Some d \<Rightarrow> node_at it d)"

text \<open>\<open>do \<dots> while (iter->branch & (1 << iter->depth))\<close>, and with the negated condition for \<open>dec\<close>.\<close>

fun climb :: "bool \<Rightarrow> nat \<Rightarrow> 'a avl_iter \<Rightarrow> 'a avl_iter" where
  "climb dir 0 it = it\<lparr>depth := None\<rparr>"
| "climb dir (Suc d) it =
     (if (branch it AND level_bit d \<noteq> 0) = dir then climb dir d it else it\<lparr>depth := Some d\<rparr>)"

fun descend_left :: "'a avl \<Rightarrow> nat \<Rightarrow> 'a avl_iter \<Rightarrow> 'a avl_iter res" where
  "descend_left Leaf d it = Inr (it\<lparr>depth := Some d\<rparr>)"
| "descend_left (Node l a r h) d it =
     (if l = Leaf then Inr (it\<lparr>depth := Some d\<rparr>)
      else bind_res (put_path d l (go_left d it)) (descend_left l (d + 1)))"

fun descend_right :: "'a avl \<Rightarrow> nat \<Rightarrow> 'a avl_iter \<Rightarrow> 'a avl_iter res" where
  "descend_right Leaf d it = Inr (it\<lparr>depth := Some d\<rparr>)"
| "descend_right (Node l a r h) d it =
     (if r = Leaf then Inr (it\<lparr>depth := Some d\<rparr>)
      else bind_res (put_path d r (go_right d it)) (descend_right r (d + 1)))"

definition avl_inc_iter :: "'a avl_iter \<Rightarrow> 'a avl_iter res" where
  "avl_inc_iter it =
     (case depth it of
        None \<Rightarrow> Inr it
      | Some d \<Rightarrow>
          (case node_at it d of
             Leaf \<Rightarrow> Inl NullDeref
           | Node l a r h \<Rightarrow>
               if r = Leaf then Inr (climb True d it)
               else bind_res (put_path d r (go_right d it)) (descend_left r (d + 1))))"

definition avl_dec_iter :: "'a avl_iter \<Rightarrow> 'a avl_iter res" where
  "avl_dec_iter it =
     (case depth it of
        None \<Rightarrow> Inr it
      | Some d \<Rightarrow>
          (case node_at it d of
             Leaf \<Rightarrow> Inl NullDeref
           | Node l a r h \<Rightarrow>
               if l = Leaf then Inr (climb False d it)
               else bind_res (put_path d l (go_left d it)) (descend_right l (d + 1))))"

section \<open>Paths\<close>

text \<open>The node reached from a tree by a list of directions (\<open>True\<close> is right).\<close>

fun node_on :: "'a avl \<Rightarrow> bool list \<Rightarrow> 'a avl" where
  "node_on t [] = t"
| "node_on Leaf (b # bs) = Leaf"
| "node_on (Node l a r h) (b # bs) = node_on (if b then r else l) bs"

text \<open>The entries before and after the subtree at the end of a path.\<close>

fun before :: "'a avl \<Rightarrow> bool list \<Rightarrow> 'a list" where
  "before (Node l a r h) (b # bs) = (if b then inorder l @ a # before r bs else before l bs)"
| "before _ _ = []"

fun after :: "'a avl \<Rightarrow> bool list \<Rightarrow> 'a list" where
  "after (Node l a r h) (b # bs) = (if b then after r bs else after l bs @ a # inorder r)"
| "after _ _ = []"

lemma node_on_Leaf [simp]: "node_on Leaf bs = Leaf"
  by (cases bs) auto

lemma before_Leaf [simp]: "before Leaf bs = []" "before t [] = []" "after Leaf bs = []" "after t [] = []"
  by (cases bs; simp) (cases t; simp)+

lemma node_on_append: "node_on t (bs @ cs) = node_on (node_on t bs) cs"
  by (induction t bs rule: node_on.induct) auto

lemma before_append: "before t (bs @ cs) = before t bs @ before (node_on t bs) cs"
  by (induction t bs rule: node_on.induct) auto

lemma after_append: "after t (bs @ cs) = after (node_on t bs) cs @ after t bs"
  by (induction t bs rule: node_on.induct) auto

lemma inorder_on: "inorder t = before t bs @ inorder (node_on t bs) @ after t bs"
  by (induction t bs rule: node_on.induct) auto

lemma path_height: "heights t \<Longrightarrow> node_on t bs \<noteq> Leaf \<Longrightarrow>
    int (length bs) + avl_tree_height (node_on t bs) \<le> avl_tree_height t"
proof (induction t bs rule: node_on.induct)
  case (3 l a r h b bs)
  then show ?case by (cases b) auto
qed auto

lemma heights_on: "heights t \<Longrightarrow> heights (node_on t bs)"
  by (induction t bs rule: node_on.induct) auto

text \<open>The path and the branch bits of an iterator describe the directions \<open>bs\<close>.\<close>

definition on_path :: "'a avl_iter \<Rightarrow> bool list \<Rightarrow> bool" where
  "on_path it bs \<longleftrightarrow> length bs < AVL_MAX_DEPTH \<and> length (path it) = AVL_MAX_DEPTH \<and>
     (\<forall>d < length bs. (branch it AND level_bit d \<noteq> 0) = bs ! d \<and>
        path it ! d = node_on (root it) (take (d + 1) bs))"

text \<open>The iterator stands on \<open>a\<close>, with \<open>xs\<close> before it and \<open>ys\<close> after it.\<close>

definition cursor :: "'a avl_iter \<Rightarrow> 'a list \<Rightarrow> 'a \<Rightarrow> 'a list \<Rightarrow> bool" where
  "cursor it xs a ys \<longleftrightarrow> heights (root it) \<and> avl_tree_height (root it) < int AVL_MAX_DEPTH \<and>
     (\<exists>bs l r h. depth it = Some (length bs) \<and> on_path it bs \<and> node_on (root it) bs = Node l a r h \<and>
        xs = before (root it) bs @ inorder l \<and> ys = inorder r @ after (root it) bs)"

lemma level_bit_bit: "d < 31 \<Longrightarrow> bit (level_bit d) n \<longleftrightarrow> n = d"
  by (auto simp: level_bit_def bit_simps)

lemma test_level: "d < 31 \<Longrightarrow> w AND level_bit d \<noteq> 0 \<longleftrightarrow> bit w d"
proof -
  assume "d < 31"
  then have "level_bit d = push_bit d 1" by (auto simp: bit_eq_iff level_bit_bit bit_simps)
  then show ?thesis by (simp add: bit_iff_and_push_bit_not_eq_0)
qed

lemma set_level:
  assumes "d < 31" and "e < 31"
  shows "(branch (go_right d it) AND level_bit e \<noteq> 0) \<longleftrightarrow> e = d \<or> branch it AND level_bit e \<noteq> 0"
    and "(branch (go_left d it) AND level_bit e \<noteq> 0) \<longleftrightarrow> e \<noteq> d \<and> branch it AND level_bit e \<noteq> 0"
  using assms unfolding test_level [OF assms(1)] test_level [OF assms(2)]
  by (auto simp: go_right_def go_left_def bit_simps level_bit_bit)

lemma go_simps [simp]:
  "root (go_left d it) = root it" "path (go_left d it) = path it" "depth (go_left d it) = depth it"
  "root (go_right d it) = root it" "path (go_right d it) = path it" "depth (go_right d it) = depth it"
  by (simp_all add: go_left_def go_right_def)

text \<open>One more step down.\<close>

lemma step_down:
  assumes "on_path it bs" and "length bs < 31"
  shows "\<exists>it'. put_path (length bs) (node_on (root it) (bs @ [b]))
      (if b then go_right (length bs) it else go_left (length bs) it) = Inr it' \<and>
    root it' = root it \<and> depth it' = depth it \<and> on_path it' (bs @ [b])"
proof -
  define g where "g = (if b then go_right (length bs) it else go_left (length bs) it)"
  define it' where "it' = g\<lparr>path := (path g)[length bs := node_on (root it) (bs @ [b])]\<rparr>"
  have g: "root g = root it" "path g = path it" "depth g = depth it" by (simp_all add: g_def)
  have "put_path (length bs) (node_on (root it) (bs @ [b])) g = Inr it'"
    using assms(2) by (simp add: put_path_def it'_def)
  moreover have "on_path it' (bs @ [b])"
    unfolding on_path_def
  proof (intro conjI allI impI)
    fix d assume "d < length (bs @ [b])"
    then consider "d < length bs" | "d = length bs" by fastforce
    then show "(branch it' AND level_bit d \<noteq> 0) = (bs @ [b]) ! d"
      using assms by cases (auto simp: it'_def g_def set_level nth_append on_path_def)
    from \<open>d < length (bs @ [b])\<close> consider "d < length bs" | "d = length bs" by fastforce
    then show "path it' ! d = node_on (root it') (take (d + 1) (bs @ [b]))"
      using assms by cases (auto simp: it'_def g on_path_def)
  qed (use assms in \<open>auto simp: it'_def g on_path_def\<close>)
  ultimately show ?thesis by (auto simp: g_def [symmetric] it'_def g)
qed

lemma on_path_upd [simp]: "on_path (it\<lparr>depth := d\<rparr>) bs = on_path it bs"
  by (simp add: on_path_def)

lemma on_path_prefix: "on_path it (bs @ cs) \<Longrightarrow> on_path it bs"
  by (auto simp: on_path_def nth_append)

lemma on_path_node: "on_path it bs \<Longrightarrow> node_at it (length bs) = node_on (root it) bs"
  by (cases bs rule: rev_cases) (auto simp: node_at_def on_path_def)

section \<open>Stepping\<close>

lemma descend_left_ok:
  assumes "on_path it bs" and "node_on (root it) bs = t" and "t \<noteq> Leaf" and "heights t"
    and "int (length bs) + avl_tree_height t \<le> 31"
  shows "\<exists>it' cs a r h. descend_left t (length bs) it = Inr it' \<and> root it' = root it \<and>
    depth it' = Some (length (bs @ cs)) \<and> on_path it' (bs @ cs) \<and>
    node_on t cs = Node Leaf a r h \<and> inorder t = a # inorder r @ after t cs"
  using assms
proof (induction t arbitrary: it bs)
  case (Node l a r h)
  show ?case
  proof (cases "l = Leaf")
    case True
    with Node.prems show ?thesis by (auto intro!: exI [of _ "[]"])
  next
    case False
    have "length bs < 31" "0 < avl_tree_height l"
      using Node.prems(4,5) False height_pos [of l] by auto
    with step_down [OF Node.prems(1) this(1), of False] Node.prems(2) obtain it1 where
      it1: "put_path (length bs) l (go_left (length bs) it) = Inr it1" "root it1 = root it" "on_path it1 (bs @ [False])"
      by (auto simp: node_on_append)
    have "\<exists>it' cs a r h. descend_left l (length (bs @ [False])) it1 = Inr it' \<and> root it' = root it1 \<and>
        depth it' = Some (length ((bs @ [False]) @ cs)) \<and> on_path it' ((bs @ [False]) @ cs) \<and>
        node_on l cs = Node Leaf a r h \<and> inorder l = a # inorder r @ after l cs"
      using Node.prems it1 False by (intro Node.IH(1)) (auto simp: node_on_append)
    then obtain it' cs b r' h' where
      "descend_left l (length bs + 1) it1 = Inr it'" "root it' = root it"
      "depth it' = Some (length (bs @ False # cs))" "on_path it' (bs @ False # cs)"
      "node_on l cs = Node Leaf b r' h'" "inorder l = b # inorder r' @ after l cs"
      using it1(2) by auto
    then show ?thesis using it1 False by (intro exI [of _ it'] exI [of _ "False # cs"]) auto
  qed
qed simp

lemma descend_right_ok:
  assumes "on_path it bs" and "node_on (root it) bs = t" and "t \<noteq> Leaf" and "heights t"
    and "int (length bs) + avl_tree_height t \<le> 31"
  shows "\<exists>it' cs a l h. descend_right t (length bs) it = Inr it' \<and> root it' = root it \<and>
    depth it' = Some (length (bs @ cs)) \<and> on_path it' (bs @ cs) \<and>
    node_on t cs = Node l a Leaf h \<and> inorder t = before t cs @ inorder l @ [a]"
  using assms
proof (induction t arbitrary: it bs)
  case (Node l a r h)
  show ?case
  proof (cases "r = Leaf")
    case True
    with Node.prems show ?thesis by (auto intro!: exI [of _ "[]"])
  next
    case False
    have "length bs < 31" "0 < avl_tree_height r"
      using Node.prems(4,5) False height_pos [of r] by auto
    with step_down [OF Node.prems(1) this(1), of True] Node.prems(2) obtain it1 where
      it1: "put_path (length bs) r (go_right (length bs) it) = Inr it1" "root it1 = root it" "on_path it1 (bs @ [True])"
      by (auto simp: node_on_append)
    have "\<exists>it' cs a l h. descend_right r (length (bs @ [True])) it1 = Inr it' \<and> root it' = root it1 \<and>
        depth it' = Some (length ((bs @ [True]) @ cs)) \<and> on_path it' ((bs @ [True]) @ cs) \<and>
        node_on r cs = Node l a Leaf h \<and> inorder r = before r cs @ inorder l @ [a]"
      using Node.prems it1 False by (intro Node.IH(2)) (auto simp: node_on_append)
    then obtain it' cs b l' h' where
      "descend_right r (length bs + 1) it1 = Inr it'" "root it' = root it"
      "depth it' = Some (length (bs @ True # cs))" "on_path it' (bs @ True # cs)"
      "node_on r cs = Node l' b Leaf h'" "inorder r = before r cs @ inorder l' @ [b]"
      using it1(2) by auto
    then show ?thesis using it1 False by (intro exI [of _ it'] exI [of _ "True # cs"]) auto
  qed
qed simp

text \<open>Climbing stops at the nearest ancestor the path left in the other direction.\<close>

lemma climb_ok:
  assumes "on_path it bs"
  shows "(bs = replicate (length bs) dir \<and> climb dir (length bs) it = it\<lparr>depth := None\<rparr>) \<or>
    (\<exists>cs n. bs = cs @ (\<not> dir) # replicate n dir \<and> climb dir (length bs) it = it\<lparr>depth := Some (length cs)\<rparr>)"
  using assms
proof (induction bs rule: rev_induct)
  case (snoc b bs)
  have b: "(branch it AND level_bit (length bs) \<noteq> 0) = b"
    using snoc.prems by (auto simp: on_path_def dest!: spec [of _ "length bs"])
  show ?case
  proof (cases "b = dir")
    case True
    then have c: "climb dir (length (bs @ [b])) it = climb dir (length bs) it" using b by simp
    from snoc.IH [OF on_path_prefix [OF snoc.prems]] show ?thesis
    proof (elim disjE exE conjE)
      assume *: "bs = replicate (length bs) dir" "climb dir (length bs) it = it\<lparr>depth := None\<rparr>"
      have "bs @ [b] = replicate (length bs) dir @ [dir]" using * True by simp
      then have "bs @ [b] = replicate (length (bs @ [b])) dir" by (simp add: replicate_append_same)
      with c * show ?thesis by simp
    next
      fix cs n
      assume *: "bs = cs @ (\<not> dir) # replicate n dir" "climb dir (length bs) it = it\<lparr>depth := Some (length cs)\<rparr>"
      have "bs @ [b] = cs @ (\<not> dir) # replicate (Suc n) dir" using * True by (simp add: replicate_append_same)
      with c * show ?thesis by (intro disjI2 exI [of _ cs] exI [of _ "Suc n"]) simp
    qed
  next
    case False
    with b have "climb dir (length (bs @ [b])) it = it\<lparr>depth := Some (length bs)\<rparr>" by simp
    with False show ?thesis by (intro disjI2 exI [of _ bs] exI [of _ 0]) auto
  qed
qed simp

lemma after_right: "after t (replicate n True) = []"
proof (induction n arbitrary: t)
  case (Suc n)
  then show ?case by (cases t) auto
qed simp

lemma before_left: "before t (replicate n False) = []"
proof (induction n arbitrary: t)
  case (Suc n)
  then show ?case by (cases t) auto
qed simp

lemma cursor_inorder:
  assumes "cursor it xs a ys"
  shows "inorder (root it) = xs @ a # ys"
proof -
  obtain bs l r h where "node_on (root it) bs = Node l a r h" "xs = before (root it) bs @ inorder l"
      "ys = inorder r @ after (root it) bs"
    using assms by (auto simp: cursor_def)
  then show ?thesis using inorder_on [of "root it" bs] by simp
qed

lemma node_on_child:
  assumes "node_on t (cs @ b # ds) \<noteq> Leaf"
  shows "\<exists>l a r h. node_on t cs = Node l a r h"
  using assms by (cases "node_on t cs") (auto simp: node_on_append)

lemma avl_inc_ok:
  assumes "cursor it xs a ys"
  shows "\<exists>it'. avl_inc_iter it = Inr it' \<and> root it' = root it \<and>
    (if ys = [] then depth it' = None else cursor it' (xs @ [a]) (hd ys) (tl ys))"
proof -
  obtain bs l r h where it: "heights (root it)" "avl_tree_height (root it) < 32"
      "depth it = Some (length bs)" "on_path it bs" "node_on (root it) bs = Node l a r h"
      "xs = before (root it) bs @ inorder l" "ys = inorder r @ after (root it) bs"
    using assms by (auto simp: cursor_def)
  have len: "length bs < 31" "heights r" "int (length bs) + avl_tree_height r \<le> 30"
    using it(2) path_height [OF it(1), of bs] heights_on [OF it(1), of bs] it(5)
      height_nonneg [of l] height_nonneg [of r] by auto
  have inc: "avl_inc_iter it = (if r = Leaf then Inr (climb True (length bs) it)
      else bind_res (put_path (length bs) r (go_right (length bs) it)) (descend_left r (length bs + 1)))"
    using it(3,5) on_path_node [OF it(4)] by (simp add: avl_inc_iter_def)
  show ?thesis
  proof (cases "r = Leaf")
    case True
    consider "bs = replicate (length bs) True" "climb True (length bs) it = it\<lparr>depth := None\<rparr>"
      | cs n where "bs = cs @ False # replicate n True" "climb True (length bs) it = it\<lparr>depth := Some (length cs)\<rparr>"
      using climb_ok [OF it(4), of True] by auto
    then show ?thesis
    proof cases
      case 1
      with True it(7) have "ys = []" using after_right [of "root it" "length bs"] by simp
      with 1 True inc show ?thesis by simp
    next
      case 2
      obtain l' a' r' h' where n: "node_on (root it) cs = Node l' a' r' h'"
        using node_on_child [of "root it" cs False "replicate n True"] it(5) 2(1) by auto
      have ys: "ys = a' # inorder r' @ after (root it) cs"
        using True it(7) n after_right by (simp add: 2(1) after_append)
      have "xs @ [a] = before (root it) cs @ inorder l'"
        using cursor_inorder [OF assms] inorder_on [of "root it" cs] ys n by simp
      then have "cursor (it\<lparr>depth := Some (length cs)\<rparr>) (xs @ [a]) (hd ys) (tl ys)"
        using it(1,2,4) ys n on_path_prefix [of it cs "False # replicate n True"] 2(1)
        by (auto simp: cursor_def)
      with True inc 2(2) ys show ?thesis by simp
    qed
  next
    case False
    obtain it1 where it1: "put_path (length bs) r (go_right (length bs) it) = Inr it1" "root it1 = root it"
        "on_path it1 (bs @ [True])"
      using step_down [OF it(4) len(1), of True] it(5) by (auto simp: node_on_append)
    have "node_on (root it1) (bs @ [True]) = r" using it(5) it1(2) by (simp add: node_on_append)
    from descend_left_ok [OF it1(3) this False len(2)] len(3) obtain it' cs b r' h' where
      it': "descend_left r (length bs + 1) it1 = Inr it'" "root it' = root it" "depth it' = Some (length (bs @ True # cs))"
        "on_path it' (bs @ True # cs)" "node_on r cs = Node Leaf b r' h'" "inorder r = b # inorder r' @ after r cs"
      using it1(2) by auto
    have n: "node_on (root it) (bs @ True # cs) = Node Leaf b r' h'" using it(5) it'(5) by (simp add: node_on_append)
    have ys: "ys = b # inorder r' @ after (root it) (bs @ True # cs)"
      using it(5,7) it'(6) by (simp add: after_append)
    have "xs @ [a] = before (root it) (bs @ True # cs)"
      using cursor_inorder [OF assms] inorder_on [of "root it" "bs @ True # cs"] ys n by simp
    then have "cursor it' (xs @ [a]) (hd ys) (tl ys)"
      using it(1,2) it' ys n unfolding cursor_def
      by (intro conjI exI [of _ "bs @ True # cs"] exI [of _ Leaf] exI [of _ r'] exI [of _ h']) auto
    with False inc it1(1) it' ys show ?thesis by simp
  qed
qed

lemma avl_dec_ok:
  assumes "cursor it xs a ys"
  shows "\<exists>it'. avl_dec_iter it = Inr it' \<and> root it' = root it \<and>
    (if xs = [] then depth it' = None else cursor it' (butlast xs) (last xs) (a # ys))"
proof -
  obtain bs l r h where it: "heights (root it)" "avl_tree_height (root it) < 32"
      "depth it = Some (length bs)" "on_path it bs" "node_on (root it) bs = Node l a r h"
      "xs = before (root it) bs @ inorder l" "ys = inorder r @ after (root it) bs"
    using assms by (auto simp: cursor_def)
  have len: "length bs < 31" "heights l" "int (length bs) + avl_tree_height l \<le> 30"
    using it(2) path_height [OF it(1), of bs] heights_on [OF it(1), of bs] it(5)
      height_nonneg [of l] height_nonneg [of r] by auto
  have dec: "avl_dec_iter it = (if l = Leaf then Inr (climb False (length bs) it)
      else bind_res (put_path (length bs) l (go_left (length bs) it)) (descend_right l (length bs + 1)))"
    using it(3,5) on_path_node [OF it(4)] by (simp add: avl_dec_iter_def)
  show ?thesis
  proof (cases "l = Leaf")
    case True
    consider "bs = replicate (length bs) False" "climb False (length bs) it = it\<lparr>depth := None\<rparr>"
      | cs n where "bs = cs @ True # replicate n False" "climb False (length bs) it = it\<lparr>depth := Some (length cs)\<rparr>"
      using climb_ok [OF it(4), of False] by auto
    then show ?thesis
    proof cases
      case 1
      with True it(6) have "xs = []" using before_left [of "root it" "length bs"] by simp
      with 1 True dec show ?thesis by simp
    next
      case 2
      obtain l' a' r' h' where n: "node_on (root it) cs = Node l' a' r' h'"
        using node_on_child [of "root it" cs True "replicate n False"] it(5) 2(1) by auto
      have xs: "xs = (before (root it) cs @ inorder l') @ [a']"
        using True it(6) n before_left by (simp add: 2(1) before_append)
      have bl: "butlast xs = before (root it) cs @ inorder l'" "last xs = a'"
        unfolding xs by (rule butlast_snoc, rule last_snoc)
      have "a # ys = inorder r' @ after (root it) cs"
        using cursor_inorder [OF assms] inorder_on [of "root it" cs] xs n by simp
      then have "cursor (it\<lparr>depth := Some (length cs)\<rparr>) (butlast xs) (last xs) (a # ys)"
        using it(1,2,4) bl n on_path_prefix [of it cs "True # replicate n False"] 2(1)
        by (auto simp: cursor_def)
      with True dec 2(2) xs show ?thesis by simp
    qed
  next
    case False
    obtain it1 where it1: "put_path (length bs) l (go_left (length bs) it) = Inr it1" "root it1 = root it"
        "on_path it1 (bs @ [False])"
      using step_down [OF it(4) len(1), of False] it(5) by (auto simp: node_on_append)
    have "node_on (root it1) (bs @ [False]) = l" using it(5) it1(2) by (simp add: node_on_append)
    from descend_right_ok [OF it1(3) this False len(2)] len(3) obtain it' cs b l' h' where
      it': "descend_right l (length bs + 1) it1 = Inr it'" "root it' = root it" "depth it' = Some (length (bs @ False # cs))"
        "on_path it' (bs @ False # cs)" "node_on l cs = Node l' b Leaf h'" "inorder l = before l cs @ inorder l' @ [b]"
      using it1(2) by auto
    have n: "node_on (root it) (bs @ False # cs) = Node l' b Leaf h'" using it(5) it'(5) by (simp add: node_on_append)
    have xs: "xs = (before (root it) (bs @ False # cs) @ inorder l') @ [b]"
      using it(5,6) it'(6) by (simp add: before_append)
    have bl: "butlast xs = before (root it) (bs @ False # cs) @ inorder l'" "last xs = b"
      unfolding xs by (rule butlast_snoc, rule last_snoc)
    have "a # ys = after (root it) (bs @ False # cs)"
      using cursor_inorder [OF assms] inorder_on [of "root it" "bs @ False # cs"] xs n by simp
    then have "cursor it' (butlast xs) (last xs) (a # ys)"
      using it(1,2) it' bl n unfolding cursor_def
      by (intro conjI exI [of _ "bs @ False # cs"] exI [of _ l'] exI [of _ Leaf] exI [of _ h']) auto
    with False dec it1(1) it' xs show ?thesis by simp
  qed
qed

section \<open>Searching\<close>

text \<open>The comparison of a key with the entry of a node.\<close>

definition kn_by :: "('a \<Rightarrow> 'k::linorder) \<Rightarrow> 'k \<Rightarrow> 'a \<Rightarrow> int" where
  "kn_by key k a = (if k < key a then -1 else if key a < k then 1 else 0)"

lemma kn_by_cases [simp]:
  "k < key a \<Longrightarrow> kn_by key k a = -1" "key a < k \<Longrightarrow> kn_by key k a = 1" "key a = k \<Longrightarrow> kn_by key k a = 0"
  by (auto simp: kn_by_def)

text \<open>What the flags ask for.\<close>

definition wanted :: "('a \<Rightarrow> int) \<Rightarrow> u32 \<Rightarrow> int \<Rightarrow> 'a \<Rightarrow> bool" where
  "wanted kn fl target a \<longleftrightarrow> (kn a = 0 \<and> has_flag fl AVL_EQUAL) \<or> (target \<noteq> 0 \<and> kn a = target)"

text \<open>Of the wanted entries, the first one for \<open>target = -1\<close> and the last one for \<open>target = 1\<close>.\<close>

definition nearest :: "('a \<Rightarrow> int) \<Rightarrow> u32 \<Rightarrow> int \<Rightarrow> 'a list \<Rightarrow> 'a \<Rightarrow> 'a list \<Rightarrow> bool" where
  "nearest kn fl target xs a ys \<longleftrightarrow> wanted kn fl target a \<and>
     (target = -1 \<longrightarrow> (\<forall>x \<in> set xs. \<not> wanted kn fl target x)) \<and>
     (target = 1 \<longrightarrow> (\<forall>y \<in> set ys. \<not> wanted kn fl target y))"

text \<open>A walk below \<open>t\<close>, the subtree at \<open>bs\<close>, ends at the nearest wanted entry of \<open>t\<close> or changes nothing.\<close>

definition walked :: "('a \<Rightarrow> int) \<Rightarrow> u32 \<Rightarrow> int \<Rightarrow> 'a avl \<Rightarrow> bool list \<Rightarrow> nat option \<Rightarrow> 'a avl_iter \<Rightarrow> bool" where
  "walked kn fl target t bs d it' \<longleftrightarrow> (\<exists>cs. on_path it' (bs @ cs) \<and>
    ((\<forall>x \<in> set (inorder t). \<not> wanted kn fl target x) \<and> depth it' = d \<or>
     (\<exists>ds es l a r h. cs = ds @ es \<and> depth it' = Some (length (bs @ ds)) \<and> node_on t ds = Node l a r h \<and>
        nearest kn fl target (before t ds @ inorder l) a (inorder r @ after t ds))))"

lemma walked_found:
  assumes "on_path it' (bs @ ds @ es)" and "depth it' = Some (length (bs @ ds))" and "node_on t ds = Node l a r h"
    and "nearest kn fl target (before t ds @ inorder l) a (inorder r @ after t ds)"
  shows "walked kn fl target t bs d it'"
  unfolding walked_def using assms by blast

lemma walked_none:
  assumes "on_path it' (bs @ cs)" and "\<forall>x \<in> set (inorder t). \<not> wanted kn fl target x" and "depth it' = d"
  shows "walked kn fl target t bs d it'"
  unfolding walked_def using assms by blast

lemmas walked_here = walked_found [where ds = "[]" and es = "[]", simplified]

lemma walked_left:
  assumes "walked kn fl target l (bs @ [False]) (if target = -1 then Some (length bs) else d) it'"
    and "wanted kn fl target a \<longleftrightarrow> target = -1"
    and "target \<noteq> -1 \<Longrightarrow> \<forall>y \<in> set (inorder r). \<not> wanted kn fl target y"
  shows "walked kn fl target (Node l a r h) bs d it'"
proof -
  obtain cs where on: "on_path it' ((bs @ [False]) @ cs)" and
    res: "(\<forall>x \<in> set (inorder l). \<not> wanted kn fl target x) \<and> depth it' = (if target = -1 then Some (length bs) else d) \<or>
     (\<exists>ds es l' b r' h'. cs = ds @ es \<and> depth it' = Some (length ((bs @ [False]) @ ds)) \<and> node_on l ds = Node l' b r' h' \<and>
        nearest kn fl target (before l ds @ inorder l') b (inorder r' @ after l ds))"
    using assms(1) unfolding walked_def by (elim exE conjE)
  from res show ?thesis
  proof (elim disjE exE conjE)
    assume none: "\<forall>x \<in> set (inorder l). \<not> wanted kn fl target x" and
      dep: "depth it' = (if target = -1 then Some (length bs) else d)"
    show ?thesis
    proof (cases "target = -1")
      case True
      with none dep on assms(2) show ?thesis
        by (intro walked_found [of it' bs "[]" "False # cs" _ l a r h]) (auto simp: nearest_def)
    next
      case False
      with none dep on assms(2,3) show ?thesis
        by (intro walked_none [of it' bs "False # cs"]) auto
    qed
  next
    fix ds es l' b r' h'
    assume "cs = ds @ es" "depth it' = Some (length ((bs @ [False]) @ ds))" "node_on l ds = Node l' b r' h'"
      "nearest kn fl target (before l ds @ inorder l') b (inorder r' @ after l ds)"
    with on assms(2,3) show ?thesis
      by (intro walked_found [of it' bs "False # ds" es _ l' b r' h']) (auto simp: nearest_def)
  qed
qed

lemma walked_right:
  assumes "walked kn fl target r (bs @ [True]) (if target = 1 then Some (length bs) else d) it'"
    and "wanted kn fl target a \<longleftrightarrow> target = 1"
    and "target \<noteq> 1 \<Longrightarrow> \<forall>y \<in> set (inorder l). \<not> wanted kn fl target y"
  shows "walked kn fl target (Node l a r h) bs d it'"
proof -
  obtain cs where on: "on_path it' ((bs @ [True]) @ cs)" and
    res: "(\<forall>x \<in> set (inorder r). \<not> wanted kn fl target x) \<and> depth it' = (if target = 1 then Some (length bs) else d) \<or>
     (\<exists>ds es l' b r' h'. cs = ds @ es \<and> depth it' = Some (length ((bs @ [True]) @ ds)) \<and> node_on r ds = Node l' b r' h' \<and>
        nearest kn fl target (before r ds @ inorder l') b (inorder r' @ after r ds))"
    using assms(1) unfolding walked_def by (elim exE conjE)
  from res show ?thesis
  proof (elim disjE exE conjE)
    assume none: "\<forall>x \<in> set (inorder r). \<not> wanted kn fl target x" and
      dep: "depth it' = (if target = 1 then Some (length bs) else d)"
    show ?thesis
    proof (cases "target = 1")
      case True
      with none dep on assms(2) show ?thesis
        by (intro walked_found [of it' bs "[]" "True # cs" _ l a r h]) (auto simp: nearest_def)
    next
      case False
      with none dep on assms(2,3) show ?thesis
        by (intro walked_none [of it' bs "True # cs"]) auto
    qed
  next
    fix ds es l' b r' h'
    assume "cs = ds @ es" "depth it' = Some (length ((bs @ [True]) @ ds))" "node_on r ds = Node l' b r' h'"
      "nearest kn fl target (before r ds @ inorder l') b (inorder r' @ after r ds)"
    with on assms(2,3) show ?thesis
      by (intro walked_found [of it' bs "True # ds" es _ l' b r' h']) (auto simp: nearest_def)
  qed
qed

lemma start_walk_ok:
  assumes "on_path it bs" and "node_on (root it) bs = t" and "t \<noteq> Leaf" and "heights t"
    and "int (length bs) + avl_tree_height t \<le> 31"
    and "sorted_wrt (<) (map key (inorder t))" and "target \<in> {-1, 0, 1}"
  shows "\<exists>it'. start_walk (kn_by key k) fl target t (length bs) it = Inr it' \<and> root it' = root it \<and>
    walked (kn_by key k) fl target t bs (depth it) it'"
  using assms
proof (induction t arbitrary: it bs)
  case (Node l a r h)
  let ?kn = "kn_by key k"
  let ?cmp = "if ?kn a = 0 then - target else ?kn a"
  define it0 where "it0 = (if target \<noteq> 0 \<and> target = ?cmp then it\<lparr>depth := Some (length bs)\<rparr> else it)"
  have ord: "\<forall>y \<in> set (inorder l). key y < key a" "\<forall>y \<in> set (inorder r). key a < key y"
    and sub: "sorted_wrt (<) (map key (inorder l))" "sorted_wrt (<) (map key (inorder r))"
    using Node.prems(6) by (auto simp: sorted_wrt_append)
  have len: "length bs < 31" "heights l" "heights r" "int (length (bs @ [b])) + avl_tree_height l \<le> 31"
      "int (length (bs @ [b])) + avl_tree_height r \<le> 31" for b
    using Node.prems(4,5) height_nonneg [of l] height_nonneg [of r] by auto
  have it0: "on_path it0 bs" "root it0 = root it" using Node.prems(1) by (auto simp: it0_def)
  note down = step_down [OF it0(1) len(1)]
  show ?case
  proof (cases "?kn a = 0 \<and> has_flag fl AVL_EQUAL")
    case True
    then have "key a = k" by (auto simp: kn_by_def split: if_splits)
    with ord True have "nearest ?kn fl target (inorder l) a (inorder r)"
      by (auto simp: nearest_def wanted_def)
    then have "walked ?kn fl target (Node l a r h) bs (depth it) (it\<lparr>depth := Some (length bs)\<rparr>)"
      using Node.prems(1) by (intro walked_here) auto
    with True show ?thesis by auto
  next
    case ne: False
    have walk: "start_walk ?kn fl target (Node l a r h) (length bs) it =
        (if ?cmp < 0 then if l = Leaf then Inr it0
           else bind_res (put_path (length bs) l (go_left (length bs) it0)) (start_walk ?kn fl target l (length bs + 1))
         else if r = Leaf then Inr it0
           else bind_res (put_path (length bs) r (go_right (length bs) it0)) (start_walk ?kn fl target r (length bs + 1)))"
      unfolding start_walk.simps(2) if_not_P [OF ne] Let_def it0_def by (rule refl)
    show ?thesis
    proof (cases "?cmp < 0")
      case True
      then have le: "k < key a \<or> k = key a \<and> target = 1"
        using Node.prems(7) by (auto simp: kn_by_def split: if_splits)
      have w: "wanted ?kn fl target a \<longleftrightarrow> target = -1" "target \<noteq> -1 \<Longrightarrow> \<forall>y \<in> set (inorder r). \<not> wanted ?kn fl target y"
        and d: "depth it0 = (if target = -1 then Some (length bs) else depth it)"
        using ord(2) le ne Node.prems(7) by (auto simp: wanted_def kn_by_def it0_def)
      show ?thesis
      proof (cases "l = Leaf")
        case leaf: True
        have "start_walk ?kn fl target (Node l a r h) (length bs) it = Inr it0"
          unfolding walk if_P [OF True] using leaf by simp
        moreover have "walked ?kn fl target (Node l a r h) bs (depth it) it0"
        proof (cases "target = -1")
          case True
          with w(1) leaf d it0(1) show ?thesis by (intro walked_here) (auto simp: nearest_def)
        next
          case False
          with w leaf d it0(1) show ?thesis by (intro walked_none [of _ _ "[]"]) auto
        qed
        ultimately show ?thesis using it0(2) by blast
      next
        case False
        obtain it1 where it1: "put_path (length bs) l (go_left (length bs) it0) = Inr it1" "root it1 = root it"
            "depth it1 = depth it0" "on_path it1 (bs @ [False])"
          using down [of False] Node.prems(2) it0(2) by (auto simp: node_on_append)
        have "\<exists>it'. start_walk ?kn fl target l (length (bs @ [False])) it1 = Inr it' \<and> root it' = root it1 \<and>
            walked ?kn fl target l (bs @ [False]) (depth it1) it'"
          using it1 Node.prems(2,7) len(2,4) sub(1) False
          by (intro Node.IH(1)) (auto simp: node_on_append)
        then obtain it' where it': "start_walk ?kn fl target l (length bs + 1) it1 = Inr it'" "root it' = root it"
            "walked ?kn fl target l (bs @ [False]) (if target = -1 then Some (length bs) else depth it) it'"
          using it1 d by auto
        have "start_walk ?kn fl target (Node l a r h) (length bs) it = Inr it'"
          unfolding walk if_P [OF True] using False it1(1) it'(1) by simp
        with it'(2) walked_left [OF it'(3) w] show ?thesis by blast
      qed
    next
      case gt: False
      then have ge: "key a < k \<or> k = key a \<and> (target = -1 \<or> target = 0)"
        using Node.prems(7) by (auto simp: kn_by_def split: if_splits)
      have w: "wanted ?kn fl target a \<longleftrightarrow> target = 1" "target \<noteq> 1 \<Longrightarrow> \<forall>y \<in> set (inorder l). \<not> wanted ?kn fl target y"
        and d: "depth it0 = (if target = 1 then Some (length bs) else depth it)"
        using ord(1) ge ne Node.prems(7) by (auto simp: wanted_def kn_by_def it0_def)
      show ?thesis
      proof (cases "r = Leaf")
        case leaf: True
        have "start_walk ?kn fl target (Node l a r h) (length bs) it = Inr it0"
          unfolding walk if_not_P [OF gt] using leaf by simp
        moreover have "walked ?kn fl target (Node l a r h) bs (depth it) it0"
        proof (cases "target = 1")
          case True
          with w(1) leaf d it0(1) show ?thesis by (intro walked_here) (auto simp: nearest_def)
        next
          case False
          with w leaf d it0(1) show ?thesis by (intro walked_none [of _ _ "[]"]) auto
        qed
        ultimately show ?thesis using it0(2) by blast
      next
        case False
        obtain it1 where it1: "put_path (length bs) r (go_right (length bs) it0) = Inr it1" "root it1 = root it"
            "depth it1 = depth it0" "on_path it1 (bs @ [True])"
          using down [of True] Node.prems(2) it0(2) by (auto simp: node_on_append)
        have "\<exists>it'. start_walk ?kn fl target r (length (bs @ [True])) it1 = Inr it' \<and> root it' = root it1 \<and>
            walked ?kn fl target r (bs @ [True]) (depth it1) it'"
          using it1 Node.prems(2,7) len(3,5) sub(2) False
          by (intro Node.IH(2)) (auto simp: node_on_append)
        then obtain it' where it': "start_walk ?kn fl target r (length bs + 1) it1 = Inr it'" "root it' = root it"
            "walked ?kn fl target r (bs @ [True]) (if target = 1 then Some (length bs) else depth it) it'"
          using it1 d by auto
        have "start_walk ?kn fl target (Node l a r h) (length bs) it = Inr it'"
          unfolding walk if_not_P [OF gt] using False it1(1) it'(1) by simp
        with it'(2) walked_right [OF it'(3) w] show ?thesis by blast
      qed
    qed
  qed
qed simp

definition flag_target :: "u32 \<Rightarrow> int" where
  "flag_target fl = (if has_flag fl AVL_LESS then 1 else if has_flag fl AVL_GREATER then -1 else 0)"

lemma avl_start_ok:
  assumes "heights t" and "avl_tree_height t < int AVL_MAX_DEPTH" and "sorted_wrt (<) (map key (inorder t))"
    and "length junk = AVL_MAX_DEPTH"
  shows "\<exists>it. avl_start_iter (kn_by key k) t fl junk = Inr it \<and> root it = t \<and> length (path it) = AVL_MAX_DEPTH \<and>
    (if \<exists>x \<in> set (inorder t). wanted (kn_by key k) fl (flag_target fl) x
     then \<exists>xs a ys. cursor it xs a ys \<and> nearest (kn_by key k) fl (flag_target fl) xs a ys
     else depth it = None)"
proof (cases "t = Leaf")
  case False
  define it0 where "it0 = \<lparr>root = t, depth = None, branch = 0, path = junk\<rparr>"
  have "on_path it0 []" "flag_target fl \<in> {-1, 0, 1}" using assms(4) by (auto simp: on_path_def it0_def flag_target_def)
  then obtain it where it: "start_walk (kn_by key k) fl (flag_target fl) t 0 it0 = Inr it" "root it = t"
      "walked (kn_by key k) fl (flag_target fl) t [] None it"
    using start_walk_ok [of it0 "[]" t key "flag_target fl" k fl] False assms by (auto simp: it0_def)
  have "avl_start_iter (kn_by key k) t fl junk = Inr it"
    using it(1) False by (simp add: avl_start_iter_def flag_target_def it0_def)
  moreover have "if \<exists>x \<in> set (inorder t). wanted (kn_by key k) fl (flag_target fl) x
     then \<exists>xs a ys. cursor it xs a ys \<and> nearest (kn_by key k) fl (flag_target fl) xs a ys
     else depth it = None"
  proof (cases "\<exists>x \<in> set (inorder t). wanted (kn_by key k) fl (flag_target fl) x")
    case True
    then obtain ds es l a r h where "on_path it (ds @ es)" "depth it = Some (length ds)" "node_on t ds = Node l a r h"
        "nearest (kn_by key k) fl (flag_target fl) (before t ds @ inorder l) a (inorder r @ after t ds)"
      using it(3) by (auto simp: walked_def)
    then have "cursor it (before t ds @ inorder l) a (inorder r @ after t ds)"
      unfolding cursor_def using it(2) assms(1,2) on_path_prefix [of it ds es] by auto
    with True \<open>nearest _ _ _ _ _ _\<close> show ?thesis by auto
  next
    case none: False
    from it(3) have "depth it = None \<or> (\<exists>ds l a r h. node_on t ds = Node l a r h \<and>
        nearest (kn_by key k) fl (flag_target fl) (before t ds @ inorder l) a (inorder r @ after t ds))"
      unfolding walked_def by blast
    moreover have "a \<in> set (inorder t)" if "node_on t ds = Node l a r h" for ds l a r h
      using inorder_on [of t ds] that by simp
    ultimately show ?thesis using none by (auto simp: nearest_def)
  qed
  moreover have "length (path it) = AVL_MAX_DEPTH" using it(3) by (auto simp: walked_def on_path_def)
  ultimately show ?thesis using it(2) by blast
qed (use assms in \<open>auto simp: avl_start_iter_def Let_def\<close>)

lemma cursor_get: "cursor it xs a ys \<Longrightarrow> \<exists>l r h. avl_get_iter it = Node l a r h"
  by (auto simp: cursor_def avl_get_iter_def on_path_node)

section \<open>Properties\<close>

text \<open>
  The loop of \<open>ep_free\<close> (\<open>servers/vfs/eventpoll.c\<close>): visit entries with \<open>avl_get_iter\<close> and
  \<open>avl_inc_iter\<close> until there is none.  The fuel bounds the number of entries.
\<close>

fun visit :: "nat \<Rightarrow> 'a avl_iter \<Rightarrow> 'a list res" where
  "visit 0 it = Inl Diverge"
| "visit (Suc n) it =
     (case avl_get_iter it of
        Leaf \<Rightarrow> Inr []
      | Node l a r h \<Rightarrow> bind_res (avl_inc_iter it) (\<lambda>it'. bind_res (visit n it') (\<lambda>as. Inr (a # as))))"

lemma visit_cursor: "cursor it xs a ys \<Longrightarrow> length ys + 1 < n \<Longrightarrow> visit n it = Inr (a # ys)"
proof (induction n arbitrary: it xs a ys)
  case (Suc n)
  obtain l r h where get: "avl_get_iter it = Node l a r h" using cursor_get [OF Suc.prems(1)] by blast
  obtain it' where it': "avl_inc_iter it = Inr it'"
      "if ys = [] then depth it' = None else cursor it' (xs @ [a]) (hd ys) (tl ys)"
    using avl_inc_ok [OF Suc.prems(1)] by blast
  show ?case
  proof (cases ys)
    case Nil
    with it' Suc.prems(2) have "visit n it' = Inr []" by (cases n) (auto simp: avl_get_iter_def)
    with Nil get it' show ?thesis by simp
  next
    case (Cons b zs)
    with it' Suc have "visit n it' = Inr (b # zs)" by auto
    with Cons get it' show ?thesis by simp
  qed
qed simp

text \<open>
  C28: Insertion into an AVL tree whose entries are in key order always returns an AVL tree,
  keeps the order, and puts the new entry after all entries with a key that is not greater.
\<close>

theorem avl_insert_correct:
  assumes "avl t" and "sorted (map key (inorder t))"
  shows "\<exists>t'. avl_insert_recur (cmp_by key) x t = Inr t' \<and> avl t' \<and> sorted (map key (inorder t')) \<and>
    inorder t' = filter (\<lambda>a. key a \<le> key x) (inorder t) @ x # filter (\<lambda>a. key x < key a) (inorder t)"
proof -
  obtain t' where t': "avl_insert_recur (cmp_by key) x t = Inr t'" "avl t'"
      "inorder t' = filter (\<lambda>a. key a \<le> key x) (inorder t) @ x # filter (\<lambda>a. key x < key a) (inorder t)"
    using avl_insert_ok [OF assms, of x] by blast
  moreover have "sorted (map key (inorder t'))"
    using assms(2) unfolding t'(3) by (auto simp: sorted_append sorted_filter)
  ultimately show ?thesis by blast
qed

definition five :: "int avl" where
  "five = Node (Node Leaf 1 Leaf 1) 2 (Node (Node Leaf 3 Leaf 1) 4 Leaf 2) 3"

theorem avl_insert_correct_witness:
  "\<exists>t'. avl_insert_recur (cmp_by id) 5 five = Inr t' \<and> avl t' \<and> inorder t' = [1, 2, 3, 4, 5]"
  using avl_insert_correct [of five id 5] by (auto simp: five_def avl_def)

text \<open>
  C30: Erasing from a tree with correct heights and strictly ordered keys never follows a null
  pointer, removes the entry with the given key and no other, and keeps the heights correct.
\<close>

theorem avl_erase_exact:
  assumes "heights t" and "sorted_wrt (<) (map key (inorder t))"
  shows "\<exists>t'. avl_erase_recur (cmp_by key) x t = Inr t' \<and> heights t' \<and>
    inorder t' = filter (\<lambda>a. key a \<noteq> key x) (inorder t)"
  by (rule avl_erase_ok [OF assms])

theorem avl_erase_exact_witness:
  "\<exists>t'. avl_erase_recur (cmp_by id) 2 five = Inr t' \<and> heights t' \<and> inorder t' = [1, 3, 4]"
  using avl_erase_exact [of five id 2] by (auto simp: five_def)

text \<open>
  \<open>avl_erase_min\<close> sets heights but never rotates.  There is an AVL tree from which erasing one
  entry leaves a tree that is not balanced.
\<close>

definition lopsided :: "int avl" where
  "lopsided = Node (Node (Node (Node Leaf 1 Leaf 1) 2 Leaf 2) 3 (Node Leaf 4 Leaf 1) 3) 5
     (Node (Node Leaf 6 Leaf 1) 7 (Node Leaf 8 (Node Leaf 9 Leaf 1) 2) 3) 4"

theorem avl_erase_unbalances:
  "avl lopsided \<and> (\<exists>t'. avl_erase_recur (cmp_by id) 5 lopsided = Inr t' \<and> heights t' \<and> \<not> balanced t')"
  by (simp add: lopsided_def avl_def cmp_by_def avl_rebalance_def Let_def)

text \<open>
  C29: In a tree of height below \<open>AVL_MAX_DEPTH\<close>, starting an iterator with \<open>AVL_GREATER_EQUAL\<close> and
  stepping it until it is exhausted visits exactly the entries with a key that is not smaller,
  in order.
\<close>

theorem avl_iter_visits:
  assumes "heights t" and "avl_tree_height t < int AVL_MAX_DEPTH" and "sorted_wrt (<) (map key (inorder t))"
    and "length junk = AVL_MAX_DEPTH" and "length (inorder t) < n"
  shows "\<exists>it. avl_start_iter (kn_by key k) t AVL_GREATER_EQUAL junk = Inr it \<and>
    visit n it = Inr (filter (\<lambda>a. k \<le> key a) (inorder t))"
proof -
  have w: "wanted (kn_by key k) AVL_GREATER_EQUAL (-1) a \<longleftrightarrow> k \<le> key a" for a
    by (auto simp: wanted_def kn_by_def has_flag_def)
  have ft: "flag_target AVL_GREATER_EQUAL = -1" by (simp add: flag_target_def has_flag_def)
  obtain it where it: "avl_start_iter (kn_by key k) t AVL_GREATER_EQUAL junk = Inr it" "root it = t"
      "if \<exists>x \<in> set (inorder t). k \<le> key x then \<exists>xs a ys. cursor it xs a ys \<and> nearest (kn_by key k) AVL_GREATER_EQUAL (-1) xs a ys
       else depth it = None"
    using avl_start_ok [OF assms(1-4), of k AVL_GREATER_EQUAL] unfolding ft w by blast
  show ?thesis
  proof (cases "\<exists>x \<in> set (inorder t). k \<le> key x")
    case True
    then obtain xs a ys where c: "cursor it xs a ys" "nearest (kn_by key k) AVL_GREATER_EQUAL (-1) xs a ys"
      using it(3) by auto
    have io: "inorder t = xs @ a # ys" using cursor_inorder [OF c(1)] it(2) by simp
    have "k \<le> key a" "\<forall>x \<in> set xs. \<not> k \<le> key x" using c(2) by (auto simp: nearest_def w)
    moreover have "\<forall>y \<in> set ys. key a < key y" using assms(3) io by (auto simp: sorted_wrt_append)
    ultimately have "filter (\<lambda>a. k \<le> key a) (inorder t) = a # ys"
      by (auto simp: io filter_empty_conv filter_id_conv)
    with it(1) visit_cursor [OF c(1), of n] assms(5) io show ?thesis by simp
  next
    case False
    then have "visit n it = Inr []" using it(3) assms(5) by (cases n) (auto simp: avl_get_iter_def)
    moreover have "filter (\<lambda>a. k \<le> key a) (inorder t) = []" using False by (simp add: filter_empty_conv)
    ultimately show ?thesis using it(1) by simp
  qed
qed

theorem avl_iter_visits_witness:
  "\<exists>it. avl_start_iter (kn_by id 2) five AVL_GREATER_EQUAL (replicate 32 Leaf) = Inr it \<and> visit 5 it = Inr [2, 3, 4]"
  using avl_iter_visits [of five id "replicate 32 Leaf" 5 2] by (auto simp: five_def)

end
