(* ===== verification/Idr.thy ===== *)
theory Idr
  imports Avl_Iter
begin

text \<open>
  The identifier allocator of \<open>lib/liblyos/idr.c\<close>, an AVL tree of pairs of an identifier and a
  pointer, and the properties of the trees and iterators it is built on.  Identifiers are stored
  relative to the base of the allocator.
\<close>

unbundle bit_operations_syntax

section \<open>Operations\<close>

record id_node =
  nid :: u64
  nptr :: nat

record idr =
  iroot :: "id_node avl"
  base :: u32
  inext :: u32

definition idr_key_node_comp :: "u64 \<Rightarrow> id_node \<Rightarrow> int" where
  "idr_key_node_comp k r2 = (if k < nid r2 then -1 else if k > nid r2 then 1 else 0)"

definition idr_node_node_comp :: "id_node \<Rightarrow> id_node \<Rightarrow> int" where
  "idr_node_node_comp r1 r2 = (if nid r1 < nid r2 then -1 else if nid r1 > nid r2 then 1 else 0)"

definition idr_avl_get_iter :: "id_node avl_iter \<Rightarrow> id_node option" where
  "idr_avl_get_iter it = (case avl_get_iter it of Leaf \<Rightarrow> None | Node l a r h \<Rightarrow> Some a)"

definition idr_init_base :: "u32 \<Rightarrow> idr" where
  "idr_init_base b = \<lparr>iroot = Leaf, base = b, inext = 0\<rparr>"

definition idr_init :: idr where
  "idr_init = idr_init_base 0"

text \<open>
  The loop over the nodes below the limit.  \<open>prev_node\<close> is read without a check, so the loop
  faults when it runs past the smallest node.  The fuel is the number of nodes.
\<close>

fun idr_search :: "nat \<Rightarrow> u32 \<Rightarrow> id_node avl_iter \<Rightarrow> u32 option res" where
  "idr_search 0 start it = Inl Diverge"
| "idr_search (Suc n) start it =
     (case idr_avl_get_iter it of
        None \<Rightarrow> Inr None
      | Some node \<Rightarrow>
          bind_res (avl_dec_iter it) (\<lambda>it'.
          case idr_avl_get_iter it' of
            None \<Rightarrow> Inl NullDeref
          | Some prev \<Rightarrow>
              let slot = ucast (nid prev + 1) :: u32 in
              if (ucast slot :: u64) < nid node \<and> slot \<ge> start then Inr (Some slot)
              else idr_search n start it'))"

definition idr_slot :: "idr \<Rightarrow> u32 \<Rightarrow> u64 \<Rightarrow> id_node avl list \<Rightarrow> u32 option res" where
  "idr_slot idr nextid mx junk =
     (let start = (if nextid < base idr then 0 else nextid - base idr);
          id_max = mx - ucast (base idr)
      in bind_res (avl_start_iter (idr_key_node_comp id_max) (iroot idr) AVL_GREATER_EQUAL junk) (\<lambda>it.
         case idr_avl_get_iter it of
           None \<Rightarrow>
             bind_res (avl_start_iter (idr_key_node_comp id_max) (iroot idr) AVL_LESS (path it)) (\<lambda>it.
             case idr_avl_get_iter it of
               None \<Rightarrow> Inr (Some start)
             | Some last_node \<Rightarrow> Inr (Some (ucast (nid last_node + 1))))
         | Some _ \<Rightarrow> idr_search (length (inorder (iroot idr)) + 1) start it))"

text \<open>\<open>junk\<close> is the uninitialised path of the iterator, \<open>oom\<close> says that \<open>malloc\<close> fails.\<close>

definition idr_alloc_u32 ::
    "idr \<Rightarrow> nat \<Rightarrow> u32 \<Rightarrow> u64 \<Rightarrow> id_node avl list \<Rightarrow> bool \<Rightarrow> (int \<times> idr \<times> u32) res" where
  "idr_alloc_u32 idr ptr nextid mx junk oom =
     bind_res (idr_slot idr nextid mx junk) (\<lambda>found.
     case found of
       None \<Rightarrow> Inr (- ENOSPC, idr, nextid)
     | Some slot \<Rightarrow>
         if oom then Inr (- ENOMEM, idr, nextid)
         else bind_res (avl_insert_recur idr_node_node_comp \<lparr>nid = ucast slot, nptr = ptr\<rparr> (iroot idr)) (\<lambda>t.
              Inr (0, idr\<lparr>iroot := t\<rparr>, base idr + slot)))"

definition idr_alloc :: "idr \<Rightarrow> nat \<Rightarrow> int \<Rightarrow> int \<Rightarrow> id_node avl list \<Rightarrow> bool \<Rightarrow> (int \<times> idr) res" where
  "idr_alloc idr ptr start fin junk oom =
     (if start < 0 then Inr (- EINVAL, idr)
      else bind_res (idr_alloc_u32 idr ptr (word_of_int start)
             (word_of_int (if fin > 0 then fin - 1 else 0x7fffffff)) junk oom) (\<lambda>(ret, idr', nextid).
           if ret \<noteq> 0 then Inr (ret, idr') else Inr (sint nextid, idr')))"

fun idr_walk :: "u64 \<Rightarrow> id_node avl \<Rightarrow> id_node option" where
  "idr_walk k Leaf = None"
| "idr_walk k (Node l a r h) =
     (if k = nid a then Some a else if k < nid a then idr_walk k l else idr_walk k r)"

definition idr_find :: "idr \<Rightarrow> u64 \<Rightarrow> nat" where
  "idr_find idr k =
     (if k < ucast (base idr) then 0
      else case idr_walk (k - ucast (base idr)) (iroot idr) of None \<Rightarrow> 0 | Some a \<Rightarrow> nptr a)"

definition idr_remove :: "idr \<Rightarrow> u64 \<Rightarrow> (nat \<times> idr) res" where
  "idr_remove idr k =
     (if k < ucast (base idr) then Inr (0, idr)
      else case idr_walk (k - ucast (base idr)) (iroot idr) of
             None \<Rightarrow> Inr (0, idr)
           | Some a \<Rightarrow> bind_res (avl_erase_recur idr_node_node_comp a (iroot idr)) (\<lambda>t.
               Inr (nptr a, idr\<lparr>iroot := t\<rparr>)))"

section \<open>The allocator as a table\<close>

lemma comps: "idr_key_node_comp = kn_by nid" "idr_node_node_comp = cmp_by nid"
  by (simp_all add: fun_eq_iff idr_key_node_comp_def idr_node_node_comp_def kn_by_def cmp_by_def)

definition idr_ok :: "idr \<Rightarrow> bool" where
  "idr_ok idr \<longleftrightarrow> heights (iroot idr) \<and> sorted_wrt (<) (map nid (inorder (iroot idr))) \<and>
     (\<forall>a \<in> set (inorder (iroot idr)). nid a < 0x100000000)"

lemma idr_walk_spec:
  "sorted_wrt (<) (map nid (inorder t)) \<Longrightarrow>
    idr_walk k t = Some a \<longleftrightarrow> a \<in> set (inorder t) \<and> nid a = k"
proof (induction t)
  case (Node l b r h)
  then have "\<forall>x \<in> set (inorder l). nid x < nid b" "\<forall>x \<in> set (inorder r). nid b < nid x"
    by (auto simp: sorted_wrt_append)
  then show ?case using Node by (auto simp: sorted_wrt_append dest: less_asym)
qed simp

lemma idr_walk_none:
  assumes "sorted_wrt (<) (map nid (inorder t))"
  shows "idr_walk k t = None \<longleftrightarrow> k \<notin> nid ` set (inorder t)"
proof (cases "idr_walk k t")
  case None
  then show ?thesis using idr_walk_spec [OF assms, of k] by auto
next
  case (Some a)
  then have "a \<in> set (inorder t)" "nid a = k" using idr_walk_spec [OF assms, of k a] by auto
  with Some show ?thesis by force
qed

lemma idr_walk_set:
  assumes "sorted_wrt (<) (map nid (inorder t))" "sorted_wrt (<) (map nid (inorder t'))"
    and "{x \<in> set (inorder t). nid x = k} = {x \<in> set (inorder t'). nid x = k}"
  shows "idr_walk k t = idr_walk k t'"
proof (cases "idr_walk k t'")
  case None
  with assms have "k \<notin> nid ` set (inorder t)" by (auto simp: idr_walk_none)
  with None assms(1) show ?thesis by (simp add: idr_walk_none)
next
  case (Some a)
  with assms have "a \<in> {x \<in> set (inorder t). nid x = k}" by (simp add: idr_walk_spec)
  with Some assms(1) show ?thesis by (simp add: idr_walk_spec)
qed

lemma avl_insert_heights:
  assumes "heights t" and "sorted_wrt (<) (map key (inorder t))" and "key x \<notin> key ` set (inorder t)"
  shows "\<exists>t'. avl_insert_recur (cmp_by key) x t = Inr t' \<and> heights t' \<and>
    inorder t' = filter (\<lambda>a. key a < key x) (inorder t) @ x # filter (\<lambda>a. key x < key a) (inorder t)"
  using assms
proof (induction t)
  case (Node l a r h)
  have sub: "heights l" "heights r" "sorted_wrt (<) (map key (inorder l))" "sorted_wrt (<) (map key (inorder r))"
    and ord: "\<forall>y \<in> set (inorder l). key y < key a" "\<forall>y \<in> set (inorder r). key a < key y"
    and ne: "key x \<notin> key ` set (inorder l)" "key x \<notin> key ` set (inorder r)" "key x \<noteq> key a"
    using Node.prems by (auto simp: sorted_wrt_append)
  show ?case
  proof (cases "key x < key a")
    case True
    obtain l' where l': "avl_insert_recur (cmp_by key) x l = Inr l'" "heights l'"
        "inorder l' = filter (\<lambda>a. key a < key x) (inorder l) @ x # filter (\<lambda>a. key x < key a) (inorder l)"
      using Node.IH(1) [OF sub(1,3) ne(1)] by blast
    have "filter (\<lambda>a. key a < key x) (inorder r) = []" "filter (\<lambda>a. key x < key a) (inorder r) = inorder r"
      using True ord(2) by (auto simp: filter_empty_conv filter_id_conv)
    with True l' avl_rebalance_heights [OF l'(2) sub(2), of a h] show ?thesis by auto
  next
    case False
    obtain r' where r': "avl_insert_recur (cmp_by key) x r = Inr r'" "heights r'"
        "inorder r' = filter (\<lambda>a. key a < key x) (inorder r) @ x # filter (\<lambda>a. key x < key a) (inorder r)"
      using Node.IH(2) [OF sub(2,4) ne(2)] by blast
    have "filter (\<lambda>a. key a < key x) (inorder l) = inorder l" "filter (\<lambda>a. key x < key a) (inorder l) = []"
      using False ne(3) ord(1) by (auto simp: filter_empty_conv filter_id_conv)
    with False ne(3) r' avl_rebalance_heights [OF sub(1) r'(2), of a h] show ?thesis by auto
  qed
qed simp

lemma get_cursor: "cursor it xs a ys \<Longrightarrow> idr_avl_get_iter it = Some a"
  using cursor_get [of it xs a ys] by (auto simp: idr_avl_get_iter_def)

lemma get_none: "depth it = None \<Longrightarrow> idr_avl_get_iter it = None"
  by (simp add: idr_avl_get_iter_def avl_get_iter_def)

lemma unat_up: "unat (ucast (w :: u32) :: u64) = unat w"
proof -
  have "unat w < 2 ^ 32" using unsigned_less [of w, where 'a = nat] by simp
  then show ?thesis by (simp add: unsigned_ucast_eq unsigned_take_bit_eq take_bit_nat_eq_self)
qed

lemma slot_ucast:
  fixes a b :: u64
  assumes "a < b" and "b < 0x100000000"
  shows "(ucast (ucast (a + 1) :: u32) :: u64) = a + 1" and "a < a + 1"
proof -
  have "unat a < unat b" "unat b < 4294967296" using assms by (simp_all add: word_less_nat_alt)
  then have "unat (a + 1) = unat a + 1" by (simp add: unat_word_ariths)
  with \<open>unat a < unat b\<close> \<open>unat b < 4294967296\<close> show "(ucast (ucast (a + 1) :: u32) :: u64) = a + 1" "a < a + 1"
    by (simp_all add: word_unat_eq_iff unsigned_ucast_eq unsigned_take_bit_eq take_bit_nat_eq_self word_less_nat_alt)
qed

lemma idr_search_ok:
  assumes "cursor it xs node ys" and "length xs < n" and "sorted_wrt (<) (map nid (xs @ node # ys))"
    and "\<forall>a \<in> set (xs @ node # ys). nid a < 0x100000000" and "idr_search n start it = Inr found"
  shows "\<exists>slot. found = Some slot \<and> ucast slot \<notin> nid ` set (xs @ node # ys) \<and> start \<le> slot \<and>
    (\<exists>p \<in> set xs. ucast slot = nid p + 1)"
  using assms
proof (induction n arbitrary: it xs node ys)
  case (Suc n)
  obtain it' where it': "avl_dec_iter it = Inr it'" "root it' = root it"
      "if xs = [] then depth it' = None else cursor it' (butlast xs) (last xs) (node # ys)"
    using avl_dec_ok [OF Suc.prems(1)] by blast
  show ?case
  proof (cases "xs = []")
    case True
    with it' Suc.prems(1,5) show ?thesis by (simp add: get_cursor get_none)
  next
    case False
    have c: "cursor it' (butlast xs) (last xs) (node # ys)" using it'(3) False by simp
    have xs: "xs = butlast xs @ [last xs]" using False by simp
    then obtain us p where us: "xs = us @ [p]" "butlast xs = us" "last xs = p" by blast
    let ?slot = "ucast (nid p + 1) :: u32"
    have less: "nid p < nid node" "nid node < 0x100000000"
      using Suc.prems(3,4) us(1) by (auto simp: sorted_wrt_append)
    note su = slot_ucast [OF less]
    show ?thesis
    proof (cases "(ucast ?slot :: u64) < nid node \<and> ?slot \<ge> start")
      case True
      have "ucast ?slot \<noteq> nid a" if "a \<in> set (xs @ node # ys)" for a
      proof -
        have "nid a \<le> nid p \<or> nid node \<le> nid a"
          using that Suc.prems(3) us(1) by (auto simp: sorted_wrt_append intro: less_imp_le)
        then show ?thesis using True su by auto
      qed
      with True Suc.prems(1,5) it'(1) us su(1) get_cursor [OF c] show ?thesis
        by (force simp: get_cursor)
    next
      case False
      have "\<exists>slot. found = Some slot \<and> ucast slot \<notin> nid ` set (us @ p # node # ys) \<and> start \<le> slot \<and>
          (\<exists>q \<in> set us. ucast slot = nid q + 1)"
      proof (rule Suc.IH)
        show "cursor it' us p (node # ys)" using c us by simp
        show "idr_search n start it' = Inr found"
          using False Suc.prems(1,5) it'(1) us(3) get_cursor [OF c] by (auto simp: get_cursor Let_def)
      qed (use Suc.prems us in auto)
      then show ?thesis using us(1) by auto
    qed
  qed
qed simp

text \<open>
  The slot that is found is free, and within the limit when the request starts within it.
\<close>

lemma idr_slot_ok:
  assumes ok: "idr_ok idr" and small: "avl_tree_height (iroot idr) < int AVL_MAX_DEPTH"
    and junk: "length junk = AVL_MAX_DEPTH"
    and mx: "ucast (base idr) \<le> mx" "mx < 0x100000000" "ucast nextid \<le> mx"
    and res: "idr_slot idr nextid mx junk = Inr found"
  shows "\<exists>slot. found = Some slot \<and> ucast slot \<notin> nid ` set (inorder (iroot idr)) \<and>
    ucast slot \<le> mx - ucast (base idr)"
proof -
  let ?m = "mx - ucast (base idr)" and ?t = "iroot idr"
  let ?start = "if nextid < base idr then 0 else nextid - base idr"
  have sorted: "heights ?t" "sorted_wrt (<) (map nid (inorder ?t))" "\<forall>a \<in> set (inorder ?t). nid a < 0x100000000"
    using ok by (auto simp: idr_ok_def)
  obtain it where it: "avl_start_iter (kn_by nid ?m) ?t AVL_GREATER_EQUAL junk = Inr it" "root it = ?t" "length (path it) = AVL_MAX_DEPTH"
      "if \<exists>x \<in> set (inorder ?t). wanted (kn_by nid ?m) AVL_GREATER_EQUAL (flag_target AVL_GREATER_EQUAL) x
       then \<exists>xs a ys. cursor it xs a ys \<and> nearest (kn_by nid ?m) AVL_GREATER_EQUAL (flag_target AVL_GREATER_EQUAL) xs a ys
       else depth it = None"
    using avl_start_ok [OF sorted(1) small sorted(2) junk, of ?m "AVL_GREATER_EQUAL"] by blast
  have ft: "flag_target AVL_GREATER_EQUAL = -1" "flag_target AVL_LESS = 1"
    by (simp_all add: flag_target_def has_flag_def)
  have wantedg: "wanted (kn_by nid ?m) AVL_GREATER_EQUAL (-1) x \<longleftrightarrow> ?m \<le> nid x" for x
    by (auto simp: wanted_def kn_by_def has_flag_def)
  have wantedl: "wanted (kn_by nid ?m) AVL_LESS 1 x \<longleftrightarrow> nid x < ?m" for x
    by (auto simp: wanted_def kn_by_def has_flag_def)
  show ?thesis
  proof (cases "\<exists>x \<in> set (inorder ?t). ?m \<le> nid x")
    case True
    then obtain xs a ys where c: "cursor it xs a ys" "\<forall>x \<in> set xs. nid x < ?m"
      using it(4) by (auto simp: ft wantedg nearest_def not_le)
    have "inorder ?t = xs @ a # ys" using cursor_inorder [OF c(1)] it(2) by simp
    moreover have "idr_search (length (inorder ?t) + 1) ?start it = Inr found"
      using res it(1) get_cursor [OF c(1)] by (simp add: idr_slot_def comps Let_def del: idr_search.simps)
    ultimately obtain slot where slot: "found = Some slot" "ucast slot \<notin> nid ` set (inorder ?t)"
        "\<exists>p \<in> set xs. ucast slot = nid p + 1"
      using idr_search_ok [OF c(1), of "length (inorder ?t) + 1" ?start found] sorted(2,3) by auto
    then show ?thesis using c(2) by (auto simp: inc_le)
  next
    case none: False
    then have n1: "idr_avl_get_iter it = None" using it(4) by (simp add: ft wantedg get_none)
    obtain it' where it': "avl_start_iter (kn_by nid ?m) ?t AVL_LESS (path it) = Inr it'" "root it' = ?t"
      "if \<exists>x \<in> set (inorder ?t). wanted (kn_by nid ?m) AVL_LESS (flag_target AVL_LESS) x
       then \<exists>xs a ys. cursor it' xs a ys \<and> nearest (kn_by nid ?m) AVL_LESS (flag_target AVL_LESS) xs a ys
       else depth it' = None"
      using avl_start_ok [OF sorted(1) small sorted(2) it(3), of ?m AVL_LESS] by blast
    show ?thesis
    proof (cases "inorder ?t = []")
      case True
      then have "idr_avl_get_iter it' = None" using it'(3) by (simp add: get_none)
      then have "found = Some ?start" using res it(1) it'(1) n1 by (simp add: idr_slot_def comps Let_def del: idr_search.simps)
      moreover have "unat ?start \<le> unat (mx - ucast (base idr))"
        using mx by (auto simp: word_le_nat_alt word_less_nat_alt unat_sub unat_up)
      ultimately show ?thesis using True by (simp add: word_le_nat_alt unat_up)
    next
      case False
      then have "\<exists>x \<in> set (inorder ?t). nid x < ?m" using none by (metis hd_in_set not_le)
      then obtain xs a ys where c: "cursor it' xs a ys" "nid a < ?m" "\<forall>y \<in> set ys. \<not> nid y < ?m"
        using it'(3) by (auto simp: ft wantedl nearest_def)
      have io: "inorder ?t = xs @ a # ys" using cursor_inorder [OF c(1)] it'(2) by simp
      with none c(3) have "ys = []" by (cases ys) auto
      have m: "?m < 0x100000000" using mx by (simp add: word_less_nat_alt word_le_nat_alt unat_sub)
      note su = slot_ucast [OF c(2) m]
      have "found = Some (ucast (nid a + 1))"
        using res it(1) it'(1) n1 get_cursor [OF c(1)] by (simp add: idr_slot_def comps Let_def del: idr_search.simps)
      moreover have "\<forall>x \<in> set (inorder ?t). nid x \<le> nid a"
        using io \<open>ys = []\<close> sorted(2) by (auto simp: sorted_wrt_append)
      then have "nid a + 1 \<notin> nid ` set (inorder ?t)" using su(2) by (auto simp: not_le [symmetric])
      ultimately show ?thesis using su c(2) by (simp add: inc_le)
    qed
  qed
qed

section \<open>Properties\<close>

text \<open>
  C31: A successful \<open>idr_alloc_u32\<close> returns an identifier that was free and lies within the limit;
  afterwards \<open>idr_find\<close> returns the new pointer for it and what it returned before for every
  other identifier.
\<close>

theorem idr_alloc_fresh:
  assumes "idr_ok idr" and "avl_tree_height (iroot idr) < int AVL_MAX_DEPTH" and "length junk = AVL_MAX_DEPTH"
    and "ucast (base idr) \<le> mx" and "mx < 0x100000000" and "ucast nextid \<le> mx"
    and "idr_alloc_u32 idr ptr nextid mx junk oom = Inr (0, idr', k)"
  shows "idr_ok idr' \<and> ucast k \<le> mx \<and> idr_find idr (ucast k) = 0 \<and> idr_find idr' (ucast k) = ptr \<and>
    (\<forall>j. j \<noteq> ucast k \<longrightarrow> idr_find idr' j = idr_find idr j)"
proof -
  let ?t = "iroot idr"
  obtain found where f: "idr_slot idr nextid mx junk = Inr found"
    using assms(7) by (cases "idr_slot idr nextid mx junk") (auto simp: idr_alloc_u32_def)
  obtain slot where slot: "found = Some slot" "ucast slot \<notin> nid ` set (inorder ?t)" "ucast slot \<le> mx - ucast (base idr)"
    using idr_slot_ok [OF assms(1-6) f] by blast
  let ?a = "\<lparr>nid = ucast slot, nptr = ptr\<rparr>"
  have s: "heights ?t" "sorted_wrt (<) (map nid (inorder ?t))" using assms(1) by (auto simp: idr_ok_def)
  obtain t' where t': "avl_insert_recur (cmp_by nid) ?a ?t = Inr t'" "heights t'"
      "inorder t' = filter (\<lambda>x. nid x < nid ?a) (inorder ?t) @ ?a # filter (\<lambda>x. nid ?a < nid x) (inorder ?t)"
    using avl_insert_heights [OF s, of ?a] slot(2) by auto
  have r: "idr' = idr\<lparr>iroot := t'\<rparr>" "k = base idr + slot"
    using assms(7) f slot(1) t'(1) by (auto simp: idr_alloc_u32_def comps split: if_splits)
  have st': "sorted_wrt (<) (map nid (inorder t'))"
    unfolding t'(3) using s(2) by (auto simp: sorted_wrt_append sorted_wrt_map intro!: sorted_wrt_filter)
  have set': "set (inorder t') = insert ?a (set (inorder ?t))"
    unfolding t'(3) using slot(2) by (auto simp: neq_iff)
  have sum: "unat (base idr) + unat slot \<le> unat mx" "unat mx < 4294967296"
    using assms(4,5) slot(3) by (auto simp: word_le_nat_alt word_less_nat_alt unat_sub unat_up)
  then have "unat k = unat (base idr) + unat slot" using r(2) by (simp add: unat_word_ariths)
  then have k: "ucast k = ucast (base idr) + (ucast slot :: u64)"
    and kb: "ucast (base idr) \<le> (ucast k :: u64)" "(ucast k :: u64) \<le> mx"
    using sum by (simp_all add: word_unat_eq_iff word_le_nat_alt unat_up unat_word_ariths)
  have "idr_ok idr'" using assms(1) t'(2) st' set' unsigned_less [of slot] unfolding r idr_ok_def
    by (simp add: word_less_nat_alt unat_up)
  moreover have "idr_walk (ucast slot) ?t = None" using slot(2) s(2) by (simp add: idr_walk_none)
  moreover have "idr_walk (ucast slot) t' = Some ?a" using st' set' by (simp add: idr_walk_spec)
  moreover have "idr_walk j t' = idr_walk j ?t" if "j \<noteq> ucast slot" for j
    using that by (intro idr_walk_set [OF st' s(2)]) (auto simp: set')
  moreover have "j - ucast (base idr) \<noteq> ucast slot" if "j \<noteq> ucast k" for j :: u64
    using that k by (auto simp: diff_eq_eq add.commute)
  ultimately show ?thesis using k kb unfolding r(1) idr_find_def
    by (auto simp: not_less)
qed

definition blank_path :: "id_node avl list" where
  "blank_path = replicate 32 Leaf"

theorem idr_alloc_fresh_witness:
  "idr_alloc_u32 idr_init 7 3 9 blank_path False =
     Inr (0, \<lparr>iroot = Node Leaf \<lparr>nid = 3, nptr = 7\<rparr> Leaf 1, base = 0, inext = 0\<rparr>, 3) \<and>
   idr_find \<lparr>iroot = Node Leaf \<lparr>nid = 3, nptr = 7\<rparr> Leaf 1, base = 0, inext = 0\<rparr> 3 = 7"
proof -
  have a: "idr_alloc_u32 idr_init 7 3 9 blank_path False =
     Inr (0, \<lparr>iroot = Node Leaf \<lparr>nid = 3, nptr = 7\<rparr> Leaf 1, base = 0, inext = 0\<rparr>, 3)"
    by code_simp
  have "idr_ok idr_init" "avl_tree_height (iroot idr_init) < int AVL_MAX_DEPTH" "length blank_path = AVL_MAX_DEPTH"
      "ucast (base idr_init) \<le> (9 :: u64)"
    by (simp_all add: idr_ok_def idr_init_def idr_init_base_def blank_path_def)
  from idr_alloc_fresh [OF this _ _ a] a show ?thesis by simp
qed

text \<open>
  The loop of \<open>idr_alloc_u32\<close> reads the node before the smallest one.  An allocator that hands
  out its only identifier follows a null pointer at the next request, where \<open>-ENOSPC\<close> is meant;
  and the lower bound of a request is ignored when all identifiers in use are below its limit.
\<close>

theorem idr_full_faults:
  "(\<exists>idr. idr_alloc idr_init 7 0 1 blank_path False = Inr (0, idr) \<and>
      idr_alloc idr 8 0 1 blank_path False = Inl NullDeref) \<and>
   (\<exists>idr idr'. idr_alloc idr_init 7 0 0 blank_path False = Inr (0, idr) \<and>
      idr_alloc idr 8 5 0 blank_path False = Inr (1, idr'))"
proof -
  define one where "one = \<lparr>iroot = Node Leaf \<lparr>nid = 0, nptr = 7\<rparr> Leaf 1, base = 0, inext = 0\<rparr>"
  have "idr_alloc idr_init 7 0 1 blank_path False = Inr (0, one)" unfolding one_def by code_simp
  moreover have "idr_alloc one 8 0 1 blank_path False = Inl NullDeref" unfolding one_def by code_simp
  moreover have "idr_alloc idr_init 7 0 0 blank_path False = Inr (0, one)" unfolding one_def by code_simp
  moreover have "idr_alloc one 8 5 0 blank_path False = Inr (1, one\<lparr>iroot :=
      Node Leaf \<lparr>nid = 0, nptr = 7\<rparr> (Node Leaf \<lparr>nid = 1, nptr = 8\<rparr> Leaf 1) 2\<rparr>)" unfolding one_def by code_simp
  ultimately show ?thesis by blast
qed

text \<open>
  \<open>idr_remove\<close> returns what \<open>idr_find\<close> finds, removes that identifier and keeps all others.
\<close>

theorem idr_remove_exact:
  assumes "idr_ok idr" and "ucast (base idr) \<le> k"
  shows "\<exists>idr'. idr_remove idr k = Inr (idr_find idr k, idr') \<and> idr_ok idr' \<and> idr_find idr' k = 0 \<and>
    (\<forall>j. j \<noteq> k \<longrightarrow> idr_find idr' j = idr_find idr j)"
proof (cases "idr_walk (k - ucast (base idr)) (iroot idr)")
  case None
  with assms show ?thesis by (auto simp: idr_remove_def idr_find_def)
next
  case (Some a)
  let ?t = "iroot idr" and ?k = "k - ucast (base idr)"
  have s: "heights ?t" "sorted_wrt (<) (map nid (inorder ?t))" using assms(1) by (auto simp: idr_ok_def)
  have a: "nid a = ?k" using Some s(2) by (simp add: idr_walk_spec)
  obtain t' where t': "avl_erase_recur (cmp_by nid) a ?t = Inr t'" "heights t'"
      "inorder t' = filter (\<lambda>x. nid x \<noteq> nid a) (inorder ?t)"
    using avl_erase_ok [OF s, of a] by blast
  have st': "sorted_wrt (<) (map nid (inorder t'))"
    unfolding t'(3) using s(2) by (auto simp: sorted_wrt_map intro!: sorted_wrt_filter)
  have "idr_walk ?k t' = None" using st' t'(3) a by (auto simp: idr_walk_none)
  moreover have "idr_walk j t' = idr_walk j ?t" if "j \<noteq> ?k" for j
    using that a t'(3) by (intro idr_walk_set [OF st' s(2)]) auto
  moreover have "j - ucast (base idr) \<noteq> ?k" if "j \<noteq> k" for j using that by simp
  ultimately show ?thesis
    using assms Some t' st' by (auto simp: idr_remove_def idr_find_def comps idr_ok_def not_less)
qed

theorem idr_remove_exact_witness:
  "\<exists>idr'. idr_remove \<lparr>iroot = Node Leaf \<lparr>nid = 3, nptr = 7\<rparr> Leaf 1, base = 0, inext = 0\<rparr> 3 = Inr (7, idr') \<and>
     idr_find idr' 3 = 0"
  using idr_remove_exact [of "\<lparr>iroot = Node Leaf \<lparr>nid = 3, nptr = 7\<rparr> Leaf 1, base = 0, inext = 0\<rparr>" 3]
  by (auto simp: idr_ok_def idr_find_def)

end
