(* ===== verification/Signals.thy ===== *)
theory Signals
  imports Ipc_Steps
begin

text \<open>
  Signals that the kernel raises or passes on (\<open>kernel/system.c\<close>, \<open>kernel/system/sys_kill.c\<close>,
  \<open>sys_getksig.c\<close>, \<open>sys_endksig.c\<close>).  The target is blocked, the process manager is notified,
  collects the pending signals with \<open>getksig\<close> and releases the target with \<open>endksig\<close>.
\<close>

unbundle bit_operations_syntax

section \<open>Operations\<close>

abbreviation SIGTRAP :: int where "SIGTRAP \<equiv> 5"
abbreviation SIGFPE :: int where "SIGFPE \<equiv> 8"
abbreviation SIGSEGV :: int where "SIGSEGV \<equiv> 11"
abbreviation SIGKSIG :: int where "SIGKSIG \<equiv> 30"
abbreviation SIGKMEM :: int where "SIGKMEM \<equiv> 31"
abbreviation NSIG :: int where "NSIG \<equiv> 32"

text \<open>
  \<open>1 << sig\<close>, an \<open>int\<close> that is extended with its sign to the \<open>unsigned long\<close> of a signal set; the
  shift is undefined unless the number is below the width of \<open>int\<close>.
\<close>

definition sig_bit :: "int \<Rightarrow> u64 res" where
  "sig_bit sig = (if 0 \<le> sig \<and> sig < 32 then Inr (scast (push_bit (nat sig) (1 :: u32))) else Inl Undefined)"

definition sigaddset :: "u64 \<Rightarrow> int \<Rightarrow> u64 res" where
  "sigaddset w sig = bind_res (sig_bit sig) (\<lambda>b. Inr (w OR b))"

definition sigismember :: "u64 \<Rightarrow> int \<Rightarrow> bool res" where
  "sigismember w sig = bind_res (sig_bit sig) (\<lambda>b. Inr (w AND b \<noteq> 0))"

definition send_sig :: "kernel \<Rightarrow> endpoint \<Rightarrow> int \<Rightarrow> (int \<times> kernel) res" where
  "send_sig k ep signo =
     (case endpt_proc k ep of
        None \<Rightarrow> Inr (EINVAL, k)
      | Some p \<Rightarrow>
          (case priv_ix (proc_table k p) of
             None \<Rightarrow> Inr (ENOENT, k)
           | Some i \<Rightarrow>
               bind_res (sigaddset (psig_pending (priv_table k i)) signo) (\<lambda>w.
               let k = upd_priv i (psig_pending_update (\<lambda>_. w)) k in
               bind_res (msg_notify k (proc_addr SYSTEM) (endpoint (proc_table k p))) (\<lambda>(_, k). Inr (0, k)))))"

definition ksig_proc :: "kernel \<Rightarrow> endpoint \<Rightarrow> int \<Rightarrow> kernel res" where
  "ksig_proc k ep signo =
     (case endpt_proc k ep of
        None \<Rightarrow> Inr k
      | Some p \<Rightarrow>
          bind_res (sigismember (sig_pending (proc_table k p)) signo) (\<lambda>member.
          if member then Inr k
          else bind_res (sigaddset (sig_pending (proc_table k p)) signo) (\<lambda>w.
            let k = upd_proc p (sig_pending_update (\<lambda>_. w)) k in
            if PST_IS_SET k p PST_SIGNALED then Inr k
            else
              let k = PST_SET p (PST_SIGNALED OR PST_SIG_PENDING) k in
              bind_res (send_sig k TASK_PM SIGKSIG) (\<lambda>(r, k).
                if r \<noteq> 0 then Inl Panic else Inr k))))"

definition sys_kill :: "kernel \<Rightarrow> endpoint \<Rightarrow> int \<Rightarrow> (int \<times> kernel) res" where
  "sys_kill k target signo =
     (if signo > NSIG then Inr (EINVAL, k)
      else if verify_endpt k target = None then Inr (EINVAL, k)
      else if target < 0 then Inr (EPERM, k)
      else bind_res (ksig_proc k target signo) (\<lambda>k. Inr (0, k)))"

text \<open>
  The loop of \<open>sys_getksig\<close> over \<open>n\<close> slots from \<open>p\<close>.  The endpoint and the set it stores in the
  message are the first component; \<open>None\<close> is the endpoint \<open>NO_TASK\<close>.
\<close>

primrec getksig_from :: "nat \<Rightarrow> nat \<Rightarrow> kernel \<Rightarrow> (endpoint \<times> u64) option \<times> kernel" where
  "getksig_from 0 p k = (None, k)"
| "getksig_from (Suc n) p k =
     (if PST_IS_SET k p PST_SIGNALED then
        (Some (endpoint (proc_table k p), sig_pending (proc_table k p)),
         PST_UNSET p PST_SIGNALED (upd_proc p (sig_pending_update (\<lambda>_. 0)) k))
      else getksig_from n (p + 1) k)"

definition sys_getksig :: "kernel \<Rightarrow> (endpoint \<times> u64) option \<times> kernel" where
  "sys_getksig k = getksig_from (NR_PROCS - NR_TASKS) NR_TASKS k"

definition sys_endksig :: "kernel \<Rightarrow> endpoint \<Rightarrow> int \<times> kernel" where
  "sys_endksig k ep =
     (case endpt_proc k ep of
        None \<Rightarrow> (EINVAL, k)
      | Some p \<Rightarrow>
          if \<not> PST_IS_SET k p PST_SIG_PENDING then (EINVAL, k)
          else (0, if \<not> PST_IS_SET k p PST_SIGNALED then PST_UNSET p PST_SIG_PENDING k else k))"

section \<open>State bits outside message passing\<close>

text \<open>
  Setting or clearing other state bits of a live process keeps a kernel well formed.
\<close>

definition other_bits :: "u32 \<Rightarrow> bool" where
  "other_bits f \<longleftrightarrow> f AND PST_SENDING = 0 \<and> f AND PST_RECEIVING = 0 \<and> f AND PST_FREE_SLOT = 0"

lemma ipc_inv_other_state:
  assumes inv: "ipc_inv k" and tab: "proc_table k' = (proc_table k)(p := state_update g (proc_table k p))" and s: "s = g (state (proc_table k p))"
    and st: "has_flag s PST_SENDING = PST_IS_SET k p PST_SENDING" "has_flag s PST_RECEIVING = PST_IS_SET k p PST_RECEIVING"
      "\<not> has_flag s PST_FREE_SLOT"
    and nf: "state (proc_table k p) \<noteq> PST_FREE_SLOT"
  shows "ipc_inv k'" and "same_procs k k'"
proof -
  note I = ipc_invD [OF inv]
  note nf' = not_free [OF I(3) nf]
  have f: "endpoint (proc_table k' q) = endpoint (proc_table k q)" "sendto (proc_table k' q) = sendto (proc_table k q)"
      "recvfrom (proc_table k' q) = recvfrom (proc_table k q)" "q_sending (proc_table k' q) = q_sending (proc_table k q)"
      "next_sending (proc_table k' q) = next_sending (proc_table k q)" "flags (proc_table k' q) = flags (proc_table k q)" for q
    by (simp_all add: tab)
  have b: "PST_IS_SET k' q PST_SENDING = PST_IS_SET k q PST_SENDING" "PST_IS_SET k' q PST_RECEIVING = PST_IS_SET k q PST_RECEIVING" for q
    using st by (auto simp: PST_IS_SET_def tab s)
  have "state (proc_table k' q) = state (proc_table k q) \<or> \<not> PST_IS_SET k q PST_FREE_SLOT \<and> \<not> PST_IS_SET k' q PST_FREE_SLOT" for q
    using nf' st(3) by (auto simp: PST_IS_SET_def tab s)
  with f(1) show sp: "same_procs k k'" by (intro same_procs_state(1) [OF I(3)]) auto
  have fc: "free_clean k'"
    using f(1) \<open>\<And>q. state (proc_table k' q) = state (proc_table k q) \<or> _\<close> by (intro same_procs_state(2) [OF I(3)]) auto
  have ep: "endpt_proc k' = endpt_proc k" by (intro ext endpt_proc_cong sp)
  have s2: "sends_to k' = sends_to k" by (simp add: sends_to_def b f ep)
  have "sends_live k'" using I(1) by (simp add: sends_live_def resolvable_def b f ep)
  moreover have "squeue k' d qs = squeue k d qs" for d qs by (simp add: squeue_def senders_def s2 f)
  moreover have "is_waiting_for k' d x = is_waiting_for k d x" for d x by (simp add: is_waiting_for_def b f)
  ultimately show "ipc_inv k'"
    using I fc by (simp add: ipc_inv_def ipc_graph_def rendezvous_def s2 b f)
qed

lemma other_bits_set:
  assumes "other_bits f"
  shows "has_flag (s OR f) PST_SENDING = has_flag s PST_SENDING" "has_flag (s OR f) PST_RECEIVING = has_flag s PST_RECEIVING"
    "has_flag (s OR f) PST_FREE_SLOT = has_flag s PST_FREE_SLOT"
    "has_flag (s AND NOT f) PST_SENDING = has_flag s PST_SENDING" "has_flag (s AND NOT f) PST_RECEIVING = has_flag s PST_RECEIVING"
    "has_flag (s AND NOT f) PST_FREE_SLOT = has_flag s PST_FREE_SLOT"
  using assms by (simp_all add: other_bits_def has_flag_def and_or_distrib_disjoint and_not_disjoint)

lemma kernel_ok_SET_other:
  assumes ok: "kernel_ok k cur" and f: "other_bits f" and p: "state (proc_table k p) \<noteq> PST_FREE_SLOT"
  shows "kernel_ok (PST_SET p f k) cur" and "same_procs k (PST_SET p f k)"
proof -
  note K = kernel_okD [OF ok]
  note nf = not_free [OF K(6) p]
  note * = ipc_inv_other_state [OF K(1) PST_SET_fields(1) refl, of p f, unfolded other_bits_set [OF f]]
  have "ipc_inv (PST_SET p f k)" "same_procs k (PST_SET p f k)"
    using nf p by (auto intro!: * simp: PST_IS_SET_def)
  then show "kernel_ok (PST_SET p f k) cur" "same_procs k (PST_SET p f k)"
    using kernel_ok_change [OF ok proc_change_SET] by auto
qed

lemma kernel_ok_UNSET_other:
  assumes ok: "kernel_ok k cur" and f: "other_bits f" and p: "state (proc_table k p) \<noteq> PST_FREE_SLOT"
  shows "kernel_ok (PST_UNSET p f k) cur" and "same_procs k (PST_UNSET p f k)"
proof -
  note K = kernel_okD [OF ok]
  note nf = not_free [OF K(6) p]
  note * = ipc_inv_other_state [OF K(1) PST_UNSET_fields(1) refl, of p f, unfolded other_bits_set [OF f]]
  have "ipc_inv (PST_UNSET p f k)" "same_procs k (PST_UNSET p f k)"
    using nf p by (auto intro!: * simp: PST_IS_SET_def)
  then show "kernel_ok (PST_UNSET p f k) cur" "same_procs k (PST_UNSET p f k)"
    using kernel_ok_change [OF ok proc_change_UNSET] by auto
qed

section \<open>Raising a signal\<close>

definition sig_mask :: "int \<Rightarrow> u64" where
  "sig_mask s = scast (push_bit (nat s) (1 :: u32))"

lemma sig_mask_bit: "0 \<le> s \<Longrightarrow> s < 32 \<Longrightarrow> bit (sig_mask s) (nat s)"
  by (auto simp: sig_mask_def bit_simps nat_less_iff)

lemma sig_mask_nonzero: "0 \<le> s \<Longrightarrow> s < 32 \<Longrightarrow> (w OR sig_mask s) AND sig_mask s \<noteq> 0"
  using sig_mask_bit [of s] by (metis bit_0_eq bit_and_iff bit_or_iff bot_apply bot_bool_def)

lemma sig_ops [simp]:
  assumes "0 \<le> s" "s < 32"
  shows "sigaddset w s = Inr (w OR sig_mask s)" "sigismember w s = Inr (w AND sig_mask s \<noteq> 0)"
  using assms by (simp_all add: sigaddset_def sigismember_def sig_bit_def sig_mask_def)

text \<open>The parts of the kernel that message passing does not touch.\<close>

definition rest :: "kernel \<Rightarrow> _" where
  "rest k = (jiffies k, umsg k, umw k, uasync k, uwr k, mmrequest k, timer_list k, next_timeout k,
     proc_ptr k, fpu_owner k, idle_ticks k)"

lemma rest_simps [simp]:
  "rest (upd_proc p f k) = rest k" "rest (upd_priv i g k) = rest k" "rest (deliver_to d m k) = rest k"
  "rest (PST_SET p s k) = rest k" "rest (PST_UNSET p s k) = rest k"
  by (simp_all add: rest_def)

text \<open>
  The system task is in its slot; a signal set has reached a process when it is pending for its next
  receive or already in the message that is being delivered.
\<close>

definition system_task :: "kernel \<Rightarrow> bool" where
  "system_task k \<longleftrightarrow> endpoint (proc_table k 1) = SYSTEM \<and> state (proc_table k 1) \<noteq> PST_FREE_SLOT"

definition told :: "kernel \<Rightarrow> nat \<Rightarrow> int \<Rightarrow> bool" where
  "told k p s \<longleftrightarrow>
     (\<exists>i j. priv_ix (proc_table k p) = Some i \<and> priv_ix (proc_table k 1) = Some j \<and>
        GET_BIT (notify_pending (priv_table k i)) j \<and> psig_pending (priv_table k i) AND sig_mask s \<noteq> 0) \<or>
     (has_flag (flags (proc_table k p)) PF_DELIVER_MSG \<and> source (deliver_msg (proc_table k p)) = SYSTEM \<and>
        mtype (deliver_msg (proc_table k p)) = NOTIFY_MSG \<and>
        (\<exists>w. body (deliver_msg (proc_table k p)) = SIGSET w \<and> w AND sig_mask s \<noteq> 0))"

lemma unset_or: "(s AND - 5) OR 4 = s OR (4 :: u32)"
proof -
  have "- 5 = NOT (4 :: u32)" by simp
  then show ?thesis by (simp only:) (auto simp: bit_eq_iff bit_simps)
qed

lemma send_sig_ok:
  assumes ok: "kernel_ok k cur" and p: "endpt_proc k ep = Some p" "ep \<noteq> ANY" "ep \<noteq> NO_TASK" and sys: "system_task k"
    and s: "0 \<le> s" "s < 32"
  shows "\<exists>k'. send_sig k ep s = Inr (0, k') \<and> kernel_ok k' cur \<and> same_procs k k' \<and> told k' p s \<and> rest k' = rest k \<and>
    (\<forall>q. q \<noteq> p \<longrightarrow> proc_table k' q = proc_table k q) \<and> (\<forall>q. priv_ix (proc_table k' q) = priv_ix (proc_table k q)) \<and>
    (\<forall>q. mm_req (proc_table k' q) = mm_req (proc_table k q)) \<and>
    state (proc_table k' p) OR PST_RECEIVING = state (proc_table k p) OR PST_RECEIVING"
proof -
  note D = dest_resolvable [OF p]
  obtain i where i: "i < NR_PRIV_PROCS" "priv_of k p = Inr i" "priv_ix (proc_table k p) = Some i"
    using privs_okE [OF kernel_okD(2) [OF ok] resolvable_live [OF D(1)]] by metis
  define k1 where "k1 = upd_priv i (psig_pending_update (\<lambda>_. psig_pending (priv_table k i) OR sig_mask s)) k"
  have k1: "proc_table k1 = proc_table k" "psig_pending (priv_table k1 i) = psig_pending (priv_table k i) OR sig_mask s"
    "rest k1 = rest k" by (simp_all add: k1_def)
  have ok1: "kernel_ok k1 cur" unfolding k1_def by (rule kernel_ok_upd_priv [OF ok]) auto
  have sp1: "same_procs k k1" by (simp add: same_procs_def k1)
  have p1: "endpt_proc k1 ep = Some p" using p(1) endpt_proc_cong [OF sp1] by simp
  have sys1: "live k1 1" "endpoint (proc_table k1 1) = SYSTEM" using sys by (auto simp: system_task_def live_def k1)
  have m: "send_sig k ep s = bind_res (msg_notify k1 1 ep) (\<lambda>(_, k). Inr (0, k))"
    using p(1) i(3) s D(2) by (simp add: send_sig_def k1_def Let_def proc_addr_def proc_slot_def)
  show ?thesis
  proof (cases "is_waiting_for k1 p SYSTEM")
    case True
    define msg where "msg = reset_msg\<lparr>source := SYSTEM, mtype := NOTIFY_MSG, body := SIGSET (psig_pending (priv_table k i) OR sig_mask s)\<rparr>"
    define k2 where "k2 = upd_priv i (psig_pending_update (\<lambda>_. 0)) k1"
    have ok2: "kernel_ok k2 cur" unfolding k2_def by (rule kernel_ok_upd_priv [OF ok1]) auto
    have k2: "proc_table k2 = proc_table k" "rest k2 = rest k" by (simp_all add: k2_def k1)
    have nf: "state (proc_table k2 p) \<noteq> PST_FREE_SLOT" using waiting_not_free [OF True] by (simp add: k1 k2)
    have "msg_notify k1 1 ep = Inr (0, deliver_to p msg k2)"
      using True p1 i(3) sys1(2) k1 by (simp add: msg_notify_def set_notify_msg_def priv_of_def Let_def k2_def msg_def)
    moreover have "told (deliver_to p msg k2) p s"
      using sig_mask_nonzero [OF s] by (simp add: told_def deliver_to_table msg_def flag_simps)
    moreover have "same_procs k (deliver_to p msg k2)"
      using deliver_to_same [OF kernel_okD(6) [OF ok2] nf] by (simp add: same_procs_def k2)
    ultimately show ?thesis
      using m kernel_ok_deliver [OF ok2 nf] by (simp add: deliver_to_table k2 unset_or)
  next
    case False
    obtain j where j: "priv_of k1 1 = Inr j" "priv_ix (proc_table k1 1) = Some j" "j < NR_PRIV_PROCS" "pr_id (priv_table k1 j) = j" "has_owner k1 j"
      using privs_okE [OF kernel_okD(2) [OF ok1] sys1(1)] by metis
    define k2 where "k2 = upd_priv i (notify_pending_update (\<lambda>m. SET_BIT m j)) k1"
    have len: "length (notify_pending (priv_table k1 i)) = 1" using pending_bits(1) [OF kernel_okD(2) [OF ok1] i(1)] .
    have bit: "GET_BIT (SET_BIT (notify_pending (priv_table k1 i)) j) x \<longleftrightarrow> x = j \<or> GET_BIT (notify_pending (priv_table k1 i)) x" for x
      by (rule bm.member_insert) (use len j(3) in simp)
    have "kernel_ok k2 cur" unfolding k2_def
      by (rule kernel_ok_upd_priv [OF ok1]) (use j(5) in \<open>auto simp: length_SET_BIT bit\<close>)
    moreover have "msg_notify k1 1 ep = Inr (0, k2)"
      using False p1 i(3) j sys1(2) by (simp add: msg_notify_def priv_of_def k1 k2_def)
    moreover have "told k2 p s"
      using sig_mask_nonzero [OF s] i(3) j(2) bit by (simp add: told_def k2_def k1)
    ultimately show ?thesis using m by (simp add: k2_def k1 same_procs_def)
  qed
qed

lemma other_bits_sig [simp]: "other_bits (PST_SIGNALED OR PST_SIG_PENDING)" "other_bits PST_SIGNALED" "other_bits PST_SIG_PENDING"
  by (simp_all add: other_bits_def)

lemma kernel_ok_sig_pending: "kernel_ok k cur \<Longrightarrow> kernel_ok (upd_proc p (sig_pending_update f) k) cur"
  by (erule kernel_ok_upd_proc) (simp add: ipc_view_def proc_queue_def sched_wf_def)

text \<open>
  Raising a signal for a process other than the process manager always succeeds: the signal is
  recorded, the process is blocked and the process manager has been told.
\<close>

lemma ksig_proc_ok:
  assumes ok: "kernel_ok k cur" and p: "endpt_proc k ep = Some p" "ep \<noteq> ANY" "ep \<noteq> NO_TASK"
    and pm: "endpt_proc k TASK_PM = Some pm" "p \<noteq> pm" and sys: "system_task k"
    and s: "0 \<le> s" "s < 32" and new: "sig_pending (proc_table k p) = 0" "\<not> PST_IS_SET k p PST_SIGNALED"
  shows "\<exists>k'. ksig_proc k ep s = Inr k' \<and> kernel_ok k' cur \<and> same_procs k k' \<and> told k' pm SIGKSIG \<and>
    proc_table k' p = (proc_table k p)\<lparr>state := state (proc_table k p) OR (PST_SIGNALED OR PST_SIG_PENDING), sig_pending := sig_mask s\<rparr> \<and>
    (\<forall>q. q \<noteq> p \<and> q \<noteq> pm \<longrightarrow> proc_table k' q = proc_table k q) \<and>
    state (proc_table k' pm) OR PST_RECEIVING = state (proc_table k pm) OR PST_RECEIVING"
proof -
  note D = dest_resolvable [OF p]
  define k1 where "k1 = upd_proc p (sig_pending_update (\<lambda>_. sig_mask s)) k"
  define k2 where "k2 = PST_SET p (PST_SIGNALED OR PST_SIG_PENDING) k1"
  have ok1: "kernel_ok k1 cur" unfolding k1_def by (rule kernel_ok_sig_pending [OF ok])
  have nf: "state (proc_table k1 p) \<noteq> PST_FREE_SLOT" using resolvable_not_free [OF D(1)] by (simp add: k1_def)
  have ok2: "kernel_ok k2 cur" and sp12: "same_procs k1 k2"
    unfolding k2_def by (rule kernel_ok_SET_other [OF ok1 other_bits_sig(1) nf])+
  have sp: "same_procs k k2" using sp12 by (auto simp: same_procs_def k1_def)
  have pm2: "endpt_proc k2 TASK_PM = Some pm" using pm(1) endpt_proc_cong [OF sp] by simp
  have sys2: "system_task k2" using sys sp by (simp add: system_task_def same_procs_def)
  from send_sig_ok [OF ok2 pm2 _ _ sys2, of SIGKSIG] obtain k' where k': "send_sig k2 TASK_PM SIGKSIG = Inr (0, k')" "kernel_ok k' cur"
      "same_procs k2 k'" "told k' pm SIGKSIG" "\<forall>q. q \<noteq> pm \<longrightarrow> proc_table k' q = proc_table k2 q"
      "state (proc_table k' pm) OR PST_RECEIVING = state (proc_table k2 pm) OR PST_RECEIVING"
    by auto
  have "ksig_proc k ep s = Inr k'"
    using p(1) s new k'(1) by (simp add: ksig_proc_def Let_def k1_def k2_def PST_IS_SET_def)
  moreover have "same_procs k k'" using same_procs_trans [OF sp k'(3)] .
  moreover have "proc_table k' p = (proc_table k p)\<lparr>state := state (proc_table k p) OR (PST_SIGNALED OR PST_SIG_PENDING), sig_pending := sig_mask s\<rparr>"
    using k'(5) pm(2) by (simp add: k1_def k2_def)
  moreover have "\<forall>q. q \<noteq> p \<and> q \<noteq> pm \<longrightarrow> proc_table k' q = proc_table k q" using k'(5) by (simp add: k1_def k2_def)
  moreover have "state (proc_table k2 pm) = state (proc_table k pm)" using pm(2) by (simp add: k1_def k2_def)
  ultimately show ?thesis using k' by auto
qed

section \<open>Collecting signals\<close>

lemma getksig_from_None:
  "getksig_from n p k = (None, k') \<Longrightarrow> p \<le> q \<Longrightarrow> q < p + n \<Longrightarrow> \<not> PST_IS_SET k q PST_SIGNALED"
proof (induction n arbitrary: p)
  case (Suc n)
  then show ?case by (cases "q = p") (auto split: if_splits)
qed simp

lemma getksig_from_Some:
  "getksig_from n p k = (Some (ep, w), k') \<Longrightarrow>
    \<exists>q. p \<le> q \<and> q < p + n \<and> PST_IS_SET k q PST_SIGNALED \<and> ep = endpoint (proc_table k q) \<and>
      w = sig_pending (proc_table k q) \<and> k' = PST_UNSET q PST_SIGNALED (upd_proc q (sig_pending_update (\<lambda>_. 0)) k)"
proof (induction n arbitrary: p)
  case (Suc n)
  show ?case
  proof (cases "PST_IS_SET k p PST_SIGNALED")
    case True
    with Suc.prems show ?thesis by (intro exI [of _ p]) auto
  next
    case False
    with Suc.prems have "getksig_from n (p + 1) k = (Some (ep, w), k')" by simp
    from Suc.IH [OF this] obtain q where "p + 1 \<le> q" "q < p + 1 + n" "PST_IS_SET k q PST_SIGNALED"
        "ep = endpoint (proc_table k q)" "w = sig_pending (proc_table k q)"
        "k' = PST_UNSET q PST_SIGNALED (upd_proc q (sig_pending_update (\<lambda>_. 0)) k)" by blast
    then show ?thesis by (intro exI [of _ q] conjI) (linarith | assumption)+
  qed
qed simp

lemma getksig_first:
  assumes p: "NR_TASKS \<le> p" "p < NR_PROCS" "PST_IS_SET k p PST_SIGNALED"
    and only: "\<And>q. NR_TASKS \<le> q \<Longrightarrow> q < NR_PROCS \<Longrightarrow> PST_IS_SET k q PST_SIGNALED \<Longrightarrow> q = p"
  shows "sys_getksig k = (Some (endpoint (proc_table k p), sig_pending (proc_table k p)),
    PST_UNSET p PST_SIGNALED (upd_proc p (sig_pending_update (\<lambda>_. 0)) k))"
proof -
  obtain r k' where g: "getksig_from (NR_PROCS - NR_TASKS) NR_TASKS k = (r, k')" by fastforce
  show ?thesis
  proof (cases r)
    case None
    then show ?thesis using getksig_from_None [OF g [unfolded None] p(1)] p by simp
  next
    case (Some x)
    obtain ep w where x: "x = (ep, w)" by fastforce
    from getksig_from_Some [OF g [unfolded Some x]] only show ?thesis
      unfolding sys_getksig_def g Some x by auto
  qed
qed

lemma set_then_clear: "s AND f = 0 \<Longrightarrow> s AND g = 0 \<Longrightarrow> ((s OR (f OR g)) AND NOT f) AND NOT g = (s :: u32)"
  by (auto simp: bit_eq_iff bit_simps)

section \<open>Kernels without blocked senders\<close>

text \<open>
  The kernel in which slot \<open>s\<close> holds process number \<open>s - NR_TASKS\<close> of generation 0 with the state
  \<open>st s\<close>.  The first \<open>NR_PRIV_PROCS\<close> processes have the privilege structure of the same index, the
  others share that of process \<open>INIT\<close>.
\<close>

definition quiet_priv :: "nat \<Rightarrow> nat" where
  "quiet_priv s = (if s < NR_PRIV_PROCS then s else 17)"

definition quiet :: "(nat \<Rightarrow> u32) \<Rightarrow> kernel" where
  "quiet st = blank_kernel
    \<lparr>proc_table := (\<lambda>s. if s < NR_SLOTS
       then blank_proc\<lparr>endpoint := int s - 4, state := st s, priv_ix := Some (quiet_priv s), recvfrom := ANY\<rparr>
       else blank_proc),
     priv_table := (\<lambda>i. blank_priv\<lparr>pr_id := i, proc_nr := int i - 4\<rparr>)\<rparr>"

lemma quiet_table:
  "proc_table (quiet st) s = (if s < NR_SLOTS
     then blank_proc\<lparr>endpoint := int s - 4, state := st s, priv_ix := Some (quiet_priv s), recvfrom := ANY\<rparr> else blank_proc)"
  "priv_table (quiet st) i = blank_priv\<lparr>pr_id := i, proc_nr := int i - 4\<rparr>"
  by (simp_all add: quiet_def)

lemma quiet_endpt:
  assumes "s \<le> NR_PROCS" and "st s \<noteq> PST_FREE_SLOT"
  shows "endpt_proc (quiet st) (int s - 4) = Some s"
proof -
  have "int s mod 1024 = int s" using assms(1) by simp
  then show ?thesis
    using assms by (auto simp: endpt_proc_def verify_endpt_def Let_def ENDPOINT_P_mod proc_slot_def proc_addr_def quiet_table)
qed

lemma quiet_ok:
  assumes ns: "\<And>s. \<not> has_flag (st s) PST_SENDING" and fc: "\<And>s. has_flag (st s) PST_FREE_SLOT \<Longrightarrow> st s = PST_FREE_SLOT"
    and run: "\<And>s. st s = 0 \<Longrightarrow> s = cur" and int: "st 3 \<noteq> PST_FREE_SLOT" and init: "st 17 \<noteq> PST_FREE_SLOT"
  shows "kernel_ok (quiet st) cur"
proof -
  let ?k = "quiet st"
  have nsend: "\<not> PST_IS_SET ?k p PST_SENDING" for p
    using ns by (simp add: PST_IS_SET_def quiet_table blank_proc_def flag_simps)
  then have e: "sends_to ?k = {}" by (simp add: sends_to_def)
  have sq: "squeue ?k d []" for d by (simp add: squeue_def senders_def e quiet_table blank_proc_def)
  have "free_clean ?k"
    using fc by (auto simp: free_clean_def PST_IS_SET_def quiet_table blank_proc_def flag_simps)
  moreover have "rendezvous ?k"
    using nsend e by (auto simp: rendezvous_def quiet_table blank_proc_def flag_simps)
  ultimately have "ipc_inv ?k"
    using nsend e sq by (auto simp: ipc_inv_def ipc_graph_def sends_live_def acyclic_def)
  moreover have live: "live ?k p \<longleftrightarrow> p < NR_SLOTS \<and> st p \<noteq> PST_FREE_SLOT" for p
    using int by (auto simp: live_def quiet_table blank_proc_def proc_addr_def proc_slot_def)
  have "has_owner ?k i" if "i < NR_PRIV_PROCS" "st i \<noteq> PST_FREE_SLOT" for i
    using that by (simp add: has_owner_def live priv_proc_def quiet_table proc_addr_def proc_slot_def)
  then have "privs_ok ?k"
    using init by (auto simp: privs_ok_def live quiet_table quiet_priv_def blank_proc_def blank_priv_def GET_BIT_def)
  moreover have "tables_writable ?k" by (simp add: tables_writable_def quiet_def blank_kernel_def)
  moreover have "sched_inv ?k" "none_lost ?k cur"
    using blank_kernel_sched(1) run
    by (auto simp: sched_inv_def queues_ok_def in_queue_def none_lost_def quiet_def blank_kernel_def
      blank_proc_def sched_wf_def proc_queue_def)
  ultimately show ?thesis by (simp add: kernel_ok_def)
qed

section \<open>Properties\<close>

text \<open>
  C16: A signal raised for a live process other than the process manager blocks the process, reaches
  the process manager as a notification, is returned by the next \<open>getksig\<close> with exactly the signals
  raised, and \<open>endksig\<close> then restores the process as it was.
\<close>

theorem signal_roundtrip:
  assumes ok: "kernel_ok k cur" and p: "endpt_proc k ep = Some p" "0 \<le> ep" "ep \<noteq> ANY" "ep \<noteq> NO_TASK"
    "NR_TASKS \<le> p" "p < NR_PROCS"
    and pm: "endpt_proc k TASK_PM = Some pm" "p \<noteq> pm" and sys: "system_task k" and s: "0 \<le> s" "s < 32"
    and new: "sig_pending (proc_table k p) = 0" "\<not> PST_IS_SET k p PST_SIG_PENDING"
      "\<And>q. NR_TASKS \<le> q \<Longrightarrow> q < NR_PROCS \<Longrightarrow> \<not> PST_IS_SET k q PST_SIGNALED"
  shows "\<exists>k1 k2 k3. sys_kill k ep s = Inr (0, k1) \<and> told k1 pm SIGKSIG \<and> state (proc_table k1 p) \<noteq> 0 \<and>
    sys_getksig k1 = (Some (ep, sig_mask s), k2) \<and> state (proc_table k2 p) \<noteq> 0 \<and>
    sys_endksig k2 ep = (0, k3) \<and> proc_table k3 p = proc_table k p \<and> kernel_ok k3 cur"
proof -
  have nsig: "\<not> PST_IS_SET k p PST_SIGNALED" using new(3) p(5,6) by blast
  note D = dest_resolvable [OF p(1,3,4)]
  obtain k1 where k1: "ksig_proc k ep s = Inr k1" "kernel_ok k1 cur" "same_procs k k1" "told k1 pm SIGKSIG"
      "proc_table k1 p = (proc_table k p)\<lparr>state := state (proc_table k p) OR (PST_SIGNALED OR PST_SIG_PENDING), sig_pending := sig_mask s\<rparr>"
      "\<forall>q. q \<noteq> p \<and> q \<noteq> pm \<longrightarrow> proc_table k1 q = proc_table k q"
      "state (proc_table k1 pm) OR PST_RECEIVING = state (proc_table k pm) OR PST_RECEIVING"
    using ksig_proc_ok [OF ok p(1,3,4) pm sys s new(1) nsig] by blast
  have "verify_endpt k ep \<noteq> None" using p(1) verify_endpt_Some [of k ep] by auto
  then have kill: "sys_kill k ep s = Inr (0, k1)" using k1(1) p(2) s by (simp add: sys_kill_def)
  have "PST_IS_SET k1 p PST_SIGNALED" using k1(5) by (simp add: PST_IS_SET_def flag_simps)
  moreover have "q = p" if "NR_TASKS \<le> q" "q < NR_PROCS" "PST_IS_SET k1 q PST_SIGNALED" for q
  proof (rule ccontr)
    assume "q \<noteq> p"
    have "has_flag (state (proc_table k1 pm) OR PST_RECEIVING) PST_SIGNALED = has_flag (state (proc_table k pm) OR PST_RECEIVING) PST_SIGNALED"
      using k1(7) by simp
    then have "PST_IS_SET k1 pm PST_SIGNALED = PST_IS_SET k pm PST_SIGNALED" by (simp add: PST_IS_SET_def flag_simps)
    with \<open>q \<noteq> p\<close> k1(6) have "PST_IS_SET k q PST_SIGNALED" using that(3) by (cases "q = pm") (auto simp: PST_IS_SET_def)
    with new(3) that show False by blast
  qed
  ultimately have get: "sys_getksig k1 = (Some (endpoint (proc_table k1 p), sig_pending (proc_table k1 p)),
      PST_UNSET p PST_SIGNALED (upd_proc p (sig_pending_update (\<lambda>_. 0)) k1))"
    using getksig_first p(5,6) by blast
  define k1' where "k1' = upd_proc p (sig_pending_update (\<lambda>_. 0)) k1"
  define k2 where "k2 = PST_UNSET p PST_SIGNALED k1'"
  define k3 where "k3 = PST_UNSET p PST_SIG_PENDING k2"
  have nf: "state (proc_table q p) \<noteq> PST_FREE_SLOT" if "same_procs k q" for q
    using that resolvable_not_free [OF D(1)] by (simp add: same_procs_def)
  have ok1: "kernel_ok k1' cur" "same_procs k k1'"
    using kernel_ok_sig_pending [OF k1(2)] k1(3) by (auto simp: k1'_def same_procs_def)
  have ok2: "kernel_ok k2 cur" "same_procs k k2"
    using kernel_ok_UNSET_other [OF ok1(1) other_bits_sig(2) nf [OF ok1(2)]] same_procs_trans [OF ok1(2)] by (auto simp: k2_def)
  have ok3: "kernel_ok k3 cur"
    using kernel_ok_UNSET_other [OF ok2(1) other_bits_sig(3) nf [OF ok2(2)]] by (simp add: k3_def)
  have t: "proc_table k2 p = (proc_table k p)\<lparr>state := (state (proc_table k p) OR (PST_SIGNALED OR PST_SIG_PENDING)) AND NOT PST_SIGNALED\<rparr>"
    using k1(5) new(1) by (simp add: k2_def k1'_def)
  have fl: "PST_IS_SET k2 p PST_SIG_PENDING" "\<not> PST_IS_SET k2 p PST_SIGNALED" by (simp_all add: PST_IS_SET_def t flag_simps)
  have "endpt_proc k2 ep = Some p" using endpt_proc_cong [OF ok2(2)] p(1) by simp
  then have fin: "sys_endksig k2 ep = (0, k3)" using fl by (simp add: sys_endksig_def k3_def)
  have "proc_table k3 p = proc_table k p"
    using set_then_clear [of "state (proc_table k p)" PST_SIGNALED PST_SIG_PENDING] nsig new(2)
    by (simp add: k3_def t PST_IS_SET_def has_flag_def)
  then show ?thesis
    using kill k1(4) get fin ok3 has_flag_nonzero [of "state (proc_table k2 p)" PST_SIG_PENDING] fl(1)
      has_flag_nonzero [of "state (proc_table k1 p)" PST_SIGNALED] \<open>PST_IS_SET k1 p PST_SIGNALED\<close> D(2) k1(5)
    by (auto simp: k2_def k1'_def PST_IS_SET_def)
qed

text \<open>Process 5 waits for a message; so does the process manager.\<close>

definition waiting_states :: "nat \<Rightarrow> u32" where
  "waiting_states s = (if s \<in> {5, 9} then PST_RECEIVING else if s \<in> {1, 3, 17, NR_PROCS} then PST_STOPPED else PST_FREE_SLOT)"

lemma waiting_ok: "kernel_ok (quiet waiting_states) 0"
  by (rule quiet_ok) (auto simp: waiting_states_def flag_simps split: if_splits)

theorem signal_roundtrip_witness:
  "\<exists>k1 k2 k3. sys_kill (quiet waiting_states) 5 9 = Inr (0, k1) \<and> told k1 5 SIGKSIG \<and> state (proc_table k1 9) \<noteq> 0 \<and>
    sys_getksig k1 = (Some (5, sig_mask 9), k2) \<and> state (proc_table k2 9) \<noteq> 0 \<and>
    sys_endksig k2 5 = (0, k3) \<and> proc_table k3 9 = proc_table (quiet waiting_states) 9 \<and> kernel_ok k3 0"
proof (rule signal_roundtrip [OF waiting_ok])
  show "endpt_proc (quiet waiting_states) 5 = Some 9" "endpt_proc (quiet waiting_states) TASK_PM = Some 5"
    using quiet_endpt [of 9 waiting_states] quiet_endpt [of 5 waiting_states] by (simp_all add: waiting_states_def)
  show "system_task (quiet waiting_states)" by (simp add: system_task_def quiet_table waiting_states_def)
  show "\<not> PST_IS_SET (quiet waiting_states) q PST_SIGNALED" for q
    by (simp add: PST_IS_SET_def quiet_table waiting_states_def blank_proc_def flag_simps)
qed (simp_all add: quiet_table waiting_states_def blank_proc_def PST_IS_SET_def flag_simps)

text \<open>
  The scan of \<open>getksig\<close> ends at slot \<open>NR_PROCS\<close> although process number 252 in that slot is
  addressable: \<open>sys_kill\<close> blocks it, and no \<open>getksig\<close> ever returns or releases it.
\<close>

theorem last_proc_signal_stuck:
  assumes "kernel_ok k cur" and "endpt_proc k ep = Some NR_PROCS" "0 \<le> ep" "ep \<noteq> ANY" "ep \<noteq> NO_TASK"
    and "endpt_proc k TASK_PM = Some pm" "NR_PROCS \<noteq> pm" and "system_task k" and "0 \<le> s" "s < 32"
    and "sig_pending (proc_table k NR_PROCS) = 0" "\<not> PST_IS_SET k NR_PROCS PST_SIGNALED"
  shows "\<exists>k1. sys_kill k ep s = Inr (0, k1) \<and> PST_IS_SET k1 NR_PROCS PST_SIGNALED \<and>
    (\<forall>k2. proc_table k2 NR_PROCS = proc_table k1 NR_PROCS \<longrightarrow> proc_table (snd (sys_getksig k2)) NR_PROCS = proc_table k1 NR_PROCS)"
proof -
  obtain k1 where k1: "ksig_proc k ep s = Inr k1"
      "proc_table k1 NR_PROCS = (proc_table k NR_PROCS)\<lparr>state := state (proc_table k NR_PROCS) OR (PST_SIGNALED OR PST_SIG_PENDING), sig_pending := sig_mask s\<rparr>"
    using ksig_proc_ok [OF assms(1,2,4-12)] by blast
  have "verify_endpt k ep \<noteq> None" using assms(2) verify_endpt_Some [of k ep] by auto
  then have "sys_kill k ep s = Inr (0, k1)" using k1(1) assms(3,10) by (simp add: sys_kill_def)
  moreover have "PST_IS_SET k1 NR_PROCS PST_SIGNALED" using k1(2) by (simp add: PST_IS_SET_def flag_simps)
  moreover have "proc_table (snd (getksig_from n p k2)) NR_PROCS = proc_table k2 NR_PROCS" if "p + n \<le> NR_PROCS" for n p k2
    using that by (induction n arbitrary: p) auto
  then have "proc_table (snd (sys_getksig k2)) NR_PROCS = proc_table k2 NR_PROCS" for k2 by (simp add: sys_getksig_def)
  ultimately show ?thesis by auto
qed

theorem last_proc_signal_stuck_witness:
  "\<exists>k1. sys_kill (quiet waiting_states) 252 9 = Inr (0, k1) \<and> PST_IS_SET k1 NR_PROCS PST_SIGNALED \<and>
    (\<forall>k2. proc_table k2 NR_PROCS = proc_table k1 NR_PROCS \<longrightarrow> proc_table (snd (sys_getksig k2)) NR_PROCS = proc_table k1 NR_PROCS)"
proof (rule last_proc_signal_stuck [OF waiting_ok])
  show "endpt_proc (quiet waiting_states) 252 = Some NR_PROCS" "endpt_proc (quiet waiting_states) TASK_PM = Some 5"
    using quiet_endpt [of NR_PROCS waiting_states] quiet_endpt [of 5 waiting_states] by (simp_all add: waiting_states_def)
  show "system_task (quiet waiting_states)" by (simp add: system_task_def quiet_table waiting_states_def)
qed (simp_all add: quiet_table waiting_states_def blank_proc_def PST_IS_SET_def flag_simps)

end
