(* ===== verification/Mm_Request.thy ===== *)
theory Mm_Request
  imports Signals
begin

text \<open>
  Copies between address spaces and the requests to the memory manager they lead to
  (\<open>kernel/arch/x86/memory.c\<close>, \<open>kernel/system/sys_vmctl.c\<close>, \<open>deliver_msg\<close> of \<open>kernel/proc.c\<close>).
  A copy that faults on a page that is not mapped blocks its caller, links it into the chain of
  requests and notifies the memory manager, which fetches the requests with \<open>VMCTL_GET_MMREQ\<close> and
  answers with \<open>VMCTL_REPLY_MMREQ\<close>.
\<close>

unbundle bit_operations_syntax

section \<open>Operations\<close>

abbreviation MMSUSPEND :: int where "MMSUSPEND \<equiv> - 1001"
abbreviation MMREQ_CHECK :: int where "MMREQ_CHECK \<equiv> 1"
abbreviation MMREQ_TYPE_SYSCALL :: int where "MMREQ_TYPE_SYSCALL \<equiv> 1"
abbreviation MMREQ_TYPE_DELIVERMSG :: int where "MMREQ_TYPE_DELIVERMSG \<equiv> 2"
abbreviation SIZEOF_MESSAGE :: nat where "SIZEOF_MESSAGE \<equiv> 80"

definition mm_suspend :: "nat \<Rightarrow> endpoint \<Rightarrow> nat \<Rightarrow> nat \<Rightarrow> bool \<Rightarrow> int \<Rightarrow> kernel \<Rightarrow> kernel res" where
  "mm_suspend caller target laddr bytes wr type k =
     (if endpoint (proc_table k caller) = TASK_MM then Inl Panic
      else
        let k = PST_SET caller PST_MMREQUEST k;
            old = mmrequest k;
            k = upd_proc caller (mm_req_update (\<lambda>r. r\<lparr>req_type := MMREQ_CHECK, resume_type := type,
                  req_target := target, check_start := laddr, check_len := bytes, check_write := wr,
                  next_request := old\<rparr>)) k;
            k = k\<lparr>mmrequest := Some caller\<rparr>
        in if old = None
           then bind_res (send_sig k TASK_MM SIGKMEM) (\<lambda>(r, k). if r \<noteq> 0 then Inl Panic else Inr k)
           else Inr k)"

text \<open>The process is given a result only while it resumes a system call.\<close>

definition check_mm_result :: "kernel \<Rightarrow> nat option \<Rightarrow> int" where
  "check_mm_result k caller =
     (case caller of
        None \<Rightarrow> 0
      | Some c \<Rightarrow> if has_flag (flags (proc_table k c)) PF_RESUME_SYSCALL
                  then req_result (mm_req (proc_table k c)) else 0)"

text \<open>
  What \<open>la_la_copy\<close> returns: success, a fault that no mapping can repair, a fault on the page of
  the source or of the destination, or anything else.  It depends on the page tables, which the
  model leaves to the argument \<open>la\<close> of \<open>vir_copy_with\<close>.
\<close>

datatype la_result = La_Ok | La_EFAULT | La_EFAULT_SRC | La_EFAULT_DEST | La_Other

record vir_addr =
  va_ep :: endpoint
  va_addr :: nat

type_synonym la_copy = "nat option \<Rightarrow> nat \<Rightarrow> nat option \<Rightarrow> nat \<Rightarrow> nat \<Rightarrow> la_result"

definition va_proc :: "kernel \<Rightarrow> vir_addr \<Rightarrow> nat option option" where
  "va_proc k v =
     (if va_ep v = NO_TASK then Some None
      else case endpt_proc k (va_ep v) of None \<Rightarrow> None | Some p \<Rightarrow> Some (Some p))"

definition vir_copy_with :: "la_copy \<Rightarrow> kernel \<Rightarrow> nat option \<Rightarrow> vir_addr \<Rightarrow> vir_addr \<Rightarrow> nat \<Rightarrow> bool \<Rightarrow>
    (int \<times> kernel) res" where
  "vir_copy_with la k caller dest src bytes check =
     (case (va_proc k src, va_proc k dest) of
        (Some ps, Some pd) \<Rightarrow>
          if check_mm_result k caller \<noteq> 0 then Inr (check_mm_result k caller, k)
          else (case la pd (va_addr dest) ps (va_addr src) bytes of
              La_Ok \<Rightarrow> Inr (0, k)
            | La_EFAULT \<Rightarrow> Inr (EFAULT, k)
            | La_Other \<Rightarrow> Inl Panic
            | La_EFAULT_SRC \<Rightarrow>
                (case caller of
                   Some c \<Rightarrow> if check
                     then bind_res (mm_suspend c (va_ep src) (va_addr src) bytes False MMREQ_TYPE_SYSCALL k)
                            (\<lambda>k. Inr (MMSUSPEND, k))
                     else Inr (EFAULT, k)
                 | None \<Rightarrow> Inr (EFAULT, k))
            | La_EFAULT_DEST \<Rightarrow>
                (case caller of
                   Some c \<Rightarrow> if check
                     then bind_res (mm_suspend c (va_ep dest) (va_addr dest) bytes True MMREQ_TYPE_SYSCALL k)
                            (\<lambda>k. Inr (MMSUSPEND, k))
                     else Inr (EFAULT, k)
                 | None \<Rightarrow> Inr (EFAULT, k)))
      | _ \<Rightarrow> Inr (ESRCH, k))"

definition vir_copy_check :: "la_copy \<Rightarrow> kernel \<Rightarrow> nat \<Rightarrow> vir_addr \<Rightarrow> vir_addr \<Rightarrow> nat \<Rightarrow> (int \<times> kernel) res" where
  "vir_copy_check la k caller dest src bytes = vir_copy_with la k (Some caller) dest src bytes True"

definition data_vir_copy_check :: "la_copy \<Rightarrow> kernel \<Rightarrow> nat \<Rightarrow> endpoint \<Rightarrow> nat \<Rightarrow> endpoint \<Rightarrow> nat \<Rightarrow> nat \<Rightarrow>
    (int \<times> kernel) res" where
  "data_vir_copy_check la k caller dest_ep dest_addr src_ep src_addr len =
     vir_copy_check la k caller \<lparr>va_ep = dest_ep, va_addr = dest_addr\<rparr> \<lparr>va_ep = src_ep, va_addr = src_addr\<rparr> len"

text \<open>\<open>copy_user_message\<close> to user memory of process \<open>p\<close>; \<open>None\<close> is a fault.\<close>

definition put_user_message :: "kernel \<Rightarrow> nat \<Rightarrow> nat \<Rightarrow> message \<Rightarrow> kernel option" where
  "put_user_message k p a m =
     (if umw k p a then Some (k\<lparr>umsg := (umsg k)(p := (umsg k p)(a \<mapsto> m))\<rparr>) else None)"

definition deliver_msg_to_user :: "nat \<Rightarrow> kernel \<Rightarrow> kernel res" where
  "deliver_msg_to_user p k =
     (case put_user_message k p (recv_msg (proc_table k p)) (deliver_msg (proc_table k p)) of
        None \<Rightarrow>
          if has_flag (flags (proc_table k p)) PF_MSG_FAILED
          then ksig_proc k (endpoint (proc_table k p)) SIGSEGV
          else bind_res (mm_suspend p (endpoint (proc_table k p)) (recv_msg (proc_table k p)) SIZEOF_MESSAGE
                 True MMREQ_TYPE_DELIVERMSG k)
               (\<lambda>k. Inr (upd_proc p (flags_update (\<lambda>f. f OR PF_MSG_FAILED)) k))
      | Some k \<Rightarrow>
          Inr (upd_proc p (\<lambda>q. q\<lparr>deliver_msg := reset_msg,
                 flags := flags q AND NOT (PF_DELIVER_MSG OR PF_MSG_FAILED),
                 recv_msg := 0, recvfrom := NO_TASK\<rparr>) k))"

text \<open>
  \<open>sys_vmctl\<close>: its requests, and what \<open>VMCTL_GET_MMREQ\<close> stores in the message (target, address,
  length, write flag and caller).  The requests that only read or write tables of the architecture
  do not change the state of the model; \<open>VMCTL_SET_ADDRESS_SPACE\<close> also releases the process.
\<close>

datatype vmctl_request =
    VMCTL_BOOTINHIBIT_CLEAR | VMCTL_MMINHIBIT_CLEAR | VMCTL_GET_KERN_MAPPING | VMCTL_REPLY_KERN_MAPPING
  | VMCTL_PAGEFAULT_CLEAR | VMCTL_CLEAR_MEMCACHE | VMCTL_GET_MMREQ | VMCTL_REPLY_MMREQ int
  | VMCTL_GETPDBR | VMCTL_SET_ADDRESS_SPACE | VMCTL_FLUSHTLB | VMCTL_UNKNOWN

record mmreq_msg =
  MMREQ_TARGET :: endpoint
  MMREQ_ADDR :: nat
  MMREQ_LEN :: nat
  MMREQ_FLAGS :: bool
  MMREQ_CALLER :: endpoint

definition get_mmreq :: "kernel \<Rightarrow> (int \<times> mmreq_msg option \<times> kernel) res" where
  "get_mmreq k =
     (case mmrequest k of
        None \<Rightarrow> Inr (ESRCH, None, k)
      | Some c \<Rightarrow>
          let r = mm_req (proc_table k c) in
          if req_type r \<noteq> MMREQ_CHECK then Inl Panic
          else Inr (req_type r,
                 Some \<lparr>MMREQ_TARGET = req_target r, MMREQ_ADDR = check_start r, MMREQ_LEN = check_len r,
                   MMREQ_FLAGS = check_write r, MMREQ_CALLER = endpoint (proc_table k c)\<rparr>,
                 (upd_proc c (mm_req_update (req_result_update (\<lambda>_. MMSUSPEND))) k)\<lparr>mmrequest := next_request r\<rparr>))"

definition reply_mmreq :: "nat \<Rightarrow> int \<Rightarrow> kernel \<Rightarrow> kernel res" where
  "reply_mmreq p val k =
     (let k = upd_proc p (mm_req_update (req_result_update (\<lambda>_. val))) k;
          t = resume_type (mm_req (proc_table k p))
      in if t = MMREQ_TYPE_SYSCALL
         then Inr (PST_UNSET p PST_MMREQUEST (upd_proc p (flags_update (\<lambda>f. f OR PF_RESUME_SYSCALL)) k))
         else if t = MMREQ_TYPE_DELIVERMSG then Inr (PST_UNSET p PST_MMREQUEST k)
         else Inl Panic)"

definition arch_vmctl :: "nat \<Rightarrow> vmctl_request \<Rightarrow> kernel \<Rightarrow> int \<times> kernel" where
  "arch_vmctl p req k =
     (case req of
        VMCTL_GETPDBR \<Rightarrow> (0, k)
      | VMCTL_SET_ADDRESS_SPACE \<Rightarrow> (0, PST_UNSET p PST_MMINHIBIT k)
      | VMCTL_FLUSHTLB \<Rightarrow> (0, k)
      | _ \<Rightarrow> (EINVAL, k))"

definition sys_vmctl :: "kernel \<Rightarrow> endpoint \<Rightarrow> vmctl_request \<Rightarrow> nat \<Rightarrow> (int \<times> mmreq_msg option \<times> kernel) res" where
  "sys_vmctl k who req p =
     (let target = (if who = SELF then Some p else endpt_proc k who) in
      case req of
        VMCTL_GET_KERN_MAPPING \<Rightarrow> Inr (0, None, k)
      | VMCTL_REPLY_KERN_MAPPING \<Rightarrow> Inr (0, None, k)
      | VMCTL_CLEAR_MEMCACHE \<Rightarrow> Inr (0, None, k)
      | VMCTL_GET_MMREQ \<Rightarrow> get_mmreq k
      | _ \<Rightarrow>
          (case target of
             None \<Rightarrow> Inr (EINVAL, None, k)
           | Some t \<Rightarrow>
               (case req of
                  VMCTL_BOOTINHIBIT_CLEAR \<Rightarrow> Inr (0, None, PST_UNSET t PST_BOOTINHIBIT k)
                | VMCTL_MMINHIBIT_CLEAR \<Rightarrow> Inr (0, None, PST_UNSET t PST_MMINHIBIT k)
                | VMCTL_PAGEFAULT_CLEAR \<Rightarrow> Inr (0, None, PST_UNSET t PST_PAGEFAULT k)
                | VMCTL_REPLY_MMREQ val \<Rightarrow> bind_res (reply_mmreq t val k) (\<lambda>k. Inr (0, None, k))
                | _ \<Rightarrow> (case arch_vmctl t req k of (r, k) \<Rightarrow> Inr (r, None, k)))))"

section \<open>The chain of requests\<close>

lemma kernel_ok_cong:
  assumes "kernel_ok k cur" and eq: "proc_table k' = proc_table k" "priv_table k' = priv_table k" "run_queues k' = run_queues k"
    "run_queue_bitmap k' = run_queue_bitmap k" "uasync k' = uasync k" "uwr k' = uwr k"
  shows "kernel_ok k' cur"
proof -
  note K = kernel_okD [OF assms(1)]
  have "ipc_inv k'" using K(1) ipc_inv_view [of k' k] by (simp add: eq)
  moreover have "privs_ok k'"
    by (rule privs_ok_change [OF K(2)]) (use pending_bits(1,2) [OF K(2)] in \<open>auto simp: live_def eq\<close>)
  moreover have "sched_inv k'" "none_lost k' cur"
    using K(3,4) by (auto simp: eq sched_inv_def none_lost_def queues_ok_def in_queue_def)
  ultimately show ?thesis using K(5) by (simp add: kernel_ok_def tables_writable_def eq)
qed

lemma kernel_ok_mm_req: "kernel_ok k cur \<Longrightarrow> kernel_ok (upd_proc p (mm_req_update f) k) cur"
  by (erule kernel_ok_upd_proc) (simp add: ipc_view_def proc_queue_def sched_wf_def)

lemma kernel_ok_mmrequest: "kernel_ok k cur \<Longrightarrow> kernel_ok (k\<lparr>mmrequest := x\<rparr>) cur"
  by (erule kernel_ok_cong) simp_all

text \<open>The chain is \<open>cs\<close>: distinct blocked processes, each with a check request.\<close>

definition mm_chain :: "kernel \<Rightarrow> nat list \<Rightarrow> bool" where
  "mm_chain k cs \<longleftrightarrow> qpath (\<lambda>c. next_request (mm_req (proc_table k c))) (mmrequest k) cs \<and> distinct cs \<and>
     (\<forall>c \<in> set cs. PST_IS_SET k c PST_MMREQUEST \<and> req_type (mm_req (proc_table k c)) = MMREQ_CHECK)"

lemma mm_chain_cong:
  assumes "mm_chain k cs" and "mmrequest k' = mmrequest k"
    and "\<And>c. c \<in> set cs \<Longrightarrow> mm_req (proc_table k' c) = mm_req (proc_table k c) \<and>
      PST_IS_SET k' c PST_MMREQUEST = PST_IS_SET k c PST_MMREQUEST"
  shows "mm_chain k' cs"
  using assms qpath_cong [of cs "\<lambda>c. next_request (mm_req (proc_table k' c))" "\<lambda>c. next_request (mm_req (proc_table k c))"]
  by (simp add: mm_chain_def)

lemma other_bits_mm [simp]: "other_bits PST_MMREQUEST" "other_bits PST_MMINHIBIT" "other_bits PST_PAGEFAULT" "other_bits PST_BOOTINHIBIT"
  by (simp_all add: other_bits_def)

definition asked :: "mm_request \<Rightarrow> endpoint \<Rightarrow> nat \<Rightarrow> nat \<Rightarrow> bool \<Rightarrow> int \<Rightarrow> bool" where
  "asked r target laddr bytes wr type \<longleftrightarrow> req_type r = MMREQ_CHECK \<and> resume_type r = type \<and> req_target r = target \<and>
     check_start r = laddr \<and> check_len r = bytes \<and> check_write r = wr"

lemma mm_suspend_ok:
  assumes ok: "kernel_ok k cur" and c: "resolvable k c" "endpoint (proc_table k c) \<noteq> TASK_MM" "c \<notin> set cs"
    and mm: "endpt_proc k TASK_MM = Some mm" and sys: "system_task k" and ch: "mm_chain k cs"
  shows "\<exists>k'. mm_suspend c target laddr bytes wr type k = Inr k' \<and> kernel_ok k' cur \<and> same_procs k k' \<and>
    mm_chain k' (c # cs) \<and> (cs = [] \<longrightarrow> told k' mm SIGKMEM) \<and>
    state (proc_table k' c) = state (proc_table k c) OR PST_MMREQUEST \<and> flags (proc_table k' c) = flags (proc_table k c) \<and>
    asked (mm_req (proc_table k' c)) target laddr bytes wr type \<and>
    saved_reqmsg (mm_req (proc_table k' c)) = saved_reqmsg (mm_req (proc_table k c))"
proof -
  define k1 where "k1 = PST_SET c PST_MMREQUEST k"
  define k2 where "k2 = (upd_proc c (mm_req_update (\<lambda>r. r\<lparr>req_type := MMREQ_CHECK, resume_type := type,
    req_target := target, check_start := laddr, check_len := bytes, check_write := wr, next_request := mmrequest k1\<rparr>)) k1)
    \<lparr>mmrequest := Some c\<rparr>"
  have nf: "state (proc_table k c) \<noteq> PST_FREE_SLOT" using resolvable_not_free [OF c(1)] .
  have ok1: "kernel_ok k1 cur" "same_procs k k1"
    using kernel_ok_SET_other [OF ok other_bits_mm(1) nf] by (simp_all add: k1_def)
  have ok2: "kernel_ok k2 cur" unfolding k2_def by (intro kernel_ok_mmrequest kernel_ok_mm_req ok1)
  have sp2: "same_procs k k2" using ok1(2) by (auto simp: same_procs_def k2_def)
  have "c \<noteq> mm" using endpt_proc_endpoint [OF mm] c(2) by auto
  have m1: "mmrequest k1 = mmrequest k" by (simp add: k1_def)
  have t2: "state (proc_table k2 c) = state (proc_table k c) OR PST_MMREQUEST" "flags (proc_table k2 c) = flags (proc_table k c)"
      "asked (mm_req (proc_table k2 c)) target laddr bytes wr type"
      "saved_reqmsg (mm_req (proc_table k2 c)) = saved_reqmsg (mm_req (proc_table k c))"
      "next_request (mm_req (proc_table k2 c)) = mmrequest k"
      "\<And>q. q \<noteq> c \<Longrightarrow> proc_table k2 q = proc_table k q"
    by (simp_all add: k2_def k1_def asked_def)
  have same: "proc_table k2 a = proc_table k a" if "a \<in> set cs" for a using that c(3) by (intro t2(6)) auto
  have "qpath (\<lambda>c. next_request (mm_req (proc_table k2 c))) (mmrequest k) cs =
      qpath (\<lambda>c. next_request (mm_req (proc_table k c))) (mmrequest k) cs"
    by (rule qpath_cong) (simp add: same)
  moreover have "mmrequest k2 = Some c" by (simp add: k2_def)
  ultimately have ch2: "mm_chain k2 (c # cs)"
    using ch c(3) t2(1,3,5) same by (auto simp: mm_chain_def PST_IS_SET_def flag_simps asked_def)
  have sus: "mm_suspend c target laddr bytes wr type k =
      (if mmrequest k = None then bind_res (send_sig k2 TASK_MM SIGKMEM) (\<lambda>(r, k). if r \<noteq> 0 then Inl Panic else Inr k) else Inr k2)"
    using c(2) by (simp add: mm_suspend_def Let_def k2_def k1_def [symmetric] m1)
  show ?thesis
  proof (cases "mmrequest k")
    case None
    then have "cs = []" using ch by (cases cs) (auto simp: mm_chain_def)
    have mm2: "endpt_proc k2 TASK_MM = Some mm" using mm endpt_proc_cong [OF sp2] by simp
    have sys2: "system_task k2" using sys sp2 by (simp add: system_task_def same_procs_def)
    obtain k3 where k3: "send_sig k2 TASK_MM SIGKMEM = Inr (0, k3)" "kernel_ok k3 cur" "same_procs k2 k3" "told k3 mm SIGKMEM"
        "rest k3 = rest k2" "\<forall>q. q \<noteq> mm \<longrightarrow> proc_table k3 q = proc_table k2 q" "\<forall>q. mm_req (proc_table k3 q) = mm_req (proc_table k2 q)"
      using send_sig_ok [OF ok2 mm2 _ _ sys2, of SIGKMEM] by auto
    have "mm_chain k3 (c # cs)"
      using mm_chain_cong [OF ch2, of k3] k3(5,6,7) \<open>cs = []\<close> \<open>c \<noteq> mm\<close> by (simp add: rest_def PST_IS_SET_def)
    then show ?thesis
      using sus None k3 t2 \<open>c \<noteq> mm\<close> same_procs_trans [OF sp2 k3(3)] by simp
  next
    case (Some d)
    then have "cs \<noteq> []" using ch by (auto simp: mm_chain_def)
    with sus Some ok2 sp2 ch2 t2 show ?thesis by simp
  qed
qed

section \<open>Properties\<close>

lemma kernel_ok_flags:
  assumes "kernel_ok k cur" and "\<And>f. has_flag (g f) PF_DELIVER_MSG = has_flag f PF_DELIVER_MSG"
  shows "kernel_ok (upd_proc p (flags_update g) k) cur"
  by (rule kernel_ok_upd_proc [OF assms(1)]) (simp add: ipc_view_def proc_queue_def sched_wf_def assms(2))

lemma set_then_clear_one: "s AND f = 0 \<Longrightarrow> (s OR f) AND NOT f = (s :: u32)"
  by (auto simp: bit_eq_iff bit_simps)

text \<open>
  C15: When a copy for a process faults, the process is blocked and put in front of the chain of
  requests; the next \<open>VMCTL_GET_MMREQ\<close> hands exactly its request to the memory manager and takes it
  off the chain, and \<open>VMCTL_REPLY_MMREQ\<close> restores the state of the process, makes it resume its
  system call and gives it the answer.
\<close>

theorem mmreq_roundtrip:
  assumes ok: "kernel_ok k cur" and c: "resolvable k c" "endpoint (proc_table k c) \<noteq> TASK_MM" "c \<notin> set cs"
      "\<not> PST_IS_SET k c PST_MMREQUEST" "endpoint (proc_table k c) \<noteq> SELF"
    and mm: "endpt_proc k TASK_MM = Some mm" and sys: "system_task k" and ch: "mm_chain k cs"
  shows "\<exists>k1 k2 k3. mm_suspend c target laddr bytes wr MMREQ_TYPE_SYSCALL k = Inr k1 \<and>
    state (proc_table k1 c) \<noteq> 0 \<and> (cs = [] \<longrightarrow> told k1 mm SIGKMEM) \<and>
    sys_vmctl k1 SELF VMCTL_GET_MMREQ mm = Inr (MMREQ_CHECK, Some \<lparr>MMREQ_TARGET = target, MMREQ_ADDR = laddr,
      MMREQ_LEN = bytes, MMREQ_FLAGS = wr, MMREQ_CALLER = endpoint (proc_table k c)\<rparr>, k2) \<and> mm_chain k2 cs \<and>
    sys_vmctl k2 (endpoint (proc_table k c)) (VMCTL_REPLY_MMREQ val) mm = Inr (0, None, k3) \<and>
    state (proc_table k3 c) = state (proc_table k c) \<and> check_mm_result k3 (Some c) = val \<and>
    kernel_ok k3 cur \<and> mm_chain k3 cs"
proof -
  obtain k1 where k1: "mm_suspend c target laddr bytes wr MMREQ_TYPE_SYSCALL k = Inr k1" "kernel_ok k1 cur" "same_procs k k1"
      "mm_chain k1 (c # cs)" "cs = [] \<longrightarrow> told k1 mm SIGKMEM" "state (proc_table k1 c) = state (proc_table k c) OR PST_MMREQUEST"
      "asked (mm_req (proc_table k1 c)) target laddr bytes wr MMREQ_TYPE_SYSCALL"
    using mm_suspend_ok [OF ok c(1,2,3) mm sys ch] by blast
  have ep: "endpoint (proc_table k1 c) = endpoint (proc_table k c)" using k1(3) by (simp add: same_procs_def)
  have m1: "mmrequest k1 = Some c" and q1: "qpath (\<lambda>c. next_request (mm_req (proc_table k1 c))) (next_request (mm_req (proc_table k1 c))) cs"
    using k1(4) by (auto simp: mm_chain_def)
  define k2 where "k2 = (upd_proc c (mm_req_update (req_result_update (\<lambda>_. MMSUSPEND))) k1)\<lparr>mmrequest := next_request (mm_req (proc_table k1 c))\<rparr>"
  have get: "sys_vmctl k1 SELF VMCTL_GET_MMREQ mm = Inr (MMREQ_CHECK, Some \<lparr>MMREQ_TARGET = target, MMREQ_ADDR = laddr,
      MMREQ_LEN = bytes, MMREQ_FLAGS = wr, MMREQ_CALLER = endpoint (proc_table k c)\<rparr>, k2)"
    using m1 k1(7) ep by (simp add: sys_vmctl_def get_mmreq_def asked_def Let_def k2_def)
  have ok2: "kernel_ok k2 cur" unfolding k2_def by (intro kernel_ok_mmrequest kernel_ok_mm_req k1)
  have nx: "(\<lambda>a. next_request (mm_req (proc_table k2 a))) = (\<lambda>a. next_request (mm_req (proc_table k1 a)))" by (auto simp: k2_def)
  have ch2: "mm_chain k2 cs"
    using k1(4) q1 unfolding mm_chain_def nx by (auto simp: k2_def PST_IS_SET_def)
  define k3 where "k3 = PST_UNSET c PST_MMREQUEST (upd_proc c (flags_update (\<lambda>f. f OR PF_RESUME_SYSCALL))
    (upd_proc c (mm_req_update (req_result_update (\<lambda>_. val))) k2))"
  have sp2: "same_procs k k2" using k1(3) by (auto simp: same_procs_def k2_def)
  have "endpt_proc k2 (endpoint (proc_table k c)) = Some c"
    using c(1) endpt_proc_cong [OF sp2] by (simp add: resolvable_def)
  then have rep: "sys_vmctl k2 (endpoint (proc_table k c)) (VMCTL_REPLY_MMREQ val) mm = Inr (0, None, k3)"
    using c(5) k1(7) by (simp add: sys_vmctl_def reply_mmreq_def Let_def k3_def k2_def asked_def)
  have ok2': "kernel_ok (upd_proc c (flags_update (\<lambda>f. f OR PF_RESUME_SYSCALL)) (upd_proc c (mm_req_update (req_result_update (\<lambda>_. val))) k2)) cur"
    by (intro kernel_ok_flags kernel_ok_mm_req ok2) (simp add: flag_simps)
  have "state (proc_table k2 c) \<noteq> PST_FREE_SLOT" using sp2 resolvable_not_free [OF c(1)] by (simp add: same_procs_def)
  then have ok3: "kernel_ok k3 cur" unfolding k3_def by (intro kernel_ok_UNSET_other(1) [OF ok2']) simp_all
  have st3: "state (proc_table k3 c) = state (proc_table k c)"
    using set_then_clear_one [of "state (proc_table k c)" PST_MMREQUEST] c(4) k1(6)
    by (simp add: k3_def k2_def PST_IS_SET_def has_flag_def)
  have "c \<notin> set cs" by (rule c)
  then have ch3: "mm_chain k3 cs"
    by (intro mm_chain_cong [OF ch2]) (auto simp: k3_def PST_IS_SET_def)
  have "check_mm_result k3 (Some c) = val" by (simp add: check_mm_result_def k3_def flag_simps)
  moreover have "state (proc_table k1 c) \<noteq> 0"
    using has_flag_nonzero [of "state (proc_table k1 c)" PST_MMREQUEST] by (simp add: k1(6) flag_simps)
  ultimately show ?thesis
    using k1(1,5) get ch2 rep st3 ok3 ch3 by blast
qed

definition mm_states :: "nat \<Rightarrow> u32" where
  "mm_states s = (if s = 4 then PST_RECEIVING else if s = 9 then 0 else if s \<in> {1, 2, 3, 5, 17} then PST_STOPPED else PST_FREE_SLOT)"

lemma mm_states_ok: "kernel_ok (quiet mm_states) 9"
  by (rule quiet_ok) (auto simp: mm_states_def flag_simps split: if_splits)

lemma mm_states_facts:
  "endpt_proc (quiet mm_states) TASK_MM = Some 4" "endpt_proc (quiet mm_states) 5 = Some 9" "endpt_proc (quiet mm_states) TASK_PM = Some 5"
  "system_task (quiet mm_states)"
  "endpoint (proc_table (quiet mm_states) 9) = 5" "state (proc_table (quiet mm_states) 9) = 0" "mm_chain (quiet mm_states) []"
  using quiet_endpt [of 4 mm_states] quiet_endpt [of 9 mm_states] quiet_endpt [of 5 mm_states]
  by (simp_all add: mm_states_def system_task_def quiet_table mm_chain_def) (simp add: quiet_def blank_kernel_def)

theorem mmreq_roundtrip_witness:
  "\<exists>k1 k2 k3. mm_suspend 9 5 4096 80 True MMREQ_TYPE_SYSCALL (quiet mm_states) = Inr k1 \<and>
    state (proc_table k1 9) \<noteq> 0 \<and> told k1 4 SIGKMEM \<and>
    sys_vmctl k1 SELF VMCTL_GET_MMREQ 4 = Inr (MMREQ_CHECK, Some \<lparr>MMREQ_TARGET = 5, MMREQ_ADDR = 4096,
      MMREQ_LEN = 80, MMREQ_FLAGS = True, MMREQ_CALLER = 5\<rparr>, k2) \<and>
    sys_vmctl k2 5 (VMCTL_REPLY_MMREQ 0) 4 = Inr (0, None, k3) \<and> state (proc_table k3 9) = 0"
  using mmreq_roundtrip [OF mm_states_ok, of 9 "[]" 4 5 4096 80 True 0] mm_states_facts
  by (auto simp: resolvable_def PST_IS_SET_def flag_simps)

end
