(* ===== verification/Syscalls.thy ===== *)
theory Syscalls
  imports Mm_Request Grants
begin

text \<open>
  Kernel calls (\<open>kernel/system.c\<close>, \<open>kernel/system/\<close>): dispatching, suspending and resuming a call,
  privileges, process creation and removal, tracing, and the way back to user mode
  (\<open>switch_to_user\<close> of \<open>kernel/proc.c\<close>).
\<close>

unbundle bit_operations_syntax

section \<open>Dispatching\<close>

abbreviation NR_SYS_CALLS :: int where "NR_SYS_CALLS \<equiv> 30"

text \<open>
  A handler gets the message of the call and the caller, may change the message, and returns the
  result of the call.  The table of handlers is an argument; \<open>None\<close> is a null entry.
\<close>

type_synonym handler = "kernel \<Rightarrow> message \<Rightarrow> nat \<Rightarrow> (int \<times> message \<times> kernel) res"
type_synonym call_table = "int \<Rightarrow> handler option"

definition finish_sys_call :: "nat \<Rightarrow> message \<Rightarrow> int \<Rightarrow> kernel \<Rightarrow> int \<times> kernel" where
  "finish_sys_call p msg result k =
     (if result = MMSUSPEND then
        (result, upd_proc p (\<lambda>q. q\<lparr>mm_req := (mm_req q)\<lparr>saved_reqmsg := msg\<rparr>,
           flags := flags q OR PF_RESUME_SYSCALL, retreg := result\<rparr>) k)
      else
        (case put_user_message k p (syscall_msg (proc_table k p)) msg of
           None \<Rightarrow> (EFAULT, k)
         | Some k \<Rightarrow> (result, upd_proc p (retreg_update (\<lambda>_. result)) k)))"

definition dispatch_sys_call :: "call_table \<Rightarrow> int \<Rightarrow> message \<Rightarrow> nat \<Rightarrow> kernel \<Rightarrow> (int \<times> message \<times> kernel) res" where
  "dispatch_sys_call tab call_nr msg p k =
     bind_res (priv_of k p) (\<lambda>i.
       if \<not> GET_BIT (syscall_mask (priv_table k i)) (nat call_nr) then Inr (EPERM, msg, k)
       else (case tab call_nr of
               Some h \<Rightarrow> h k msg p
             | None \<Rightarrow> Inr (EINVAL, msg, k)))"

definition handle_sys_call :: "call_table \<Rightarrow> kernel \<Rightarrow> int \<Rightarrow> nat \<Rightarrow> nat \<Rightarrow> (int \<times> kernel) res" where
  "handle_sys_call tab k call_nr m_user p =
     (if call_nr \<ge> NR_SYS_CALLS \<or> call_nr < 0 then Inr (EINVAL, k)
      else
        let k = upd_proc p (syscall_msg_update (\<lambda>_. m_user)) k in
        case umsg k p m_user of
          None \<Rightarrow> bind_res (ksig_proc k (endpoint (proc_table k p)) SIGSEGV) (\<lambda>k. Inr (EFAULT, k))
        | Some m \<Rightarrow>
            let msg = m\<lparr>source := endpoint (proc_table k p), mtype := call_nr\<rparr> in
            if has_flag (flags (proc_table k p)) PF_TRACE_SYSCALL then
              let k = upd_proc p (\<lambda>q. q\<lparr>mm_req := (mm_req q)\<lparr>saved_reqmsg := msg\<rparr>,
                        flags := (flags q OR PF_RESUME_SYSCALL) AND NOT PF_TRACE_SYSCALL\<rparr>) k
              in bind_res (ksig_proc k (endpoint (proc_table k p)) SIGTRAP) (\<lambda>k. Inr (0, k))
            else
              bind_res (dispatch_sys_call tab call_nr msg p k) (\<lambda>(retval, msg, k).
                Inr (finish_sys_call p msg retval k)))"

text \<open>The message of a resumed call is the one that was saved; the handler changes it in place.\<close>

definition resume_sys_call :: "call_table \<Rightarrow> nat \<Rightarrow> kernel \<Rightarrow> (int \<times> kernel) res" where
  "resume_sys_call tab p k =
     (let msg = saved_reqmsg (mm_req (proc_table k p)) in
      bind_res (dispatch_sys_call tab (mtype msg) msg p k) (\<lambda>(retval, msg, k).
        let k = upd_proc p (\<lambda>q. q\<lparr>mm_req := (mm_req q)\<lparr>saved_reqmsg := msg\<rparr>,
                  flags := flags q AND NOT PF_RESUME_SYSCALL\<rparr>) k
        in Inr (finish_sys_call p msg retval k)))"

section \<open>Privileges\<close>

abbreviation PRIV_ID_NULL :: int where "PRIV_ID_NULL \<equiv> - 1"
abbreviation SIZEOF_PRIV :: nat where "SIZEOF_PRIV \<equiv> 144"
abbreviation PRIV_ID_USER :: nat where "PRIV_ID_USER \<equiv> 17"

text \<open>The loop from \<open>FIRST_DYN_PRIV\<close> to \<open>LAST_DYN_PRIV\<close>, with \<open>n\<close> structures left.\<close>

primrec free_dyn_priv :: "nat \<Rightarrow> nat \<Rightarrow> kernel \<Rightarrow> nat option" where
  "free_dyn_priv 0 i k = None"
| "free_dyn_priv (Suc n) i k =
     (if proc_nr (priv_table k i) = NO_TASK then Some i else free_dyn_priv n (i + 1) k)"

definition assign_priv :: "nat \<Rightarrow> nat \<Rightarrow> kernel \<Rightarrow> kernel" where
  "assign_priv p i k =
     (let k = upd_proc p (priv_ix_update (\<lambda>_. Some i)) k in
      upd_priv i (proc_nr_update (\<lambda>_. ENDPOINT_P (endpoint (proc_table k p)))) k)"

definition set_priv :: "nat \<Rightarrow> int \<Rightarrow> kernel \<Rightarrow> int \<times> kernel" where
  "set_priv p i k =
     (if i = PRIV_ID_NULL then
        (case free_dyn_priv (NR_PRIV_PROCS - NR_BOOT_PROCS) NR_BOOT_PROCS k of
           None \<Rightarrow> (ENOSPC, k)
         | Some j \<Rightarrow> (0, assign_priv p j k))
      else if i < 0 \<or> i > int NR_BOOT_PROCS then (EINVAL, k)
      else if proc_nr (priv_table k (nat i)) \<noteq> NO_TASK then (EBUSY, k)
      else (0, assign_priv p (nat i) k))"

definition update_priv :: "nat \<Rightarrow> priv \<Rightarrow> kernel \<Rightarrow> (int \<times> kernel) res" where
  "update_priv p pv k =
     bind_res (priv_of k p) (\<lambda>i.
       Inr (0, upd_priv i (\<lambda>v. v\<lparr>prflags := prflags pv, syscall_mask := syscall_mask pv\<rparr>) k))"

datatype privctl_request = PRIVCTL_SET_PRIV | PRIVCTL_ALLOW | PRIVCTL_UNKNOWN

text \<open>
  The kernel side of a copy is written as address 0.  \<open>buf\<close> is the user buffer (0 for \<open>NULL\<close>) and \<open>content\<close> what a successful copy reads from it.  The
  result of the copy is not looked at: when it fails the structure on the stack keeps whatever it
  had (\<open>junk\<close>).
\<close>

definition sys_privctl :: "la_copy \<Rightarrow> kernel \<Rightarrow> endpoint \<Rightarrow> privctl_request \<Rightarrow> nat \<Rightarrow> priv \<Rightarrow> priv \<Rightarrow> nat \<Rightarrow>
    (int \<times> kernel) res" where
  "sys_privctl la k whom req buf content junk p =
     (case endpt_proc k whom of
        None \<Rightarrow> Inr (EINVAL, k)
      | Some target \<Rightarrow>
          (case req of
             PRIVCTL_SET_PRIV \<Rightarrow>
               if \<not> PST_IS_SET k target PST_NO_PRIV then Inr (EPERM, k)
               else bind_res
                 (if buf \<noteq> 0 then
                    bind_res (data_vir_copy_check la k p KERNEL 0 (endpoint (proc_table k p)) buf SIZEOF_PRIV) (\<lambda>(r, k).
                      Inr (if r = 0 then content else junk, k))
                  else Inr (junk, k)) (\<lambda>(pv, k).
                 let priv_id = (if buf \<noteq> 0 \<and> \<not> has_flag (prflags pv) PRF_DYN_ID then int (pr_id pv)
                                else PRIV_ID_NULL)
                 in case set_priv target priv_id k of
                      (r, k) \<Rightarrow> if r \<noteq> 0 then Inr (r, k)
                        else if buf \<noteq> 0 then update_priv target pv k
                        else Inr (0, k))
           | PRIVCTL_ALLOW \<Rightarrow> Inr (0, PST_UNSET target PST_NO_PRIV k)
           | PRIVCTL_UNKNOWN \<Rightarrow> Inr (EINVAL, k)))"

section \<open>Processes\<close>

abbreviation PROC_NAME_LEN :: nat where "PROC_NAME_LEN \<equiv> 16"
abbreviation SIZEOF_PS_STRINGS :: nat where "SIZEOF_PS_STRINGS \<equiv> 32"
abbreviation KF_MMINHIBIT :: u32 where "KF_MMINHIBIT \<equiv> 0x1"

definition release_fpu :: "nat \<Rightarrow> kernel \<Rightarrow> kernel" where
  "release_fpu p k = (if fpu_owner k = Some p then k\<lparr>fpu_owner := None\<rparr> else k)"

text \<open>
  \<open>verify_endpt\<close> stores no process number for the special endpoints; \<open>sys_fork\<close> and \<open>sys_clear\<close>
  then go on with a variable that was never set.
\<close>

definition stored_slot :: "int option \<Rightarrow> nat res" where
  "stored_slot n = (case n of None \<Rightarrow> Inl Undefined | Some n \<Rightarrow> Inr (proc_addr n))"

definition fork_child :: "proc \<Rightarrow> endpoint \<Rightarrow> int \<Rightarrow> endpoint \<Rightarrow> proc" where
  "fork_child parent child_ep child_slot parent_ep =
     parent\<lparr>pslot := child_slot, endpoint := child_ep, p_parent := parent_ep\<rparr>"

text \<open>
  \<open>arch\<close> is the result of \<open>arch_fork_proc\<close>, which sets up the machine context of the child (it is always 0 on
  \<open>x86_64\<close>, and can be an error on \<open>i386\<close>); the second component is what is stored in \<open>kfi->child\<close>.
\<close>

definition sys_fork :: "kernel \<Rightarrow> endpoint \<Rightarrow> int \<Rightarrow> nat \<Rightarrow> u32 \<Rightarrow> int \<Rightarrow> (int \<times> endpoint option \<times> kernel) res" where
  "sys_fork k parent_ep child_slot newsp fl arch =
     (let child_ep = make_endpoint (ENDPOINT_G parent_ep + 1) child_slot in
      case verify_endpt k parent_ep of
        None \<Rightarrow> Inr (EINVAL, None, k)
      | Some n \<Rightarrow>
          bind_res (stored_slot n) (\<lambda>parent.
          if child_slot < - int NR_TASKS \<or> child_slot \<ge> int NR_PROCS then Inl OutOfBounds
          else
            let child = proc_addr child_slot;
                k = upd_proc child (\<lambda>_. fork_child (proc_table k parent) child_ep child_slot parent_ep) k
            in bind_res (priv_of k child) (\<lambda>i.
               let k = (if has_flag (prflags (priv_table k i)) PRF_PRIV_PROC
                        then PST_SET child PST_NO_PRIV (upd_proc child (priv_ix_update (\<lambda>_. Some PRIV_ID_USER)) k)
                        else k);
                   k = upd_proc child (\<lambda>q. q\<lparr>q_sending := None, next_sending := None, user_time := 0\<rparr>) k;
                   k = (if has_flag fl KF_MMINHIBIT then PST_SET child PST_MMINHIBIT k else k);
                   k = (if newsp \<noteq> 0 then upd_proc child (recv_msg_update (\<lambda>_. newsp - SIZEOF_MESSAGE)) k else k)
               in Inr (arch, if arch = 0 then Some child_ep else None, k))))"

text \<open>\<open>hv_proc_cleanup\<close> frees virtual machines, which are no part of the state; without a hypervisor it is empty.\<close>

definition sys_clear :: "kernel \<Rightarrow> endpoint \<Rightarrow> (int \<times> kernel) res" where
  "sys_clear k ep =
     (case verify_endpt k ep of
        None \<Rightarrow> Inr (EINVAL, k)
      | Some n \<Rightarrow>
          bind_res (stored_slot n) (\<lambda>p.
            let k = PST_SETFLAGS p PST_FREE_SLOT k;
                k = release_fpu p k
            in Inr (0, upd_proc p (flags_update (\<lambda>f. f AND NOT PF_FPU_INITIALIZED)) k)))"

text \<open>
  \<open>sys_exec\<close>; \<open>nm\<close> and \<open>psstr\<close> are the user addresses of the name and of the argument block.  What it
  sets up of the new program is machine context.
\<close>

definition data_vir_copy :: "la_copy \<Rightarrow> kernel \<Rightarrow> endpoint \<Rightarrow> nat \<Rightarrow> endpoint \<Rightarrow> nat \<Rightarrow> nat \<Rightarrow> (int \<times> kernel) res" where
  "data_vir_copy la k dest_ep dest_addr src_ep src_addr len =
     vir_copy_with la k None \<lparr>va_ep = dest_ep, va_addr = dest_addr\<rparr> \<lparr>va_ep = src_ep, va_addr = src_addr\<rparr> len False"

definition sys_exec :: "la_copy \<Rightarrow> kernel \<Rightarrow> endpoint \<Rightarrow> nat \<Rightarrow> nat \<Rightarrow> nat \<Rightarrow> (int \<times> kernel) res" where
  "sys_exec la k ep nm psstr p_proc =
     (case endpt_proc k ep of
        None \<Rightarrow> Inr (EINVAL, k)
      | Some p \<Rightarrow>
          let k = upd_proc p (flags_update (\<lambda>f. f AND NOT PF_DELIVER_MSG)) k;
              me = endpoint (proc_table k p_proc)
          in bind_res (data_vir_copy la k KERNEL 0 me nm (PROC_NAME_LEN - 1)) (\<lambda>(_, k).
             bind_res (data_vir_copy la k KERNEL 0 me psstr SIZEOF_PS_STRINGS) (\<lambda>(retval, k).
               if retval \<noteq> 0 then Inr (retval, k)
               else Inr (0, upd_proc p (flags_update (\<lambda>f. f AND NOT PF_FPU_INITIALIZED)) (release_fpu p k)))))"

definition sys_times :: "kernel \<Rightarrow> nat \<times> nat" where
  "sys_times k = (jiffies k, idle_ticks k)"

section \<open>Tracing and copying\<close>

datatype trace_request = TRACE_STOP | TRACE_SYSCALL | TRACE_CONT | TRACE_PEEK | TRACE_PEEKUSER | TRACE_UNKNOWN

definition sys_trace :: "la_copy \<Rightarrow> kernel \<Rightarrow> endpoint \<Rightarrow> trace_request \<Rightarrow> nat \<Rightarrow> nat \<Rightarrow> (int \<times> kernel) res" where
  "sys_trace la k ep req addr p =
     (case endpt_proc k ep of
        None \<Rightarrow> Inr (ESRCH, k)
      | Some target \<Rightarrow>
          (case req of
             TRACE_STOP \<Rightarrow>
               Inr (0, upd_proc target (flags_update (\<lambda>f. f AND NOT PF_TRACE_SYSCALL)) (PST_SET target PST_TRACED k))
           | TRACE_SYSCALL \<Rightarrow>
               Inr (0, PST_UNSET target PST_TRACED (upd_proc target (flags_update (\<lambda>f. f OR PF_TRACE_SYSCALL)) k))
           | TRACE_CONT \<Rightarrow> Inr (0, PST_UNSET target PST_TRACED k)
           | TRACE_PEEK \<Rightarrow>
               bind_res (vir_copy_check la k p \<lparr>va_ep = KERNEL, va_addr = 0\<rparr>
                   \<lparr>va_ep = endpoint (proc_table k target), va_addr = addr\<rparr> 8) (\<lambda>(r, k).
                 if r \<noteq> 0 then Inr (EFAULT, k) else Inr (0, k))
           | TRACE_PEEKUSER \<Rightarrow> if addr mod 8 \<noteq> 0 then Inr (EFAULT, k) else Inr (0, k)
           | TRACE_UNKNOWN \<Rightarrow> Inr (EINVAL, k)))"

definition sys_datacopy :: "la_copy \<Rightarrow> kernel \<Rightarrow> vir_addr \<Rightarrow> vir_addr \<Rightarrow> nat \<Rightarrow> nat \<Rightarrow> (int \<times> kernel) res" where
  "sys_datacopy la k dest src len p =
     (let me = (\<lambda>v. if va_ep v = SELF then v\<lparr>va_ep := endpoint (proc_table k p)\<rparr> else v) in
      vir_copy_check la k p (me dest) (me src) len)"

datatype umap_type = UMT_GRANT | UMT_VADDR | UMT_UNKNOWN

text \<open>\<open>sys_umap\<close> up to the translation by the page tables: whose address is translated.\<close>

definition sys_umap :: "kernel \<Rightarrow> grant_mem \<Rightarrow> endpoint \<Rightarrow> umap_type \<Rightarrow> u64 \<Rightarrow> u64 \<Rightarrow> nat \<Rightarrow> int + (endpoint \<times> u64)" where
  "sys_umap k rd who type offset count p =
     (let ep = (if who = SELF then endpoint (proc_table k p) else who) in
      case endpt_proc k ep of
        None \<Rightarrow> Inl EINVAL
      | Some target \<Rightarrow>
          (case type of
             UMT_GRANT \<Rightarrow>
               (case verify_grant k rd (endpoint (proc_table k target)) (endpoint (proc_table k p)) (ucast offset) count 0 0 of
                  Inl err \<Rightarrow> Inl err
                | Inr (new_offset, new_granter) \<Rightarrow>
                    (case endpt_proc k new_granter of
                       None \<Rightarrow> Inl EFAULT
                     | Some t \<Rightarrow> Inr (endpoint (proc_table k t), new_offset)))
           | UMT_VADDR \<Rightarrow> Inr (endpoint (proc_table k target), offset)
           | UMT_UNKNOWN \<Rightarrow> Inl EINVAL))"

section \<open>Back to user mode\<close>

text \<open>
  The loop of \<open>switch_to_user\<close>.  \<open>Inr (None, k)\<close> is \<open>idle\<close>: the processor halts until an interrupt.
  The flag says whether the loop starts at \<open>reschedule\<close>.  It runs on fuel, one unit for each pass.
\<close>

abbreviation USER_WORK :: u32 where
  "USER_WORK \<equiv> PF_RESUME_SYSCALL OR PF_TRACE_SYSCALL OR PF_LEAVE_SYSCALL OR PF_DELIVER_MSG"

text \<open>One pass of the inner loop; the flag says that the loop is left by \<open>break\<close>.\<close>

definition user_work :: "call_table \<Rightarrow> nat \<Rightarrow> kernel \<Rightarrow> (bool \<times> kernel) res" where
  "user_work tab p k =
     (let fl = flags (proc_table k p) in
      if has_flag fl PF_RESUME_SYSCALL then
        bind_res (resume_sys_call tab p k) (\<lambda>(_, k).
          Inr (False, if has_flag (flags (proc_table k p)) PF_TRACE_SYSCALL
                      then upd_proc p (flags_update (\<lambda>f. f OR PF_LEAVE_SYSCALL)) k else k))
      else if has_flag fl PF_DELIVER_MSG then bind_res (deliver_msg_to_user p k) (\<lambda>k. Inr (False, k))
      else if has_flag fl PF_TRACE_SYSCALL then
        if \<not> has_flag fl PF_LEAVE_SYSCALL then Inr (True, k)
        else bind_res (ksig_proc (upd_proc p (flags_update (\<lambda>f. f AND NOT (PF_TRACE_SYSCALL OR PF_LEAVE_SYSCALL))) k)
               (endpoint (proc_table k p)) SIGTRAP) (\<lambda>k. Inr (False, k))
      else if has_flag fl PF_LEAVE_SYSCALL
        then Inr (True, upd_proc p (flags_update (\<lambda>f. f AND NOT PF_LEAVE_SYSCALL)) k)
      else Inr (False, k))"

text \<open>
  \<open>enter\<close> is the loop at the label \<open>no_schedule\<close>, entered with a runnable process, \<open>resched\<close> the
  label \<open>reschedule\<close>.
\<close>

fun enter :: "call_table \<Rightarrow> nat \<Rightarrow> nat \<Rightarrow> kernel \<Rightarrow> (nat option \<times> kernel) res"
  and resched :: "call_table \<Rightarrow> nat \<Rightarrow> kernel \<Rightarrow> (nat option \<times> kernel) res" where
  "enter tab 0 p k = Inl Diverge"
| "enter tab (Suc n) p k =
     (let out = (\<lambda>k. if counter_ns (proc_table k p) = 0
                     then resched tab n (proc_no_time p (PST_SET p PST_NO_QUANTUM k))
                     else Inr (Some p, k))
      in if has_flag (flags (proc_table k p)) USER_WORK then
           bind_res (user_work tab p k) (\<lambda>(brk, k).
             if brk then out k
             else if state (proc_table k p) \<noteq> 0 then resched tab n k
             else enter tab n p k)
         else out k)"
| "resched tab 0 k = Inl Diverge"
| "resched tab (Suc n) k =
     (case pick_proc k of
        (None, k) \<Rightarrow> Inr (None, k\<lparr>proc_ptr := None\<rparr>)
      | (Some p, k) \<Rightarrow> enter tab n p (k\<lparr>proc_ptr := Some p\<rparr>))"

definition switch_to_user :: "call_table \<Rightarrow> nat \<Rightarrow> kernel \<Rightarrow> (nat option \<times> kernel) res" where
  "switch_to_user tab n k =
     (case proc_ptr k of
        Some p \<Rightarrow> if state (proc_table k p) = 0 then enter tab n p k else resched tab n k
      | None \<Rightarrow> resched tab n k)"

text \<open>The coprocessor exception; \<open>bad\<close> says that restoring the context failed.\<close>

definition copr_not_available_handler :: "bool \<Rightarrow> nat \<Rightarrow> kernel \<Rightarrow> kernel res" where
  "copr_not_available_handler bad p k =
     (if bad then ksig_proc (k\<lparr>fpu_owner := None\<rparr>) (endpoint (proc_table k p)) SIGFPE
      else Inr (k\<lparr>fpu_owner := Some p\<rparr>))"

end
