(* ===== verification/Syscall_Props.thy ===== *)
theory Syscall_Props
  imports Syscalls
begin

text \<open>
  Properties of the kernel calls that create and remove processes, hand out privileges and read
  the memory of other processes.
\<close>

unbundle bit_operations_syntax

section \<open>A new process\<close>

text \<open>What a process needs to be put into a free slot of a well-formed kernel.\<close>

definition fit_to_join :: "kernel \<Rightarrow> proc \<Rightarrow> bool" where
  "fit_to_join k q \<longleftrightarrow>
     state q \<noteq> 0 \<and> \<not> has_flag (state q) PST_FREE_SLOT \<and> \<not> has_flag (state q) PST_SENDING \<and>
     q_sending q = None \<and> next_sending q = None \<and> sched_wf q \<and>
     (has_flag (state q) PST_RECEIVING \<longrightarrow> \<not> has_flag (flags q) PF_DELIVER_MSG) \<and>
     (\<exists>i<NR_PRIV_PROCS. priv_ix q = Some i \<and> pr_id (priv_table k i) = i \<and> has_owner k i)"

lemma fit_not_free: "fit_to_join k q \<Longrightarrow> state q \<noteq> PST_FREE_SLOT"
  by (auto simp: fit_to_join_def has_flag_def)

lemma endpt_proc_joined:
  assumes "state (proc_table k c) = PST_FREE_SLOT"
  shows "endpt_proc k e = Some d \<Longrightarrow> endpt_proc (upd_proc c (\<lambda>_. q) k) e = Some d"
    and "endpt_proc (upd_proc c (\<lambda>_. q) k) e = Some d \<Longrightarrow> d \<noteq> c \<Longrightarrow> endpt_proc k e = Some d"
  using assms by (auto simp: endpt_proc_def verify_endpt_def Let_def split: if_splits option.splits)

lemma resolvable_joined:
  assumes "state (proc_table k c) = PST_FREE_SLOT" and "c \<noteq> 3" and "resolvable k d"
  shows "d \<noteq> c" and "resolvable (upd_proc c (\<lambda>_. q) k) d"
proof -
  show "d \<noteq> c" using assms by (auto simp: resolvable_def elim!: endpt_proc_cases)
  then show "resolvable (upd_proc c (\<lambda>_. q) k) d"
    using assms endpt_proc_joined(1) [OF assms(1)] by (simp add: resolvable_def)
qed

lemma sends_to_joined:
  assumes c: "state (proc_table k c) = PST_FREE_SLOT" "c \<noteq> 3" and live: "sends_live k"
    and q: "\<not> has_flag (state q) PST_SENDING"
  shows "sends_to (upd_proc c (\<lambda>_. q) k) = sends_to k" "sends_live (upd_proc c (\<lambda>_. q) k)"
    and "(s, d) \<in> sends_to k \<Longrightarrow> s \<noteq> c \<and> d \<noteq> c"
proof -
  let ?k = "upd_proc c (\<lambda>_. q) k"
  have send: "PST_IS_SET ?k s PST_SENDING \<longleftrightarrow> PST_IS_SET k s PST_SENDING" for s
    using q c(1) by (simp add: PST_IS_SET_def flag_simps)
  show ends: "(s, d) \<in> sends_to k \<Longrightarrow> s \<noteq> c \<and> d \<noteq> c" for s d
    using sends_to_endpoint(1,2) [OF live] resolvable_joined(1) [OF c] by blast
  have "(s, d) \<in> sends_to ?k \<longleftrightarrow> (s, d) \<in> sends_to k" for s d
  proof
    assume "(s, d) \<in> sends_to k"
    with ends [OF this] endpt_proc_joined(1) [OF c(1)] send show "(s, d) \<in> sends_to ?k" by (simp add: sends_to_def)
  next
    assume e: "(s, d) \<in> sends_to ?k"
    then obtain d' where d': "(s, d') \<in> sends_to k"
      using sending_edge [OF live, of s] send by (auto simp: sends_to_def)
    with ends [OF this] endpt_proc_joined(1) [OF c(1)] e show "(s, d) \<in> sends_to k" by (auto simp: sends_to_def)
  qed
  then show "sends_to ?k = sends_to k" by auto
  show "sends_live ?k"
    unfolding sends_live_def
  proof (intro allI impI)
    fix s assume "PST_IS_SET ?k s PST_SENDING"
    then obtain d where "resolvable k s" "resolvable k d" "endpoint (proc_table k d) = sendto (proc_table k s)"
      using live send unfolding sends_live_def by blast
    then show "resolvable ?k s \<and> (\<exists>d. resolvable ?k d \<and> endpoint (proc_table ?k d) = sendto (proc_table ?k s))"
      using resolvable_joined(1) [OF c, of s] resolvable_joined(1) [OF c, of d]
        resolvable_joined(2) [OF c, of s q] resolvable_joined(2) [OF c, of d q] by (auto intro!: exI [of _ d])
  qed
qed

lemma kernel_ok_join:
  assumes ok: "kernel_ok k cur" and c: "state (proc_table k c) = PST_FREE_SLOT" "c \<noteq> 3" and q: "fit_to_join k q"
  shows "kernel_ok (upd_proc c (\<lambda>_. q) k) cur"
proof -
  let ?k = "upd_proc c (\<lambda>_. q) k"
  note K = kernel_okD [OF ok] and I = ipc_invD [OF kernel_okD(1) [OF ok]]
  note Q = q [unfolded fit_to_join_def] fit_not_free [OF q]
  have ns: "\<not> has_flag (state q) PST_SENDING" using Q by blast
  note S = sends_to_joined [OF c I(1) ns]
  have "\<exists>qs. squeue ?k d qs" for d
  proof (cases "d = c")
    case True
    then have "senders k d = {}" using S(3) by (auto simp: senders_def)
    with Q True S(1) have "squeue ?k d []" by (simp add: squeue_def senders_def)
    then show ?thesis ..
  next
    case False
    obtain qs where qs: "squeue k d qs" using I(5) by blast
    then have "c \<notin> set qs" using S(3) by (auto simp: squeue_def senders_def)
    then have "qpath (nxt ?k) (q_sending (proc_table k d)) qs = qpath (nxt k) (q_sending (proc_table k d)) qs"
      by (intro qpath_cong) auto
    with qs False S(1) have "squeue ?k d qs" by (simp add: squeue_def senders_def)
    then show ?thesis ..
  qed
  moreover have "free_clean ?k" using I(3) Q by (auto simp: free_clean_def PST_IS_SET_def)
  moreover have "rendezvous ?k"
    unfolding rendezvous_def S(1)
    using I(4) S(3) Q by (auto simp: rendezvous_def is_waiting_for_def PST_IS_SET_def)
  ultimately have "ipc_inv ?k" using S(1,2) I(2) by (simp add: ipc_inv_def ipc_graph_def)
  moreover have live: "live ?k p \<longleftrightarrow> live k p \<or> p = c" for p using c Q(2) by (auto simp: live_def)
  have own: "has_owner ?k i" if "has_owner k i" for i using that by (auto simp: has_owner_def live priv_proc_def)
  have "privs_ok ?k"
    using K(2) Q(1) own c unfolding privs_ok_def live by (auto simp: live_def)
  moreover have "\<not> in_queue k c" using K(3) c(1) by (auto simp: sched_inv_def)
  with K(3,4) Q(1) have "sched_inv ?k" "none_lost ?k cur"
    by (auto simp: sched_inv_def queues_ok_def none_lost_def in_queue_def)
  moreover have "tables_writable ?k" using K(5) by (simp add: tables_writable_def)
  ultimately show ?thesis by (simp add: kernel_ok_def)
qed

lemma upd_proc_twice: "upd_proc p f (upd_proc p g k) = upd_proc p (\<lambda>q. f (g q)) k"
  by (simp add: upd_proc_def)

lemma PST_SET_blocked: "state (proc_table k p) \<noteq> 0 \<Longrightarrow> PST_SET p f k = upd_proc p (state_update (\<lambda>s. s OR f)) k"
  by (simp add: PST_SET_def)

lemma or_nonzero: "s \<noteq> 0 \<Longrightarrow> s OR t \<noteq> (0 :: u32)"
  by (simp add: or_eq_0_iff)

text \<open>The process \<open>sys_fork\<close> puts into the slot of the child.\<close>

definition forked :: "kernel \<Rightarrow> proc \<Rightarrow> endpoint \<Rightarrow> int \<Rightarrow> endpoint \<Rightarrow> nat \<Rightarrow> u32 \<Rightarrow> nat \<Rightarrow> proc" where
  "forked k parent child_ep cs parent_ep newsp fl i =
     (let q = fork_child parent child_ep cs parent_ep;
          priv = has_flag (prflags (priv_table k i)) PRF_PRIV_PROC;
          st = (if priv then state q OR PST_NO_PRIV else state q)
      in q\<lparr>state := if has_flag fl KF_MMINHIBIT then st OR PST_MMINHIBIT else st,
           priv_ix := if priv then Some PRIV_ID_USER else priv_ix q,
           q_sending := None, next_sending := None, user_time := 0,
           recv_msg := if newsp \<noteq> 0 then newsp - SIZEOF_MESSAGE else recv_msg q\<rparr>)"

lemma sys_fork_eq:
  assumes p: "endpt_proc k parent_ep = Some p" "parent_ep \<noteq> ANY" "parent_ep \<noteq> NO_TASK" "parent_ep \<noteq> SELF"
    and cs: "- int NR_TASKS \<le> cs" "cs < int NR_PROCS" and st: "state (proc_table k p) \<noteq> 0"
    and i: "priv_ix (proc_table k p) = Some i"
  shows "sys_fork k parent_ep cs newsp fl arch =
    Inr (arch, if arch = 0 then Some (make_endpoint (ENDPOINT_G parent_ep + 1) cs) else None,
      upd_proc (proc_addr cs) (\<lambda>_. forked k (proc_table k p) (make_endpoint (ENDPOINT_G parent_ep + 1) cs) cs parent_ep newsp fl i) k)"
proof -
  obtain n where n: "verify_endpt k parent_ep = Some (Some n)" "p = proc_addr n"
    using p by (auto simp: endpt_proc_def verify_endpt_def Let_def split: if_splits)
  show ?thesis
    using n cs st i or_nonzero [OF st]
    by (cases "proc_table k p")
      (simp add: sys_fork_def stored_slot_def Let_def priv_of_def fork_child_def PST_SET_blocked upd_proc_twice forked_def)
qed

lemma forked_fields:
  shows "endpoint (forked k q ce cs pe sp fl i) = ce" "p_parent (forked k q ce cs pe sp fl i) = pe"
    "state (forked k q ce cs pe sp fl i) = (state q OR (if has_flag (prflags (priv_table k i)) PRF_PRIV_PROC then PST_NO_PRIV else 0))
       OR (if has_flag fl KF_MMINHIBIT then PST_MMINHIBIT else 0)"
    "recvfrom (forked k q ce cs pe sp fl i) = recvfrom q" "flags (forked k q ce cs pe sp fl i) = flags q"
    "q_sending (forked k q ce cs pe sp fl i) = None" "next_sending (forked k q ce cs pe sp fl i) = None"
    "sched_wf (forked k q ce cs pe sp fl i) = sched_wf q" "sendto (forked k q ce cs pe sp fl i) = sendto q"
    "recv_msg (forked k q ce cs pe sp fl i) = (if sp \<noteq> 0 then sp - SIZEOF_MESSAGE else recv_msg q)"
    "priv_ix (forked k q ce cs pe sp fl i) = (if has_flag (prflags (priv_table k i)) PRF_PRIV_PROC then Some PRIV_ID_USER else priv_ix q)"
  by (auto simp: forked_def Let_def fork_child_def sched_wf_def)

lemma forked_fit:
  assumes ok: "kernel_ok k cur" and p: "resolvable k p" "state (proc_table k p) \<noteq> 0" "\<not> PST_IS_SET k p PST_SENDING"
    and i: "priv_ix (proc_table k p) = Some i"
    and user: "pr_id (priv_table k PRIV_ID_USER) = PRIV_ID_USER" "has_owner k PRIV_ID_USER"
  shows "fit_to_join k (forked k (proc_table k p) ce cs pe sp fl i)"
proof -
  note K = kernel_okD [OF ok]
  have nf: "\<not> has_flag (state (proc_table k p)) PST_FREE_SLOT"
    using p(1) K(6) by (auto simp: free_clean_def PST_IS_SET_def resolvable_def elim!: endpt_proc_cases)
  obtain j where "j < NR_PRIV_PROCS" "priv_ix (proc_table k p) = Some j" "pr_id (priv_table k j) = j" "has_owner k j"
    using privs_okE [OF K(2) resolvable_live [OF p(1)]] by blast
  moreover have "rendezvous k" "sched_inv k" using K(1,3) ipc_invD(4) by blast+
  ultimately show ?thesis
    using p(2,3) nf i user or_nonzero [OF p(2)] or_nonzero [OF or_nonzero [OF p(2)]]
    by (auto simp: fit_to_join_def forked_fields flag_simps PST_IS_SET_def rendezvous_def sched_inv_def queues_ok_def)
qed

section \<open>Properties\<close>

text \<open>
  C26: Forking a process that is blocked but not sending, into a free slot of a well-formed kernel, leaves a
  well-formed kernel, and its result is the one of \<open>arch_fork_proc\<close>.  Only that slot changes: the child has the
  next generation, is blocked as its parent is, with \<open>PST_MMINHIBIT\<close> if asked for; exactly when the parent is
  privileged it gets the privileges of a user process and waits for its own (\<open>PST_NO_PRIV\<close>), and otherwise it
  shares those of the parent.  Nobody is queued on it; its endpoint leads to it, unless the generation
  overflows, the slot is one of the last three, which no endpoint reaches, or the endpoint is one of the special
  numbers; and every endpoint that led to a process leads there still.
\<close>

theorem fork_keeps_kernel:
  fixes fl :: u32 and arch :: int
  defines "bits \<equiv> (if has_flag fl KF_MMINHIBIT then PST_MMINHIBIT else 0)"
  assumes ok: "kernel_ok k cur" and p: "resolvable k p" "endpoint (proc_table k p) \<noteq> SELF"
      "state (proc_table k p) \<noteq> 0" "\<not> PST_IS_SET k p PST_SENDING"
    and cs: "0 \<le> cs" "cs < int NR_PROCS" "state (proc_table k (proc_addr cs)) = PST_FREE_SLOT"
    and user: "pr_id (priv_table k PRIV_ID_USER) = PRIV_ID_USER" "has_owner k PRIV_ID_USER"
    and i: "priv_ix (proc_table k p) = Some i" and ce: "ce = make_endpoint (ENDPOINT_G (endpoint (proc_table k p)) + 1) cs"
  shows "\<exists>child k'. sys_fork k (endpoint (proc_table k p)) cs newsp fl arch = Inr (arch, if arch = 0 then Some ce else None, k') \<and>
    kernel_ok k' cur \<and> k' = upd_proc (proc_addr cs) (\<lambda>_. child) k \<and> endpoint child = ce \<and> p_parent child = endpoint (proc_table k p) \<and>
    (if has_flag (prflags (priv_table k i)) PRF_PRIV_PROC
     then priv_ix child = Some PRIV_ID_USER \<and> state child = state (proc_table k p) OR PST_NO_PRIV OR bits
     else priv_ix child = Some i \<and> state child = state (proc_table k p) OR bits) \<and>
    flags child = flags (proc_table k p) \<and> recvfrom child = recvfrom (proc_table k p) \<and>
    recv_msg child = (if newsp \<noteq> 0 then newsp - SIZEOF_MESSAGE else recv_msg (proc_table k p)) \<and> senders k' (proc_addr cs) = {} \<and>
    (cs \<le> 252 \<and> 0 \<le> ENDPOINT_G (endpoint (proc_table k p)) + 1 \<and> ENDPOINT_G (endpoint (proc_table k p)) + 1 < 2 ^ 21 \<and>
       ce \<notin> {ANY, NO_TASK, SELF} \<longrightarrow> endpt_proc k' ce = Some (proc_addr cs)) \<and>
    (\<forall>e d. endpt_proc k e = Some d \<longrightarrow> endpt_proc k' e = Some d)"
proof -
  let ?c = "proc_addr cs" and ?pe = "endpoint (proc_table k p)"
  have c3: "?c \<noteq> 3" using cs(1) by (simp add: proc_addr_def proc_slot_def)
  define q where "q = forked k (proc_table k p) ce cs ?pe newsp fl i"
  let ?k = "upd_proc ?c (\<lambda>_. q) k"
  have q: "fit_to_join k q" unfolding q_def by (rule forked_fit [OF ok p(1,3,4) i user])
  have f: "sys_fork k ?pe cs newsp fl arch = Inr (arch, if arch = 0 then Some ce else None, ?k)"
    unfolding q_def ce using p(1,2,3) i cs by (intro sys_fork_eq) (auto simp: resolvable_def)
  have "\<not> has_flag (state q) PST_SENDING" using q by (simp add: fit_to_join_def)
  note S = sends_to_joined [OF cs(3) c3 ipc_invD(1) [OF kernel_okD(1) [OF ok]] this]
  have "senders ?k ?c = {}" using S(1,3) by (auto simp: senders_def)
  moreover have "endpt_proc ?k ce = Some ?c"
    if g: "cs \<le> 252" "0 \<le> ENDPOINT_G ?pe + 1" "ENDPOINT_G ?pe + 1 < 2 ^ 21" "ce \<notin> {ANY, NO_TASK, SELF}"
  proof -
    have n: "ENDPOINT_P ce = cs" unfolding ce by (rule ENDPOINT_parts_make) (use cs(1) g(1-3) in simp_all)
    have "ce = (ENDPOINT_G ?pe + 1) * 1024 + cs" unfolding ce by (rule make_endpoint_eq) (use cs(1) g(1-3) in simp_all)
    then have "- int NR_TASKS \<le> ce" using cs(1) g(2) by simp
    then show ?thesis using g(1,4) n cs(1) fit_not_free [OF q]
      by (auto simp: endpt_proc_def verify_endpt_def Let_def proc_slot_def q_def forked_fields)
  qed
  moreover have "\<forall>e d. endpt_proc k e = Some d \<longrightarrow> endpt_proc ?k e = Some d" using endpt_proc_joined(1) [OF cs(3)] by blast
  moreover note kernel_ok_join [OF ok cs(3) c3 q] f
  moreover have "if has_flag (prflags (priv_table k i)) PRF_PRIV_PROC
     then priv_ix q = Some PRIV_ID_USER \<and> state q = state (proc_table k p) OR PST_NO_PRIV OR bits
     else priv_ix q = Some i \<and> state q = state (proc_table k p) OR bits"
    using i by (simp add: q_def forked_fields bits_def or.assoc)
  ultimately show ?thesis by (intro exI [of _ q] exI [of _ ?k]) (simp add: q_def forked_fields)
qed

text \<open>
  A blocked sender cannot be forked: the child is marked as sending too, but is in no queue, and the
  queue of the receiver no longer holds exactly the processes that send to it.
\<close>

lemma fork_sender_breaks:
  assumes ok: "kernel_ok k cur" and p: "resolvable k p" "endpoint (proc_table k p) \<noteq> SELF" "PST_IS_SET k p PST_SENDING"
    and cs: "0 \<le> cs" "cs < int NR_PROCS" "state (proc_table k (proc_addr cs)) = PST_FREE_SLOT"
  shows "\<exists>r ce k'. sys_fork k (endpoint (proc_table k p)) cs newsp fl arch = Inr (r, ce, k') \<and> \<not> ipc_inv k'"
proof -
  let ?c = "proc_addr cs" and ?pe = "endpoint (proc_table k p)"
  note I = ipc_invD [OF kernel_okD(1) [OF ok]]
  have c3: "?c \<noteq> 3" using cs(1) by (simp add: proc_addr_def proc_slot_def)
  obtain i where i: "priv_ix (proc_table k p) = Some i"
    using privs_okE [OF kernel_okD(2) [OF ok] resolvable_live [OF p(1)]] by blast
  define q where "q = forked k (proc_table k p) (make_endpoint (ENDPOINT_G ?pe + 1) cs) cs ?pe newsp fl i"
  let ?k = "upd_proc ?c (\<lambda>_. q) k"
  have st: "state (proc_table k p) \<noteq> 0" using p(3) by (auto simp: PST_IS_SET_def has_flag_def)
  have f: "sys_fork k ?pe cs newsp fl arch = Inr (arch, if arch = 0 then Some (make_endpoint (ENDPOINT_G ?pe + 1) cs) else None, ?k)"
    unfolding q_def using p(1,2) st i cs by (intro sys_fork_eq) (auto simp: resolvable_def)
  obtain d where d: "(p, d) \<in> sends_to k" using sending_edge [OF I(1) p(3)] by blast
  have sq: "has_flag (state q) PST_SENDING" "sendto q = sendto (proc_table k p)"
    using p(3) by (auto simp: q_def forked_fields PST_IS_SET_def flag_simps)
  have dc: "d \<noteq> ?c" using sends_to_endpoint(1,2) [OF I(1) d] resolvable_joined(1) [OF cs(3) c3] by blast
  have cd: "?c \<in> senders ?k d"
    using d sq endpt_proc_joined(1) [OF cs(3)] by (auto simp: senders_def sends_to_def PST_IS_SET_def)
  have "\<not> squeue ?k d ys" for ys
  proof
    assume y: "squeue ?k d ys"
    obtain xs where xs: "squeue k d xs" using I(5) by blast
    have nc: "?c \<notin> set xs" using xs cs(3) by (auto simp: squeue_def senders_def sends_to_def PST_IS_SET_def flag_simps)
    then have "qpath (nxt ?k) (q_sending (proc_table k d)) xs = qpath (nxt k) (q_sending (proc_table k d)) xs"
      by (intro qpath_cong) auto
    then have "xs = ys" using xs y dc by (intro qpath_same [of "nxt ?k" "q_sending (proc_table k d)"]) (auto simp: squeue_def)
    then show False using nc cd y by (auto simp: squeue_def)
  qed
  then have "\<not> ipc_inv ?k" using ipc_invD(5) by blast
  with f show ?thesis by blast
qed

text \<open>Process 6 waits for a message, process 7 does not exist.\<close>

definition fork_states :: "nat \<Rightarrow> u32" where
  "fork_states s = (if s = 11 then PST_FREE_SLOT else PST_RECEIVING)"

lemma fork_states_ok: "kernel_ok (quiet fork_states) 0"
  by (rule quiet_ok) (auto simp: fork_states_def flag_simps split: if_splits)

definition fork_kernel :: kernel where
  "fork_kernel = upd_priv 10 (prflags_update (\<lambda>_. PRF_PRIV_PROC)) (quiet fork_states)"

lemma fork_kernel_simps: "proc_table fork_kernel = proc_table (quiet fork_states)" "endpt_proc fork_kernel e = endpt_proc (quiet fork_states) e"
  "priv_table fork_kernel = (priv_table (quiet fork_states))(10 := (priv_table (quiet fork_states) 10)\<lparr>prflags := PRF_PRIV_PROC\<rparr>)"
  by (simp_all add: fork_kernel_def endpt_proc_def verify_endpt_def Let_def)

theorem fork_keeps_kernel_witness:
  "\<exists>child k'. sys_fork fork_kernel 6 7 0 1 0 = Inr (0, Some 1031, k') \<and> kernel_ok k' 0 \<and>
    k' = upd_proc 11 (\<lambda>_. child) fork_kernel \<and> priv_ix child = Some 17 \<and> state child = PST_RECEIVING OR PST_NO_PRIV OR PST_MMINHIBIT \<and>
    endpt_proc k' 1031 = Some 11"
proof -
  have ok: "kernel_ok fork_kernel 0" unfolding fork_kernel_def by (rule kernel_ok_upd_priv [OF fork_states_ok]) auto
  have r: "resolvable fork_kernel 10"
    using quiet_endpt [of 10 fork_states] by (simp add: resolvable_def fork_kernel_simps quiet_table fork_states_def)
  have u: "has_owner fork_kernel PRIV_ID_USER"
    by (simp add: has_owner_def priv_proc_def live_def fork_kernel_simps quiet_table fork_states_def proc_addr_def proc_slot_def)
  have g: "ENDPOINT_G 6 = 0" "make_endpoint 1 7 = 1031" by code_simp+
  obtain child k' where "sys_fork fork_kernel 6 7 0 1 0 = Inr (0, Some 1031, k')" "kernel_ok k' 0" "k' = upd_proc 11 (\<lambda>_. child) fork_kernel"
      "priv_ix child = Some 17" "state child = PST_RECEIVING OR PST_NO_PRIV OR PST_MMINHIBIT" "endpt_proc k' 1031 = Some 11"
    using fork_keeps_kernel [OF ok r, of 7 10 1031 0 1 0] u g
    by (auto simp: fork_kernel_simps quiet_table fork_states_def proc_addr_def proc_slot_def PST_IS_SET_def flag_simps blank_proc_def quiet_priv_def blank_priv_def)
  then show ?thesis by blast
qed

text \<open>
  C27: \<open>set_priv\<close> hands out only structures nobody has: on success the process gets one whose owner
  was unset and becomes its owner, and everything else stays as it was; it fails for want of
  structures exactly when every dynamic one has an owner.  A failure changes nothing.
\<close>

theorem set_priv_exclusive:
  "(case set_priv p n k of (r, k') \<Rightarrow>
      (if r = 0 then \<exists>i<NR_PRIV_PROCS. proc_nr (priv_table k i) = NO_TASK \<and>
         priv_ix (proc_table k' p) = Some i \<and> proc_nr (priv_table k' i) = ENDPOINT_P (endpoint (proc_table k p)) \<and>
         (n = PRIV_ID_NULL \<or> int i = n) \<and>
         k' = upd_priv i (proc_nr_update (\<lambda>_. proc_nr (priv_table k' i))) (upd_proc p (priv_ix_update (\<lambda>_. Some i)) k)
       else k' = k) \<and>
      (r = ENOSPC \<longleftrightarrow> n = PRIV_ID_NULL \<and> (\<nexists>i. NR_BOOT_PROCS \<le> i \<and> i < NR_PRIV_PROCS \<and> proc_nr (priv_table k i) = NO_TASK)))"
proof -
  have some: "free_dyn_priv m j k = Some i \<Longrightarrow> j \<le> i \<and> i < j + m \<and> proc_nr (priv_table k i) = NO_TASK" for m i j
    by (induction m arbitrary: j) (auto split: if_splits, fastforce+)
  have none: "free_dyn_priv m j k = None \<Longrightarrow> j \<le> i \<Longrightarrow> i < j + m \<Longrightarrow> proc_nr (priv_table k i) \<noteq> NO_TASK" for m i j
  proof (induction m arbitrary: j)
    case (Suc m)
    then show ?case by (cases "i = j") (auto split: if_splits)
  qed simp
  show ?thesis
  proof (cases "n = PRIV_ID_NULL")
    case True
    show ?thesis
    proof (cases "free_dyn_priv (NR_PRIV_PROCS - NR_BOOT_PROCS) NR_BOOT_PROCS k")
      case None
      with True none [OF None] show ?thesis by (auto simp: set_priv_def)
    next
      case (Some i)
      with True some [OF Some] show ?thesis by (auto simp: set_priv_def assign_priv_def Let_def)
    qed
  next
    case False
    then show ?thesis by (auto simp: set_priv_def assign_priv_def Let_def intro!: exI [of _ "nat n"])
  qed
qed

text \<open>
  When the word a tracer peeks at is not mapped, the call returns \<open>EFAULT\<close> and yet leaves the tracer
  suspended on the memory manager.  Its message was not saved: the answer of the memory manager makes
  the tracer resume whatever call it had saved before.
\<close>

theorem peek_fault_reruns_old_call:
  assumes ok: "kernel_ok k cur" and c: "resolvable k c" "endpoint (proc_table k c) \<noteq> TASK_MM" "c \<notin> set cs"
      "\<not> has_flag (flags (proc_table k c)) PF_RESUME_SYSCALL"
    and t: "endpt_proc k ep = Some t" "resolvable k t" and kern: "endpt_proc k KERNEL = Some kern"
    and fault: "la (Some kern) 0 (Some t) addr 8 = La_EFAULT_SRC"
    and mm: "endpt_proc k TASK_MM = Some mm" and sys: "system_task k" and ch: "mm_chain k cs"
  shows "\<exists>k1. sys_trace la k ep TRACE_PEEK addr c = Inr (EFAULT, k1) \<and> PST_IS_SET k1 c PST_MMREQUEST \<and> mm_chain k1 (c # cs) \<and>
    (\<forall>val. \<exists>k2. reply_mmreq c val k1 = Inr k2 \<and> \<not> PST_IS_SET k2 c PST_MMREQUEST \<and>
       has_flag (flags (proc_table k2 c)) PF_RESUME_SYSCALL \<and>
       saved_reqmsg (mm_req (proc_table k2 c)) = saved_reqmsg (mm_req (proc_table k c)))"
proof -
  let ?te = "endpoint (proc_table k t)"
  obtain k1 where k1: "mm_suspend c ?te addr 8 False MMREQ_TYPE_SYSCALL k = Inr k1" "mm_chain k1 (c # cs)"
      "state (proc_table k1 c) = state (proc_table k c) OR PST_MMREQUEST"
      "asked (mm_req (proc_table k1 c)) ?te addr 8 False MMREQ_TYPE_SYSCALL"
      "saved_reqmsg (mm_req (proc_table k1 c)) = saved_reqmsg (mm_req (proc_table k c))"
    using mm_suspend_ok [OF ok c(1,2,3) mm sys ch] by blast
  have "vir_copy_check la k c \<lparr>va_ep = KERNEL, va_addr = 0\<rparr> \<lparr>va_ep = ?te, va_addr = addr\<rparr> 8 = Inr (MMSUSPEND, k1)"
    using t kern fault c(4) k1(1)
    by (simp add: vir_copy_check_def vir_copy_with_def va_proc_def check_mm_result_def resolvable_def)
  then have tr: "sys_trace la k ep TRACE_PEEK addr c = Inr (EFAULT, k1)" using t(1) by (simp add: sys_trace_def)
  show ?thesis
    using tr k1(2,3,4,5) by (auto simp: PST_IS_SET_def flag_simps reply_mmreq_def asked_def Let_def)
qed

theorem peek_fault_reruns_old_call_witness:
  "\<exists>k1. sys_trace (\<lambda>_ _ _ _ _. La_EFAULT_SRC) (quiet mm_states) TASK_PM TRACE_PEEK 4096 9 = Inr (EFAULT, k1) \<and>
    PST_IS_SET k1 9 PST_MMREQUEST \<and> mm_chain k1 [9] \<and>
    (\<forall>val. \<exists>k2. reply_mmreq 9 val k1 = Inr k2 \<and> \<not> PST_IS_SET k2 9 PST_MMREQUEST \<and>
       has_flag (flags (proc_table k2 9)) PF_RESUME_SYSCALL \<and>
       saved_reqmsg (mm_req (proc_table k2 9)) = saved_reqmsg (mm_req (proc_table (quiet mm_states) 9)))"
proof (rule peek_fault_reruns_old_call [OF mm_states_ok])
  show "resolvable (quiet mm_states) 9" "resolvable (quiet mm_states) 5"
    using mm_states_facts(2,3) by (simp_all add: resolvable_def quiet_table)
  show "endpt_proc (quiet mm_states) KERNEL = Some 2"
    using quiet_endpt [of 2 mm_states] by (simp add: mm_states_def)
qed (use mm_states_facts in \<open>simp_all add: quiet_table blank_proc_def flag_simps\<close>)

text \<open>
  The generation of a new endpoint is taken from the parent, not from the slot: when a child is
  cleared and its parent forks again into the same slot, the new process gets the endpoint of the
  dead one, so that a stale endpoint leads to the wrong process.
\<close>

theorem fork_reuses_endpoint:
  assumes "sys_fork k pe cs sp fl 0 = Inr (0, Some ce, k1)" and "sys_clear k1 ce = Inr (0, k2)"
    and "sys_fork k2 pe cs sp' fl' 0 = Inr (0, Some ce', k3)"
  shows "ce' = ce \<and> endpoint (proc_table k3 (proc_addr cs)) = ce"
proof -
  have "sys_fork k pe cs sp fl 0 = Inr (0, Some e, k') \<Longrightarrow> e = make_endpoint (ENDPOINT_G pe + 1) cs \<and>
      endpoint (proc_table k' (proc_addr cs)) = e" for k sp fl e k'
    by (auto simp: sys_fork_def bind_res_Inr_conv Let_def fork_child_def split: option.splits if_splits)
  from this [OF assms(1)] this [OF assms(3)] show ?thesis by simp
qed

theorem fork_reuses_endpoint_witness:
  "\<exists>k1 k2 k3. sys_fork (quiet fork_states) 6 7 0 0 0 = Inr (0, Some 1031, k1) \<and> sys_clear k1 1031 = Inr (0, k2) \<and>
     sys_fork k2 6 7 0 0 0 = Inr (0, Some 1031, k3) \<and> endpoint (proc_table k3 (proc_addr 7)) = 1031"
proof -
  let ?k = "quiet fork_states"
  have ep: "endpt_proc ?k 6 = Some 10" using quiet_endpt [of 10 fork_states] by (simp add: fork_states_def)
  have ce: "make_endpoint (ENDPOINT_G 6 + 1) 7 = 1031" by code_simp
  define k1 where "k1 = upd_proc (proc_addr 7) (\<lambda>_. forked ?k (proc_table ?k 10) 1031 7 6 0 0 10) ?k"
  have f1: "sys_fork ?k 6 7 0 0 0 = Inr (0, Some 1031, k1)"
    using sys_fork_eq [OF ep, of 7 10 0 0 0] ce by (simp add: quiet_table fork_states_def blank_proc_def quiet_priv_def k1_def)
  have "verify_endpt k1 1031 = Some (Some 7)"
    by (simp add: verify_endpt_def Let_def ENDPOINT_P_mod proc_slot_def proc_addr_def k1_def forked_fields
        quiet_table fork_states_def blank_priv_def blank_proc_def flag_simps)
  then obtain k2 where k2: "sys_clear k1 1031 = Inr (0, k2)" by (simp add: sys_clear_def stored_slot_def)
  then have t2: "proc_table k2 10 = proc_table ?k 10" "priv_table k2 = priv_table ?k"
    using \<open>verify_endpt k1 1031 = _\<close>
    by (auto simp: sys_clear_def stored_slot_def Let_def release_fpu_def PST_SETFLAGS_def proc_addr_def proc_slot_def
        k1_def split: if_splits)
  have ep2: "endpt_proc k2 6 = Some 10"
    using t2 by (simp add: endpt_proc_def verify_endpt_def Let_def ENDPOINT_P_mod proc_slot_def proc_addr_def
        quiet_table fork_states_def)
  obtain k3 where f3: "sys_fork k2 6 7 0 0 0 = Inr (0, Some 1031, k3)"
    using sys_fork_eq [OF ep2, of 7 10 0 0 0] ce t2 by (simp add: quiet_table fork_states_def blank_proc_def quiet_priv_def)
  show ?thesis using fork_reuses_endpoint [OF f1 k2 f3] f1 k2 f3 by blast
qed

end
