(* ===== verification/Timers.thy ===== *)
theory Timers
  imports List_Head Lyos_Prelude
begin

text \<open>
  The timers of a server (\<open>lib/liblyos/timer.c\<close>): a ring of timers in the order of their expiry on top
  of the intrusive lists.  The kernel uses the same routines for its own timers.
\<close>

section \<open>Definitions\<close>

abbreviation TIMER_UNSET :: int where "TIMER_UNSET \<equiv> 0xffffffff"

text \<open>
  Timers are named by the address of their \<open>list\<close> member, callbacks by the address of the function.
  \<open>ticks\<close> is what \<open>get_ticks\<close> returns (\<open>None\<close> if it fails), \<open>alarm\<close> the time the kernel was last asked
  to send an alarm at, and \<open>may_alarm\<close> says whether the kernel accepts such a request.
\<close>

record timers =
  tlinks :: list_store
  texpire :: "nat \<Rightarrow> int"
  tcallback :: "nat \<Rightarrow> nat"
  targ :: "nat \<Rightarrow> nat"
  expiring :: bool
  ticks :: "int option"
  alarm :: "int option"
  may_alarm :: bool

abbreviation timer_head :: nat where "timer_head \<equiv> 1"
abbreviation expiring_head :: nat where "expiring_head \<equiv> 2"

type_synonym callbacks = "nat \<Rightarrow> timers \<Rightarrow> timers res"

text \<open>The loop of \<open>timer_add\<close>: the node to insert behind.\<close>

fun timer_target :: "nat \<Rightarrow> timers \<Rightarrow> nat \<Rightarrow> int \<Rightarrow> nat \<Rightarrow> nat \<Rightarrow> nat res" where
  "timer_target 0 s head e target pos = Inl Diverge"
| "timer_target (Suc fuel) s head e target pos =
     (if pos = head then Inr target
      else if texpire s pos \<ge> e then Inr target
      else timer_target fuel s head e pos (nxt (tlinks s) pos))"

definition timer_add :: "nat \<Rightarrow> nat \<Rightarrow> nat \<Rightarrow> timers \<Rightarrow> timers res" where
  "timer_add fuel head timer s =
     (if list_empty (tlinks s) head then Inr (s\<lparr>tlinks := list_add timer head (tlinks s)\<rparr>)
      else bind_res (timer_target fuel s head (texpire s timer) head (nxt (tlinks s) head)) (\<lambda>target.
        Inr (s\<lparr>tlinks := list_add timer target (tlinks s)\<rparr>)))"

definition init_timer :: "nat \<Rightarrow> timers \<Rightarrow> timers" where
  "init_timer timer s =
     s\<lparr>texpire := (texpire s)(timer := TIMER_UNSET), tcallback := (tcallback s)(timer := 0), targ := (targ s)(timer := 0)\<rparr>"

definition cancel_timer :: "nat \<Rightarrow> timers \<Rightarrow> int \<times> timers" where
  "cancel_timer timer s =
     (if texpire s timer = TIMER_UNSET then (0, s)
      else (1, s\<lparr>texpire := (texpire s)(timer := TIMER_UNSET), tlinks := list_del timer (tlinks s)\<rparr>))"

text \<open>\<open>list_for_each_entry_safe\<close> reads the successor of the next entry before it runs the body.\<close>

fun expire_loop :: "nat \<Rightarrow> callbacks \<Rightarrow> nat \<Rightarrow> int \<Rightarrow> nat \<Rightarrow> nat \<Rightarrow> timers \<Rightarrow> timers res" where
  "expire_loop 0 cb head timestamp tp n s = Inl Diverge"
| "expire_loop (Suc fuel) cb head timestamp tp n s =
     (if tp = head then Inr s
      else bind_res (if texpire s tp \<le> timestamp then cb tp (snd (cancel_timer tp s)) else Inr s) (\<lambda>s.
        expire_loop fuel cb head timestamp n (nxt (tlinks s) n) s))"

definition timer_expire :: "nat \<Rightarrow> callbacks \<Rightarrow> nat \<Rightarrow> int \<Rightarrow> timers \<Rightarrow> timers res" where
  "timer_expire fuel cb head timestamp s =
     (let tp = nxt (tlinks s) head in expire_loop fuel cb head timestamp tp (nxt (tlinks s) tp) s)"

definition first_timeout :: "timers \<Rightarrow> int" where
  "first_timeout s =
     (if list_empty (tlinks s) timer_head then TIMER_UNSET else texpire s (nxt (tlinks s) timer_head))"

definition ask_alarm :: "int \<Rightarrow> timers \<Rightarrow> timers res" where
  "ask_alarm t s = (if may_alarm s then Inr (s\<lparr>alarm := Some t\<rparr>) else Inl Panic)"

definition set_timer :: "nat \<Rightarrow> nat \<Rightarrow> int \<Rightarrow> nat \<Rightarrow> nat \<Rightarrow> timers \<Rightarrow> timers res" where
  "set_timer fuel timer n cb arg s =
     (case ticks s of
        None \<Rightarrow> Inl Panic
      | Some uptime \<Rightarrow>
          let s = s\<lparr>texpire := (texpire s)(timer := (uptime + n) mod 2 ^ 64),
                tcallback := (tcallback s)(timer := cb), targ := (targ s)(timer := arg)\<rparr>;
              prev_timeout = first_timeout s
          in bind_res (if expiring s then Inr (s\<lparr>tlinks := list_add timer expiring_head (tlinks s)\<rparr>)
                       else timer_add fuel timer_head timer s) (\<lambda>s.
             let next_timeout = first_timeout s in
             if \<not> expiring s \<and> (prev_timeout = TIMER_UNSET \<or> prev_timeout \<noteq> next_timeout)
             then ask_alarm next_timeout s else Inr s))"

text \<open>The second loop of \<open>expire_timer\<close>: the timers set while others expired join the ring.\<close>

fun requeue_loop :: "nat \<Rightarrow> nat \<Rightarrow> nat \<Rightarrow> timers \<Rightarrow> timers res" where
  "requeue_loop 0 tp n s = Inl Diverge"
| "requeue_loop (Suc fuel) tp n s =
     (if tp = expiring_head then Inr s
      else bind_res (timer_add fuel timer_head tp (s\<lparr>tlinks := list_del tp (tlinks s)\<rparr>)) (\<lambda>s.
        requeue_loop fuel n (nxt (tlinks s) n) s))"

definition expire_timer :: "nat \<Rightarrow> callbacks \<Rightarrow> int \<Rightarrow> timers \<Rightarrow> timers res" where
  "expire_timer fuel cb timestamp s =
     bind_res (timer_expire fuel cb timer_head timestamp (s\<lparr>expiring := True\<rparr>)) (\<lambda>s.
       let s = s\<lparr>expiring := False\<rparr>; tp = nxt (tlinks s) expiring_head in
       bind_res (requeue_loop fuel tp (nxt (tlinks s) tp) s) (\<lambda>s.
         let next_timeout = first_timeout s in
         if next_timeout \<noteq> TIMER_UNSET then ask_alarm next_timeout s else Inr s))"

definition timer_expires_remaining :: "nat \<Rightarrow> timers \<Rightarrow> int res" where
  "timer_expires_remaining tp s =
     (if texpire s tp \<noteq> TIMER_UNSET then
        (case ticks s of
           None \<Rightarrow> Inl Panic
         | Some uptime \<Rightarrow> Inr (if texpire s tp > uptime then texpire s tp - uptime else 0))
      else Inr 0)"

section \<open>Timers in order\<close>

text \<open>Where a new timer goes: in front of the first one that expires no earlier.\<close>

definition insert_timer :: "(nat \<Rightarrow> int) \<Rightarrow> nat \<Rightarrow> nat list \<Rightarrow> nat list" where
  "insert_timer f t xs = takeWhile (\<lambda>x. f x < f t) xs @ t # dropWhile (\<lambda>x. f x < f t) xs"

lemma set_insert_timer [simp]: "set (insert_timer f t xs) = insert t (set xs)"
proof -
  have "set xs = set (takeWhile P xs) \<union> set (dropWhile P xs)" for P
    by (metis set_append takeWhile_dropWhile_id)
  then show ?thesis by (auto simp: insert_timer_def)
qed

lemma insert_timer_Cons:
  "insert_timer f t [] = [t]"
  "insert_timer f t (x # xs) = (if f x < f t then x # insert_timer f t xs else t # x # xs)"
  by (simp_all add: insert_timer_def)

lemma distinct_insert_timer: "distinct xs \<Longrightarrow> t \<notin> set xs \<Longrightarrow> distinct (insert_timer f t xs)"
  by (induction xs) (auto simp: insert_timer_Cons)

lemma sorted_insert_timer: "sorted (map f xs) \<Longrightarrow> sorted (map f (insert_timer f t xs))"
  by (induction xs) (auto simp: insert_timer_Cons)

lemma is_list_add_after:
  assumes "is_list s h (xs @ ys)" and "new \<notin> set (h # xs @ ys)"
  shows "is_list (list_add new (last (h # xs)) s) h (xs @ new # ys)"
proof -
  have "nxt s (last (h # xs)) = hd (ys @ [h])"
  proof (cases xs rule: rev_cases)
    case Nil
    then show ?thesis using assms(1) by (auto simp: is_list_def dest: seg_next_hd)
  next
    case (snoc zs z)
    then show ?thesis using assms(1) by (auto simp: is_list_def seg_append dest: seg_next_hd)
  qed
  then show ?thesis
    using assms seg_insert [of s h xs ys h new] by (auto simp: is_list_def list_add_def)
qed

lemma timer_target_ok:
  assumes "seg (tlinks s) a ys h" and "h \<notin> set ys" and "length ys < fuel"
  shows "timer_target fuel s h e a (nxt (tlinks s) a) = Inr (last (a # takeWhile (\<lambda>x. texpire s x < e) ys))"
  using assms
proof (induction ys arbitrary: a fuel)
  case Nil
  then show ?case by (cases fuel) auto
next
  case (Cons y ys)
  then show ?case by (cases fuel) auto
qed

lemma timer_add_ok:
  assumes l: "is_list (tlinks s) h xs" and t: "t \<notin> set (h # xs)" and fuel: "length xs < fuel"
  shows "\<exists>a. a \<in> set (h # xs) \<and> timer_add fuel h t s = Inr (s\<lparr>tlinks := list_add t a (tlinks s)\<rparr>) \<and>
    is_list (list_add t a (tlinks s)) h (insert_timer (texpire s) t xs)"
proof -
  let ?P = "\<lambda>x. texpire s x < texpire s t"
  define a where "a = last (h # takeWhile ?P xs)"
  have a: "a \<in> set (h # xs)" unfolding a_def by (metis last_in_set list.distinct(1) set_takeWhileD list.set_intros set_ConsD)
  have tg: "timer_target fuel s h (texpire s t) h (nxt (tlinks s) h) = Inr a"
    unfolding a_def using l fuel by (intro timer_target_ok) (auto simp: is_list_def)
  have "is_list (list_add t a (tlinks s)) h (takeWhile ?P xs @ t # dropWhile ?P xs)"
    unfolding a_def using l t by (intro is_list_add_after) auto
  moreover have "timer_add fuel h t s = Inr (s\<lparr>tlinks := list_add t a (tlinks s)\<rparr>)"
    using tg is_list_empty_iff [OF l] by (auto simp: timer_add_def a_def)
  ultimately show ?thesis using a by (auto simp: insert_timer_def)
qed

section \<open>Expiry\<close>

lemma is_list_add_after_frame:
  assumes "is_list s h xs" and "a \<in> set (h # xs)" and "new \<notin> set (h # xs)" and "is_list s k ys"
    and "set (h # xs) \<inter> set (k # ys) = {}" and "new \<notin> set (k # ys)"
  shows "is_list (list_add new a s) k ys"
proof (rule is_list_frame [OF assms(4)])
  from assms(1,2) have "nxt s a \<in> set (h # xs)"
    using seg_next_in [of s h xs h a] by (auto simp: is_list_def)
  then have ne: "new \<noteq> a" "new \<noteq> nxt s a" "a \<notin> set (k # ys)" "nxt s a \<notin> set (k # ys)"
    using assms(2,3,5) by fastforce+
  show "\<forall>x \<in> set (k # ys). nxt (list_add new a s) x = nxt s x \<and> prev (list_add new a s) x = prev s x"
    using ne(3,4) assms(6) unfolding list_add_def add_between_fields(1) [OF ne(1)] add_between_fields(2) [OF ne(2)] by auto
qed

text \<open>The ring of the timers holds \<open>xs\<close>, the ring of those set during expiry \<open>ys\<close>.\<close>

definition rings :: "list_store \<Rightarrow> nat list \<Rightarrow> nat list \<Rightarrow> bool" where
  "rings l xs ys \<longleftrightarrow> is_list l timer_head xs \<and> is_list l expiring_head ys \<and>
     set (timer_head # xs) \<inter> set (expiring_head # ys) = {}"

text \<open>
  What a callback may do to the timers: nothing, or set its own timer again.  It must not touch
  others.
\<close>

definition callbacks_ok :: "callbacks \<Rightarrow> bool" where
  "callbacks_ok cb \<longleftrightarrow> (\<forall>t s xs ys. rings (tlinks s) xs ys \<and> expiring s \<and> ticks s \<noteq> None \<and> is_list (tlinks s) t [] \<and>
     t \<notin> set (timer_head # expiring_head # xs @ ys) \<longrightarrow>
     (\<exists>s'. cb t s = Inr s' \<and> (rings (tlinks s') xs ys \<or> rings (tlinks s') xs (t # ys)) \<and> expiring s' \<and> ticks s' = ticks s \<and>
        may_alarm s' = may_alarm s \<and> alarm s' = alarm s \<and> (\<forall>x. x \<noteq> t \<longrightarrow> texpire s' x = texpire s x)))"

lemma rings_del:
  assumes "rings l (as @ x # bs) ys"
  shows "rings (list_del x l) (as @ bs) ys" "is_list (list_del x l) x []" "x \<notin> set (timer_head # expiring_head # as @ bs @ ys)"
  using assms is_list_del [of l timer_head as x bs] is_list_del_frame [of l timer_head as x bs expiring_head ys]
  by (auto simp: rings_def is_list_def)

text \<open>
  What expiring should do: the timers that are due are taken out and their callbacks run, one after the
  other, in the order of the ring.
\<close>

primrec run_due :: "callbacks \<Rightarrow> nat list \<Rightarrow> timers \<Rightarrow> timers res" where
  "run_due cb [] s = Inr s"
| "run_due cb (t # ts) s = bind_res (cb t (snd (cancel_timer t s))) (run_due cb ts)"

lemma expire_loop_ok:
  assumes cb: "callbacks_ok cb"
  shows "rings (tlinks s) (as @ xs) ys \<Longrightarrow> expiring s \<Longrightarrow> ticks s \<noteq> None \<Longrightarrow> \<forall>x \<in> set xs. texpire s x \<noteq> TIMER_UNSET \<Longrightarrow>
    length xs < fuel \<Longrightarrow> \<exists>s' zs. expire_loop fuel cb timer_head ts (hd (xs @ [timer_head])) (nxt (tlinks s) (hd (xs @ [timer_head]))) s = Inr s' \<and>
      run_due cb (filter (\<lambda>x. texpire s x \<le> ts) xs) s = Inr s' \<and> ticks s' = ticks s \<and>
      rings (tlinks s') (as @ filter (\<lambda>x. texpire s x > ts) xs) (zs @ ys) \<and> set zs \<subseteq> {x \<in> set xs. texpire s x \<le> ts} \<and>
      may_alarm s' = may_alarm s \<and> alarm s' = alarm s \<and> (\<forall>x. x \<notin> set xs \<or> texpire s x > ts \<longrightarrow> texpire s' x = texpire s x)"
proof (induction xs arbitrary: as ys s fuel)
  case Nil
  then obtain n where "fuel = Suc n" by (cases fuel) auto
  with Nil show ?case by (auto intro!: exI [of _ "[]"])
next
  case (Cons x xs)
  then obtain n where fuel: "fuel = Suc n" by (cases fuel) auto
  have ne: "x \<noteq> timer_head" and d: "x \<notin> set xs" using Cons.prems(1) by (auto simp: rings_def is_list_def)
  have nx: "nxt (tlinks s) x = hd (xs @ [timer_head])"
    using Cons.prems(1) by (auto simp: rings_def is_list_def seg_append dest: seg_next_hd)
  show ?case
  proof (cases "texpire s x \<le> ts")
    case False
    from Cons.IH [of s "as @ [x]" ys n] Cons.prems fuel obtain s' zs where
      "expire_loop n cb timer_head ts (hd (xs @ [timer_head])) (nxt (tlinks s) (hd (xs @ [timer_head]))) s = Inr s'"
      "run_due cb (filter (\<lambda>x. texpire s x \<le> ts) xs) s = Inr s'" "ticks s' = ticks s"
      "rings (tlinks s') ((as @ [x]) @ filter (\<lambda>x. texpire s x > ts) xs) (zs @ ys)" "set zs \<subseteq> {x \<in> set xs. texpire s x \<le> ts}"
      "may_alarm s' = may_alarm s" "alarm s' = alarm s" "\<forall>x. x \<notin> set xs \<or> texpire s x > ts \<longrightarrow> texpire s' x = texpire s x" by auto
    with False ne nx fuel show ?thesis by (intro exI [of _ s'] exI [of _ zs]) auto
  next
    case True
    define s1 where "s1 = snd (cancel_timer x s)"
    have s1: "s1 = s\<lparr>texpire := (texpire s)(x := TIMER_UNSET), tlinks := list_del x (tlinks s)\<rparr>"
      using Cons.prems(4) by (simp add: s1_def cancel_timer_def)
    note del = rings_del [OF Cons.prems(1)]
    have "rings (tlinks s1) (as @ xs) ys \<and> expiring s1 \<and> ticks s1 \<noteq> None \<and> is_list (tlinks s1) x [] \<and>
        x \<notin> set (timer_head # expiring_head # (as @ xs) @ ys)"
      using del Cons.prems(2,3) by (simp add: s1)
    then obtain s2 where s2: "cb x s1 = Inr s2" "rings (tlinks s2) (as @ xs) ys \<or> rings (tlinks s2) (as @ xs) (x # ys)"
        "expiring s2" "ticks s2 = ticks s1" "may_alarm s2 = may_alarm s1" "alarm s2 = alarm s1" "\<forall>y. y \<noteq> x \<longrightarrow> texpire s2 y = texpire s1 y"
      using cb unfolding callbacks_ok_def by blast
    obtain us where us: "rings (tlinks s2) (as @ xs) (us @ ys)" "set us \<subseteq> {x}"
    proof (cases "rings (tlinks s2) (as @ xs) ys")
      case True
      then show thesis using that [of "[]"] by simp
    next
      case False
      then show thesis using that [of "[x]"] s2(2) by simp
    qed
    have e2: "texpire s2 y = texpire s y" if "y \<noteq> x" for y using s2(7) that by (simp add: s1)
    have xs2: "texpire s2 y = texpire s y" if "y \<in> set xs" for y using that d by (intro e2) auto
    have flt: "filter (\<lambda>y. texpire s2 y > ts) xs = filter (\<lambda>y. texpire s y > ts) xs"
      by (rule filter_cong) (simp_all add: xs2)
    have due: "filter (\<lambda>y. texpire s2 y \<le> ts) xs = filter (\<lambda>y. texpire s y \<le> ts) xs"
      by (rule filter_cong) (simp_all add: xs2)
    have "\<forall>y \<in> set xs. texpire s2 y \<noteq> TIMER_UNSET" using Cons.prems(4) xs2 by simp
    from Cons.IH [OF us(1) s2(3) _ this, of n] obtain s' zs where
      s': "expire_loop n cb timer_head ts (hd (xs @ [timer_head])) (nxt (tlinks s2) (hd (xs @ [timer_head]))) s2 = Inr s'"
      "rings (tlinks s') (as @ filter (\<lambda>x. texpire s x > ts) xs) (zs @ us @ ys)" "set zs \<subseteq> {x \<in> set xs. texpire s2 x \<le> ts}"
      "may_alarm s' = may_alarm s2" "alarm s' = alarm s2" "\<forall>x. x \<notin> set xs \<or> texpire s2 x > ts \<longrightarrow> texpire s' x = texpire s2 x"
      "run_due cb (filter (\<lambda>x. texpire s x \<le> ts) xs) s2 = Inr s'" "ticks s' = ticks s2"
      using s2(4) Cons.prems(3,5) fuel by (auto simp: s1 flt due)
    have keep: "texpire s' y = texpire s y" if "y \<notin> set (x # xs) \<or> texpire s y > ts" for y
    proof -
      have yx: "y \<noteq> x" using that True by auto
      have "y \<notin> set xs \<or> texpire s2 y > ts" using that e2 [OF yx] by auto
      then show ?thesis using s'(6) e2 [OF yx] by simp
    qed
    have sub: "set (zs @ us) \<subseteq> {y \<in> set (x # xs). texpire s y \<le> ts}"
    proof
      fix y assume "y \<in> set (zs @ us)"
      then have "y \<in> set xs \<and> texpire s2 y \<le> ts \<or> y = x" using s'(3) us(2) by auto
      then show "y \<in> {y \<in> set (x # xs). texpire s y \<le> ts}" using xs2 True by auto
    qed
    have run: "expire_loop fuel cb timer_head ts (hd ((x # xs) @ [timer_head])) (nxt (tlinks s) (hd ((x # xs) @ [timer_head]))) s = Inr s'"
      using True ne nx fuel s'(1) s2(1) by (simp add: s1_def)
    have "run_due cb (filter (\<lambda>x. texpire s x \<le> ts) (x # xs)) s = Inr s'" using True s'(7) s2(1) by (simp add: s1_def)
    then show ?thesis
      using run s'(2,4,5,8) s2(4,5,6) keep sub True by (intro exI [of _ s'] exI [of _ "zs @ us"]) (simp add: s1)
  qed
qed

lemma fold_insert_timer:
  "set (fold (insert_timer f) zs xs) = set zs \<union> set xs"
  "sorted (map f xs) \<Longrightarrow> sorted (map f (fold (insert_timer f) zs xs))"
  by (induction zs arbitrary: xs) (auto simp: sorted_insert_timer)

lemma length_insert_timer [simp]: "length (insert_timer f t xs) = Suc (length xs)"
  by (induction xs) (simp_all add: insert_timer_Cons)

lemma requeue_loop_ok:
  "rings (tlinks s) xs zs \<Longrightarrow> length xs + 2 * length zs < fuel \<Longrightarrow>
    \<exists>l. requeue_loop fuel (hd (zs @ [expiring_head])) (nxt (tlinks s) (hd (zs @ [expiring_head]))) s = Inr (s\<lparr>tlinks := l\<rparr>) \<and>
      rings l (fold (insert_timer (texpire s)) zs xs) []"
proof (induction zs arbitrary: xs s fuel)
  case Nil
  then obtain n where "fuel = Suc n" by (cases fuel) auto
  with Nil show ?case by (auto intro!: exI [of _ "tlinks s"])
next
  case (Cons z zs)
  then obtain n where fuel: "fuel = Suc n" by (cases fuel) auto
  have L: "is_list (tlinks s) expiring_head ([] @ z # zs)" "is_list (tlinks s) timer_head xs"
      "set (expiring_head # [] @ z # zs) \<inter> set (timer_head # xs) = {}"
    using Cons.prems(1) by (auto simp: rings_def)
  have ne: "z \<noteq> expiring_head" "z \<notin> set zs" "z \<notin> set (timer_head # xs)" using L(1,3) by (auto simp: is_list_def)
  have nx: "nxt (tlinks s) z = hd (zs @ [expiring_head])" using L(1) by (auto simp: is_list_def dest: seg_next_hd)
  define s1 where "s1 = s\<lparr>tlinks := list_del z (tlinks s)\<rparr>"
  have l1: "is_list (tlinks s1) expiring_head zs" "is_list (tlinks s1) timer_head xs"
    using is_list_del(1) [OF L(1)] is_list_del_frame [OF L] by (simp_all add: s1_def)
  from timer_add_ok [OF l1(2) ne(3), of n] Cons.prems(2) fuel obtain a where
    a: "a \<in> set (timer_head # xs)" "timer_add n timer_head z s1 = Inr (s1\<lparr>tlinks := list_add z a (tlinks s1)\<rparr>)"
      "is_list (list_add z a (tlinks s1)) timer_head (insert_timer (texpire s1) z xs)" by auto
  define s2 where "s2 = s1\<lparr>tlinks := list_add z a (tlinks s1)\<rparr>"
  have "is_list (tlinks s2) expiring_head zs"
    unfolding s2_def using a(1) l1 ne L(3) by (simp, intro is_list_add_after_frame [OF l1(2)]) auto
  then have "rings (tlinks s2) (insert_timer (texpire s) z xs) zs"
    using a(3) L(3) ne by (auto simp: rings_def s2_def s1_def)
  from Cons.IH [OF this, of n] Cons.prems(2) fuel obtain l where
    "requeue_loop n (hd (zs @ [expiring_head])) (nxt (tlinks s2) (hd (zs @ [expiring_head]))) s2 = Inr (s2\<lparr>tlinks := l\<rparr>)"
    "rings l (fold (insert_timer (texpire s2)) zs (insert_timer (texpire s) z xs)) []" by auto
  then show ?case
    using ne(1) nx fuel a(2) by (intro exI [of _ l]) (simp add: s1_def s2_def)
qed

section \<open>Properties\<close>

text \<open>
  C20: Expiring timers returns when every callback leaves the other timers alone, that is, does nothing to the
  timers or sets its own again.  It comes to this: the callbacks of the timers that are due run once each, in
  the order of the ring, each after its timer is taken out (\<open>run_due\<close>); the timers that are not due stay, and
  those that were set again meanwhile (\<open>zs\<close>) are put in front of the first that expires no earlier, so that the
  ring is in the order of expiry; and the kernel is asked for an alarm at the time of the first timer.
  Nothing else changes.
\<close>

theorem expire_timer_correct:
  assumes "callbacks_ok cb" and "rings (tlinks s) xs []" and "\<forall>x \<in> set xs. texpire s x \<noteq> TIMER_UNSET"
    and "sorted (map (texpire s) xs)" and "ticks s \<noteq> None" and "may_alarm s" and "2 * length xs < fuel"
  shows "\<exists>s1 zs s' ys. run_due cb (filter (\<lambda>x. texpire s x \<le> ts) xs) (s\<lparr>expiring := True\<rparr>) = Inr s1 \<and>
    rings (tlinks s1) (filter (\<lambda>x. texpire s x > ts) xs) zs \<and> set zs \<subseteq> {x \<in> set xs. texpire s x \<le> ts} \<and>
    expire_timer fuel cb ts s = Inr s' \<and> ys = fold (insert_timer (texpire s1)) zs (filter (\<lambda>x. texpire s x > ts) xs) \<and>
    rings (tlinks s') ys [] \<and> sorted (map (texpire s') ys) \<and> (\<forall>x. texpire s x > ts \<longrightarrow> texpire s' x = texpire s x) \<and>
    s' = s1\<lparr>expiring := False, tlinks := tlinks s', alarm := alarm s'\<rparr> \<and>
    alarm s' = (if ys \<noteq> [] \<and> texpire s' (hd ys) \<noteq> TIMER_UNSET then Some (texpire s' (hd ys)) else alarm s)"
proof -
  let ?s = "s\<lparr>expiring := True\<rparr>" and ?live = "filter (\<lambda>x. texpire s x > ts) xs"
  have hd: "is_list l h ys \<Longrightarrow> nxt l h = hd (ys @ [h])" for l h ys by (auto simp: is_list_def dest: seg_next_hd)
  obtain s1 zs where s1: "timer_expire fuel cb timer_head ts ?s = Inr s1" "rings (tlinks s1) ?live zs"
      "set zs \<subseteq> {x \<in> set xs. texpire s x \<le> ts}" "may_alarm s1" "\<forall>x. x \<notin> set xs \<or> texpire s x > ts \<longrightarrow> texpire s1 x = texpire s x"
      "run_due cb (filter (\<lambda>x. texpire s x \<le> ts) xs) ?s = Inr s1" "alarm s1 = alarm s"
    using expire_loop_ok [OF assms(1), of ?s "[]" xs "[]" fuel ts] assms hd [of "tlinks s" timer_head xs]
    by (auto simp: timer_expire_def rings_def)
  define s2 where "s2 = s1\<lparr>expiring := False\<rparr>"
  have t2: "tlinks s2 = tlinks s1" by (simp add: s2_def)
  define ys where "ys = fold (insert_timer (texpire s1)) zs ?live"
  have "distinct zs" using s1(2) by (auto simp: rings_def is_list_def)
  then have "length zs \<le> length (filter (\<lambda>x. texpire s x \<le> ts) xs)"
    using s1(3) card_mono [of "set (filter (\<lambda>x. texpire s x \<le> ts) xs)" "set zs"] card_length [of "filter (\<lambda>x. texpire s x \<le> ts) xs"]
    by (auto simp: distinct_card)
  moreover have "length (filter (\<lambda>x. texpire s x \<le> ts) xs) + length ?live = length xs"
    using sum_length_filter_compl [of "\<lambda>x. texpire s x \<le> ts" xs] by (simp add: not_le)
  ultimately have len: "length ?live + 2 * length zs < fuel" using assms(7) by linarith
  obtain l where l: "requeue_loop fuel (nxt (tlinks s2) expiring_head) (nxt (tlinks s2) (nxt (tlinks s2) expiring_head)) s2 = Inr (s2\<lparr>tlinks := l\<rparr>)"
      "rings l ys []"
    using requeue_loop_ok [of s2 ?live zs fuel] s1(2) len hd [of "tlinks s2" expiring_head zs] by (auto simp: s2_def ys_def rings_def)
  define s3 where "s3 = s2\<lparr>tlinks := l\<rparr>"
  have "map (texpire s1) ?live = map (texpire s) ?live" using s1(5) by simp
  then have "sorted (map (texpire s1) ?live)" using assms(4) by (simp only:) (rule sorted_filter)
  then have so: "sorted (map (texpire s3) ys)" by (simp add: s3_def s2_def ys_def fold_insert_timer(2))
  have f: "first_timeout s3 = (if ys = [] then TIMER_UNSET else texpire s3 (hd ys))"
    using l(2) is_list_empty_iff [of l timer_head ys] hd [of l timer_head ys]
    by (auto simp: first_timeout_def s3_def rings_def hd_append)
  have run: "expire_timer fuel cb ts s = (if first_timeout s3 \<noteq> TIMER_UNSET then ask_alarm (first_timeout s3) s3 else Inr s3)"
    using s1(1) l(1) [unfolded t2] by (simp add: expire_timer_def Let_def s2_def [symmetric] s3_def)
  define s4 where "s4 = (if first_timeout s3 \<noteq> TIMER_UNSET then s3\<lparr>alarm := Some (first_timeout s3)\<rparr> else s3)"
  have "expire_timer fuel cb ts s = Inr s4" using run s1(4) by (simp add: ask_alarm_def s4_def s3_def s2_def)
  moreover have "tlinks s4 = l" "texpire s4 = texpire s1" "s4 = s1\<lparr>expiring := False, tlinks := tlinks s4, alarm := alarm s4\<rparr>"
    by (simp_all add: s4_def s3_def s2_def)
  moreover have "alarm s4 = (if ys \<noteq> [] \<and> texpire s4 (hd ys) \<noteq> TIMER_UNSET then Some (texpire s4 (hd ys)) else alarm s)"
    using f s1(7) by (simp add: s4_def s3_def s2_def)
  moreover have "\<forall>x. texpire s x > ts \<longrightarrow> texpire s1 x = texpire s x" using s1(5) by blast
  ultimately show ?thesis
    using l(2) so s1(2,3,6) by (intro exI [of _ s1] exI [of _ zs] exI [of _ s4] exI [of _ ys]) (simp add: ys_def s3_def s2_def)
qed

text \<open>A callback that sets its own timer again.\<close>

lemma set_timer_callback_ok: "callbacks_ok (\<lambda>t s. set_timer fuel t n c a s)"
  unfolding callbacks_ok_def
proof (intro allI impI, elim conjE)
  fix t xs ys and s :: timers
  assume r: "rings (tlinks s) xs ys" and e: "expiring s" "ticks s \<noteq> None" and t: "t \<notin> set (timer_head # expiring_head # xs @ ys)"
  have "is_list (list_add t expiring_head (tlinks s)) expiring_head (t # ys)" using r t by (auto simp: rings_def intro: is_list_add)
  moreover have "is_list (list_add t expiring_head (tlinks s)) timer_head xs"
    using r t by (intro is_list_add_frame [of _ expiring_head ys]) (auto simp: rings_def)
  ultimately have "rings (list_add t expiring_head (tlinks s)) xs (t # ys)" using r t by (auto simp: rings_def)
  with e show "\<exists>s'. set_timer fuel t n c a s = Inr s' \<and> (rings (tlinks s') xs ys \<or> rings (tlinks s') xs (t # ys)) \<and> expiring s' \<and>
      ticks s' = ticks s \<and> may_alarm s' = may_alarm s \<and> alarm s' = alarm s \<and> (\<forall>x. x \<noteq> t \<longrightarrow> texpire s' x = texpire s x)"
    by (auto simp: set_timer_def Let_def)
qed

text \<open>Two timers, at 5 and at 9, at time 6.\<close>

definition two_timers :: timers where
  "two_timers = \<lparr>tlinks = demo_store, texpire = (\<lambda>_. TIMER_UNSET)(10 := 5, 11 := 9), tcallback = (\<lambda>_. 0), targ = (\<lambda>_. 0),
     expiring = False, ticks = Some 6, alarm = None, may_alarm = True\<rparr>"

lemma two_timers_rings: "rings (tlinks two_timers) [10, 11] []"
  using demo_store_lists by (simp add: rings_def two_timers_def)

theorem expire_timer_correct_witness:
  "\<exists>s1 s' ys. run_due (\<lambda>t s. set_timer 9 t 2 0 0 s) [10] (two_timers\<lparr>expiring := True\<rparr>) = Inr s1 \<and>
    expire_timer 9 (\<lambda>t s. set_timer 9 t 2 0 0 s) 6 two_timers = Inr s' \<and> rings (tlinks s') ys [] \<and> sorted (map (texpire s') ys) \<and>
    11 \<in> set ys \<and> s' = s1\<lparr>expiring := False, tlinks := tlinks s', alarm := alarm s'\<rparr>"
proof -
  let ?cb = "\<lambda>t s. set_timer 9 t 2 0 0 s"
  have flt: "filter (\<lambda>x. texpire two_timers x \<le> 6) [10, 11] = [10]" "filter (\<lambda>x. texpire two_timers x > 6) [10, 11] = [11]"
    by (simp_all add: two_timers_def)
  have "callbacks_ok ?cb" by (rule set_timer_callback_ok)
  from expire_timer_correct [OF this two_timers_rings, where ts = 6 and fuel = 9, unfolded flt]
  obtain s1 zs s' ys where r: "run_due ?cb [10] (two_timers\<lparr>expiring := True\<rparr>) = Inr s1" "expire_timer 9 ?cb 6 two_timers = Inr s'"
      "rings (tlinks s') ys []" "sorted (map (texpire s') ys)" "ys = fold (insert_timer (texpire s1)) zs [11]"
      "s' = s1\<lparr>expiring := False, tlinks := tlinks s', alarm := alarm s'\<rparr>"
    by (auto simp: two_timers_def)
  then have "11 \<in> set ys" by (simp only: r(5) fold_insert_timer(1)) simp
  with r show ?thesis by blast
qed

text \<open>
  A callback that cancels the timer next in the ring makes \<open>timer_expire\<close> loop for ever:
  \<open>list_for_each_entry_safe\<close> has already picked that timer as its next entry, and \<open>list_del\<close> links
  it to itself.
\<close>

theorem cancel_next_diverges:
  assumes l: "is_list (tlinks s) timer_head (x # y # zs)" and due: "texpire s x \<le> ts" "texpire s x \<noteq> TIMER_UNSET"
    and y: "texpire s y \<noteq> TIMER_UNSET" and ts: "ts < TIMER_UNSET"
  shows "timer_expire fuel (\<lambda>t s. Inr (snd (cancel_timer y s))) timer_head ts s = Inl Diverge"
proof -
  let ?cb = "\<lambda>t s. Inr (snd (cancel_timer y s))"
  have loop: "expire_loop n ?cb timer_head ts y y s' = Inl Diverge"
    if "nxt (tlinks s') y = y" "texpire s' y = TIMER_UNSET" "y \<noteq> timer_head" for n s'
    using that ts by (induction n) auto
  have l1: "is_list (list_del x (tlinks s)) timer_head (y # zs)" using is_list_del(1) [of _ timer_head "[]" x "y # zs"] l by simp
  have self: "nxt (list_del y (list_del x (tlinks s))) y = y"
    using is_list_del(2) [of _ timer_head "[]" y zs] l1 by (auto simp: is_list_def)
  have "nxt (tlinks s) timer_head = x" "nxt (tlinks s) x = y" "x \<noteq> timer_head" "y \<noteq> timer_head" "x \<noteq> y"
    using l by (auto simp: is_list_def)
  then show ?thesis
    using due y self loop by (cases fuel) (simp_all add: timer_expire_def Let_def cancel_timer_def)
qed

theorem cancel_next_diverges_witness:
  "timer_expire 1000 (\<lambda>t s. Inr (snd (cancel_timer 11 s))) timer_head 6 two_timers = Inl Diverge"
  by (rule cancel_next_diverges [of _ 10 11 "[]"]) (use demo_store_lists in \<open>simp_all add: two_timers_def\<close>)

text \<open>
  \<open>set_timer\<close> does not unlink a timer that is already running.  Setting the first timer of the
  ring again links it to itself, and every later walk over the ring loops for ever.
\<close>

theorem set_running_timer_diverges:
  assumes l: "is_list (tlinks s) timer_head (t # ys)" and e: "\<not> expiring s" "ticks s = Some up" "may_alarm s"
  shows "\<exists>s'. set_timer (Suc n) t d cb arg s = Inr s' \<and> (\<forall>fuel. list_for_each_entry fuel (tlinks s') timer_head = None)"
proof -
  define l' where "l' = list_add t timer_head (tlinks s)"
  have h: "nxt (tlinks s) timer_head = t" "t \<noteq> timer_head" using l by (auto simp: is_list_def)
  then have l': "nxt l' timer_head = t" "nxt l' t = t"
    by (simp_all add: l'_def list_add_def list_add_between_def Let_def)
  have walk: "list_walk fuel l' timer_head t = None" for fuel
    using l'(2) h(2) by (induction fuel) auto
  define s1 where "s1 = s\<lparr>texpire := (texpire s)(t := (up + d) mod 2 ^ 64), tcallback := (tcallback s)(t := cb), targ := (targ s)(t := arg)\<rparr>"
  have "timer_add (Suc n) timer_head t s1 = Inr (s1\<lparr>tlinks := l'\<rparr>)"
    using h by (simp add: timer_add_def s1_def l'_def list_empty_def)
  then have "set_timer (Suc n) t d cb arg s = (if first_timeout s1 = TIMER_UNSET \<or> first_timeout s1 \<noteq> first_timeout (s1\<lparr>tlinks := l'\<rparr>)
      then ask_alarm (first_timeout (s1\<lparr>tlinks := l'\<rparr>)) (s1\<lparr>tlinks := l'\<rparr>) else Inr (s1\<lparr>tlinks := l'\<rparr>))"
    using e(1,2) by (simp add: set_timer_def Let_def s1_def)
  then obtain s' where "set_timer (Suc n) t d cb arg s = Inr s'" "tlinks s' = l'"
    using e(3) by (auto simp: ask_alarm_def s1_def split: if_splits)
  then show ?thesis using walk l'(1) by (auto simp: list_for_each_entry_def)
qed

theorem set_running_timer_diverges_witness:
  "\<exists>s'. set_timer 9 10 7 0 0 two_timers = Inr s' \<and> (\<forall>fuel. list_for_each_entry fuel (tlinks s') timer_head = None)"
  using set_running_timer_diverges [of two_timers 10 "[11]" 6 8 7 0 0] demo_store_lists by (simp add: two_timers_def)

end
