(* ===== verification/Clock.thy ===== *)
theory Clock
  imports Syscalls Timers
begin

text \<open>
  The clock of the kernel (\<open>kernel/clock.c\<close>, \<open>kernel/system/sys_alarm.c\<close>): the tick, the timers behind
  alarms, and the accounting of a process that stops running.
\<close>

unbundle bit_operations_syntax

section \<open>Definitions\<close>

abbreviation MAX_TICKS :: nat where "MAX_TICKS \<equiv> 0x7FFFABCD"

text \<open>
  The ring of running timers is the sequence \<open>timer_list\<close> of the privilege structures they belong to:
  \<open>timer_add_ok\<close> shows that \<open>timer_add\<close> on the ring is \<open>insert_timer\<close> on the sequence.  \<open>list_del\<close> of a
  timer that is not linked changes nothing, because an unlinked node is linked to itself.
\<close>

definition timer_key :: "kernel \<Rightarrow> nat \<Rightarrow> int" where
  "timer_key k i = expire_time (priv_table k i)"

definition next_timer :: "kernel \<Rightarrow> int" where
  "next_timer k = (case timer_list k of [] \<Rightarrow> TIMER_UNSET | i # _ \<Rightarrow> timer_key k i)"

definition cancel_sys_timer :: "nat \<Rightarrow> kernel \<Rightarrow> kernel" where
  "cancel_sys_timer i k =
     (if timer_key k i = TIMER_UNSET then k
      else upd_priv i (expire_time_update (\<lambda>_. TIMER_UNSET)) (k\<lparr>timer_list := remove1 i (timer_list k)\<rparr>))"

definition set_sys_timer :: "nat \<Rightarrow> kernel \<Rightarrow> kernel" where
  "set_sys_timer i k =
     (let k = (if timer_key k i \<noteq> TIMER_UNSET then k\<lparr>timer_list := remove1 i (timer_list k)\<rparr> else k);
          k = k\<lparr>timer_list := insert_timer (timer_key k) i (timer_list k)\<rparr>
      in k\<lparr>next_timeout := next_timer k\<rparr>)"

definition reset_sys_timer :: "nat \<Rightarrow> kernel \<Rightarrow> kernel" where
  "reset_sys_timer i k = (let k = cancel_sys_timer i k in k\<lparr>next_timeout := next_timer k\<rparr>)"

definition sig_alarm :: "nat \<Rightarrow> kernel \<Rightarrow> kernel res" where
  "sig_alarm i k = bind_res (msg_notify k (proc_addr CLOCK) (timer_arg (priv_table k i))) (\<lambda>(_, k). Inr k)"

text \<open>\<open>sys_alarm\<close> returns the result and the time that was left.\<close>

definition sys_alarm :: "kernel \<Rightarrow> int \<Rightarrow> bool \<Rightarrow> nat \<Rightarrow> (int \<times> int \<times> kernel) res" where
  "sys_alarm k expire absolute p =
     bind_res (priv_of k p) (\<lambda>i.
       if \<not> has_flag (prflags (priv_table k i)) PRF_PRIV_PROC then Inr (EPERM, 0, k)
       else
         let k = upd_priv i (timer_arg_update (\<lambda>_. endpoint (proc_table k p))) k;
             left = (if timer_key k i \<noteq> TIMER_UNSET \<and> timer_key k i > int (jiffies k)
                     then timer_key k i - int (jiffies k) else 0)
         in Inr (0, left,
              if expire = 0 then reset_sys_timer i k
              else set_sys_timer i (upd_priv i (expire_time_update
                     (\<lambda>_. if absolute then expire else (int (jiffies k) + expire) mod 2 ^ 64)) k)))"

text \<open>
  \<open>timer_expire\<close> with \<open>sig_alarm\<close> as the callback of every timer.  The callback leaves the timers
  alone, so the loop visits the timers that were running when it began.
\<close>

fun expire_sys_timers :: "nat list \<Rightarrow> kernel \<Rightarrow> kernel res" where
  "expire_sys_timers [] k = Inr k"
| "expire_sys_timers (i # is) k =
     bind_res (if timer_key k i \<le> int (jiffies k) then sig_alarm i (cancel_sys_timer i k) else Inr k) (expire_sys_timers is)"

definition run_due_timers :: "kernel \<Rightarrow> kernel res" where
  "run_due_timers k =
     (if int (jiffies k) \<ge> next_timeout k \<and> next_timeout k \<noteq> TIMER_UNSET
      then bind_res (expire_sys_timers (timer_list k) k) (\<lambda>k. Inr (k\<lparr>next_timeout := next_timer k\<rparr>))
      else Inr k)"

text \<open>The process \<open>None\<close> is the idle process, which is not in the table.\<close>

definition clock_handler :: "kernel \<Rightarrow> kernel res" where
  "clock_handler k =
     (let k = k\<lparr>jiffies := if jiffies k + 1 \<ge> MAX_TICKS then 0 else jiffies k + 1\<rparr>;
          k = (case proc_ptr k of
                 None \<Rightarrow> k\<lparr>idle_ticks := idle_ticks k + 1\<rparr>
               | Some p \<Rightarrow> upd_proc p (user_time_update (\<lambda>t. t + 1)) k)
      in bind_res (run_due_timers k) (\<lambda>k.
           Inr (case proc_ptr k of None \<Rightarrow> k | Some p \<Rightarrow> sched_clock p k)))"

text \<open>\<open>stop_context\<close>, given how many nanoseconds the process ran.\<close>

definition stop_context :: "u64 \<Rightarrow> nat \<Rightarrow> kernel \<Rightarrow> kernel" where
  "stop_context nsec p k =
     (if endpoint (proc_table k p) \<ge> 0
      then upd_proc p (counter_ns_update (\<lambda>c. if nsec < c then c - nsec else 0)) k
      else k)"

section \<open>Well-formed timers\<close>

definition timers_ok :: "kernel \<Rightarrow> bool" where
  "timers_ok k \<longleftrightarrow> distinct (timer_list k) \<and> sorted (map (timer_key k) (timer_list k)) \<and>
     (\<forall>i. i \<in> set (timer_list k) \<longleftrightarrow> timer_key k i \<noteq> TIMER_UNSET) \<and> next_timeout k = next_timer k"

text \<open>The clock task is in its slot, and a process has heard from it.\<close>

definition clock_task :: "kernel \<Rightarrow> bool" where
  "clock_task k \<longleftrightarrow> endpoint (proc_table k 0) = CLOCK \<and> state (proc_table k 0) \<noteq> PST_FREE_SLOT"

definition rang :: "kernel \<Rightarrow> nat \<Rightarrow> bool" where
  "rang k d \<longleftrightarrow>
     (\<exists>i j. priv_ix (proc_table k d) = Some i \<and> priv_ix (proc_table k 0) = Some j \<and> GET_BIT (notify_pending (priv_table k i)) j) \<or>
     (has_flag (flags (proc_table k d)) PF_DELIVER_MSG \<and> source (deliver_msg (proc_table k d)) = CLOCK \<and>
        mtype (deliver_msg (proc_table k d)) = NOTIFY_MSG)"

text \<open>What a notification leaves alone.\<close>

definition clock_view :: "kernel \<Rightarrow> _" where
  "clock_view k = (jiffies k, timer_list k, next_timeout k, proc_ptr k, timer_key k, \<lambda>i. timer_arg (priv_table k i),
     \<lambda>q. priv_ix (proc_table k q))"

lemma clock_notify:
  assumes ok: "kernel_ok k cur" and c: "clock_task k"
  shows "\<exists>r k'. msg_notify k 0 e = Inr (r, k') \<and> kernel_ok k' cur \<and> same_procs k k' \<and> clock_view k' = clock_view k \<and>
    (\<forall>d. rang k d \<or> endpt_proc k e = Some d \<longrightarrow> rang k' d)"
proof (cases "endpt_proc k e")
  case None
  then show ?thesis using ok by (simp add: msg_notify_def)
next
  case (Some d)
  have live: "live k 0" using c by (simp add: clock_task_def live_def)
  have ep: "endpoint (proc_table k 0) = CLOCK" using c by (simp add: clock_task_def)
  show ?thesis
  proof (cases "is_waiting_for k d CLOCK")
    case True
    define m where "m = reset_msg\<lparr>source := CLOCK, mtype := NOTIFY_MSG, body := TIMESTAMP (jiffies k)\<rparr>"
    have nf: "state (proc_table k d) \<noteq> PST_FREE_SLOT" using waiting_not_free [OF True] .
    have "msg_notify k 0 e = Inr (0, deliver_to d m k)"
      using True Some by (simp add: msg_notify_def set_notify_msg_def ep m_def)
    moreover have "rang k d' \<or> d' = d \<Longrightarrow> rang (deliver_to d m k) d'" for d'
      by (auto simp: rang_def deliver_to_table m_def flag_simps)
    moreover have "clock_view (deliver_to d m k) = clock_view k"
      by (auto simp: clock_view_def deliver_to_table timer_key_def)
    ultimately show ?thesis
      using Some kernel_ok_deliver [OF ok nf] deliver_to_same [OF kernel_okD(6) [OF ok] nf] by auto
  next
    case False
    note P = kernel_okD(2) [OF ok]
    obtain i where i: "i < NR_PRIV_PROCS" "priv_of k d = Inr i" "priv_ix (proc_table k d) = Some i"
      using privs_okE [OF P endpt_proc_live [OF Some]] by metis
    obtain j where j: "j < NR_PRIV_PROCS" "priv_of k 0 = Inr j" "priv_ix (proc_table k 0) = Some j" "pr_id (priv_table k j) = j" "has_owner k j"
      using privs_okE [OF P live] by metis
    define k' where "k' = upd_priv i (notify_pending_update (\<lambda>m. SET_BIT m j)) k"
    have len: "length (notify_pending (priv_table k i)) = 1" using pending_bits(1) [OF P i(1)] .
    have bit: "GET_BIT (SET_BIT (notify_pending (priv_table k i)) j) x \<longleftrightarrow> x = j \<or> GET_BIT (notify_pending (priv_table k i)) x" for x
      by (rule bm.member_insert) (use len j(1) in simp)
    have "kernel_ok k' cur" unfolding k'_def
      by (rule kernel_ok_upd_priv [OF ok]) (use j(5) in \<open>auto simp: length_SET_BIT bit\<close>)
    moreover have "msg_notify k 0 e = Inr (0, k')"
      using False Some i j ep by (simp add: msg_notify_def k'_def)
    moreover have "rang k d' \<or> d' = d \<Longrightarrow> rang k' d'" for d'
      using i(3) j(3) bit by (auto simp: rang_def k'_def)
    moreover have "clock_view k' = clock_view k" "same_procs k k'"
      by (auto simp: clock_view_def timer_key_def k'_def same_procs_def)
    ultimately show ?thesis using Some by auto
  qed
qed

lemma cancel_facts:
  assumes "timer_key k i \<noteq> TIMER_UNSET"
  shows "timer_list (cancel_sys_timer i k) = remove1 i (timer_list k)" "timer_key (cancel_sys_timer i k) = (timer_key k)(i := TIMER_UNSET)"
  using assms by (auto simp: cancel_sys_timer_def timer_key_def)

lemma cancel_frame:
  "proc_table (cancel_sys_timer i k) = proc_table k" "jiffies (cancel_sys_timer i k) = jiffies k"
  "proc_ptr (cancel_sys_timer i k) = proc_ptr k" "next_timeout (cancel_sys_timer i k) = next_timeout k"
  "timer_arg (priv_table (cancel_sys_timer i k) j) = timer_arg (priv_table k j)"
  "rang (cancel_sys_timer i k) d = rang k d" "clock_task (cancel_sys_timer i k) = clock_task k"
  by (auto simp: cancel_sys_timer_def rang_def clock_task_def)

lemma kernel_ok_timers: "kernel_ok k cur \<Longrightarrow> kernel_ok (k\<lparr>timer_list := xs\<rparr>) cur" "kernel_ok k cur \<Longrightarrow> kernel_ok (k\<lparr>next_timeout := t\<rparr>) cur"
  "kernel_ok k cur \<Longrightarrow> kernel_ok (k\<lparr>jiffies := j\<rparr>) cur" "kernel_ok k cur \<Longrightarrow> kernel_ok (k\<lparr>idle_ticks := j\<rparr>) cur"
  by (erule kernel_ok_cong; simp)+

lemma kernel_ok_cancel: "kernel_ok k cur \<Longrightarrow> kernel_ok (cancel_sys_timer i k) cur"
  unfolding cancel_sys_timer_def
  by (simp, intro impI, rule kernel_ok_upd_priv [OF kernel_ok_timers(1)]) auto

lemma remove1_filter: "distinct xs \<Longrightarrow> remove1 i xs = filter (\<lambda>x. x \<noteq> i) xs"
  by (simp add: distinct_remove1_removeAll removeAll_filter_not_eq eq_commute)

definition due :: "kernel \<Rightarrow> nat \<Rightarrow> bool" where
  "due k i \<longleftrightarrow> timer_key k i \<le> int (jiffies k)"

definition timer_args :: "kernel \<Rightarrow> nat \<Rightarrow> endpoint" where
  "timer_args k i = timer_arg (priv_table k i)"

lemma expire_sys_timers_ok:
  assumes "kernel_ok k cur" and "clock_task k" and "distinct is" and "\<forall>i \<in> set is. timer_key k i \<noteq> TIMER_UNSET"
    and "distinct (timer_list k)"
  shows "\<exists>k'. expire_sys_timers is k = Inr k' \<and> kernel_ok k' cur \<and> same_procs k k' \<and>
    jiffies k' = jiffies k \<and> proc_ptr k' = proc_ptr k \<and> next_timeout k' = next_timeout k \<and> timer_args k' = timer_args k \<and>
    timer_list k' = filter (\<lambda>i. \<not> (i \<in> set is \<and> due k i)) (timer_list k) \<and>
    timer_key k' = (\<lambda>i. if i \<in> set is \<and> due k i then TIMER_UNSET else timer_key k i) \<and>
    (\<forall>d. rang k d \<or> (\<exists>i \<in> set is. due k i \<and> endpt_proc k (timer_arg (priv_table k i)) = Some d) \<longrightarrow> rang k' d)"
  using assms
proof (induction "is" arbitrary: k)
  case Nil
  then show ?case by simp
next
  case (Cons i "is")
  show ?case
  proof (cases "due k i")
    case False
    from Cons.IH [of k] Cons.prems obtain k' where
      "expire_sys_timers is k = Inr k'" "kernel_ok k' cur" "same_procs k k'"
      "jiffies k' = jiffies k" "proc_ptr k' = proc_ptr k" "next_timeout k' = next_timeout k" "timer_args k' = timer_args k"
      "timer_list k' = filter (\<lambda>i. \<not> (i \<in> set is \<and> due k i)) (timer_list k)"
      "timer_key k' = (\<lambda>i. if i \<in> set is \<and> due k i then TIMER_UNSET else timer_key k i)"
      "\<forall>d. rang k d \<or> (\<exists>i \<in> set is. due k i \<and> endpt_proc k (timer_arg (priv_table k i)) = Some d) \<longrightarrow> rang k' d" by auto
    with False show ?thesis
      by (intro exI [of _ k']) (auto simp: due_def fun_eq_iff intro!: filter_cong)
  next
    case True
    define k1 where "k1 = cancel_sys_timer i k"
    have u: "timer_key k i \<noteq> TIMER_UNSET" using Cons.prems(4) by simp
    have ok1: "kernel_ok k1 cur" "clock_task k1" using Cons.prems(1,2) by (simp_all add: k1_def kernel_ok_cancel cancel_frame)
    obtain r k2 where k2: "msg_notify k1 0 (timer_arg (priv_table k1 i)) = Inr (r, k2)" "kernel_ok k2 cur" "same_procs k1 k2"
        "clock_view k2 = clock_view k1" "\<forall>d. rang k1 d \<or> endpt_proc k1 (timer_arg (priv_table k1 i)) = Some d \<longrightarrow> rang k2 d"
      using clock_notify [OF ok1] by blast
    have v: "jiffies k2 = jiffies k" "timer_list k2 = remove1 i (timer_list k)" "next_timeout k2 = next_timeout k" "proc_ptr k2 = proc_ptr k"
        "timer_key k2 = (timer_key k)(i := TIMER_UNSET)" "timer_arg (priv_table k2 x) = timer_arg (priv_table k x)" for x
      using k2(4) by (auto simp: clock_view_def k1_def cancel_frame cancel_facts [OF u] fun_eq_iff)
    have sp: "same_procs k k2" using k2(3) by (simp add: same_procs_def k1_def cancel_frame)
    have c2: "clock_task k2" using sp Cons.prems(2) by (simp add: clock_task_def same_procs_def)
    have d2: "due k2 x = due k x" if "x \<in> set is" for x using that Cons.prems(3) by (auto simp: due_def v)
    have un: "\<forall>x \<in> set is. timer_key k2 x \<noteq> TIMER_UNSET" using Cons.prems(3,4) by (auto simp: v)
    have ds: "distinct (timer_list k2)" using Cons.prems(5) by (simp add: v distinct_remove1)
    from Cons.IH [OF k2(2) c2 _ un ds] Cons.prems(3) obtain k' where k':
      "expire_sys_timers is k2 = Inr k'" "kernel_ok k' cur" "same_procs k2 k'"
      "jiffies k' = jiffies k2" "proc_ptr k' = proc_ptr k2" "next_timeout k' = next_timeout k2" "timer_args k' = timer_args k2"
      "timer_list k' = filter (\<lambda>i. \<not> (i \<in> set is \<and> due k2 i)) (timer_list k2)"
      "timer_key k' = (\<lambda>i. if i \<in> set is \<and> due k2 i then TIMER_UNSET else timer_key k2 i)"
      "\<forall>d. rang k2 d \<or> (\<exists>i \<in> set is. due k2 i \<and> endpt_proc k2 (timer_arg (priv_table k2 i)) = Some d) \<longrightarrow> rang k' d" by auto
    have run: "expire_sys_timers (i # is) k = Inr k'"
      using True k2(1) k'(1) by (simp add: due_def sig_alarm_def k1_def [symmetric] proc_addr_def proc_slot_def)
    have tl: "timer_list k' = filter (\<lambda>x. \<not> (x \<in> set (i # is) \<and> due k x)) (timer_list k)"
      using k'(8) v(2) remove1_filter [OF Cons.prems(5)] d2 True by (auto intro!: filter_cong)
    have tk: "timer_key k' = (\<lambda>x. if x \<in> set (i # is) \<and> due k x then TIMER_UNSET else timer_key k x)"
      using k'(9) v(5) d2 True Cons.prems(3) by (auto simp: fun_eq_iff)
    have ep: "endpt_proc k1 e = endpt_proc k e" "endpt_proc k2 e = endpt_proc k e" for e
      using endpt_proc_cong [OF sp] endpt_proc_cong [of k k1 e] by (simp_all add: same_procs_def k1_def cancel_frame)
    have rg: "rang k' d" if "rang k d \<or> (\<exists>x \<in> set (i # is). due k x \<and> endpt_proc k (timer_arg (priv_table k x)) = Some d)" for d
    proof -
      have "rang k2 d \<or> (\<exists>x \<in> set is. due k2 x \<and> endpt_proc k2 (timer_arg (priv_table k2 x)) = Some d)"
        using that k2(5) d2 by (auto simp: k1_def cancel_frame ep [unfolded k1_def] v)
      then show ?thesis using k'(10) by blast
    qed
    have args: "timer_args k2 = timer_args k" using v(6) by (auto simp: timer_args_def)
    show ?thesis
      using run k'(2,4,5,6,7) same_procs_trans [OF sp k'(3)] v(1,3,4) args tl tk rg by (intro exI [of _ k']) simp
  qed
qed

definition tick :: "nat \<Rightarrow> nat" where
  "tick j = (if j + 1 \<ge> MAX_TICKS then 0 else j + 1)"

lemma kernel_ok_clock_fields:
  "kernel_ok k cur \<Longrightarrow> kernel_ok (upd_proc p (user_time_update f) k) cur" "kernel_ok k cur \<Longrightarrow> kernel_ok (sched_clock p k) cur"
  unfolding sched_clock_def
  by (erule kernel_ok_upd_proc; simp add: ipc_view_def proc_queue_def sched_wf_def)+

lemma timer_key_cong: "priv_table k' = priv_table k \<Longrightarrow> timer_key k' = timer_key k"
  by (auto simp: timer_key_def)

lemma timers_ok_cong:
  "timer_list k' = timer_list k \<Longrightarrow> priv_table k' = priv_table k \<Longrightarrow> next_timeout k' = next_timeout k \<Longrightarrow> timers_ok k' = timers_ok k"
  using timer_key_cong [of k' k] by (cases "timer_list k") (simp_all add: timers_ok_def next_timer_def)

lemma timers_ok_next:
  assumes "distinct (timer_list k)" and "sorted (map (timer_key k) (timer_list k))"
    and "\<And>i. i \<in> set (timer_list k) \<longleftrightarrow> timer_key k i \<noteq> TIMER_UNSET"
  shows "timers_ok (k\<lparr>next_timeout := next_timer k\<rparr>)"
proof -
  let ?k = "k\<lparr>next_timeout := next_timer k\<rparr>"
  have key: "timer_key ?k = timer_key k" by (rule timer_key_cong) simp
  then have "next_timer ?k = next_timer k" by (cases "timer_list k") (simp_all add: next_timer_def)
  with key show ?thesis using assms by (simp add: timers_ok_def)
qed

lemma sched_clock_frame:
  "priv_table (sched_clock p k) = priv_table k" "timer_list (sched_clock p k) = timer_list k" "next_timeout (sched_clock p k) = next_timeout k"
  "jiffies (sched_clock p k) = jiffies k" "rang (sched_clock p k) d = rang k d" "same_procs k' (sched_clock p k) = same_procs k' k"
  by (auto simp: sched_clock_def rang_def same_procs_def)

lemma next_timer_least:
  assumes "timers_ok k" and "i \<in> set (timer_list k)"
  shows "next_timeout k \<noteq> TIMER_UNSET \<and> next_timeout k \<le> timer_key k i"
proof -
  obtain a xs where l: "timer_list k = a # xs" using assms(2) by (cases "timer_list k") auto
  then have "a \<in> set (timer_list k)" by simp
  then have "timer_key k a \<noteq> TIMER_UNSET" using assms(1) unfolding timers_ok_def by blast
  moreover have "next_timeout k = timer_key k a" using assms(1) l by (simp add: timers_ok_def next_timer_def)
  moreover have "sorted (map (timer_key k) (timer_list k))" using assms(1) by (simp add: timers_ok_def)
  then have "timer_key k a \<le> timer_key k i" using assms(2) l by auto
  ultimately show ?thesis by simp
qed

lemma run_due_timers_ok:
  assumes ok: "kernel_ok k cur" and c: "clock_task k" and t: "timers_ok k"
  shows "\<exists>k'. run_due_timers k = Inr k' \<and> kernel_ok k' cur \<and> same_procs k k' \<and> timers_ok k' \<and> jiffies k' = jiffies k \<and>
    proc_ptr k' = proc_ptr k \<and> timer_args k' = timer_args k \<and> timer_list k' = filter (\<lambda>i. \<not> due k i) (timer_list k) \<and>
    (\<forall>i \<in> set (timer_list k'). timer_key k' i = timer_key k i) \<and>
    (\<forall>d. rang k d \<or> (\<exists>i \<in> set (timer_list k). due k i \<and> endpt_proc k (timer_arg (priv_table k i)) = Some d) \<longrightarrow> rang k' d)"
proof -
  have T: "distinct (timer_list k)" "sorted (map (timer_key k) (timer_list k))" "\<And>i. i \<in> set (timer_list k) \<longleftrightarrow> timer_key k i \<noteq> TIMER_UNSET"
    using t by (auto simp: timers_ok_def)
  show ?thesis
  proof (cases "int (jiffies k) \<ge> next_timeout k \<and> next_timeout k \<noteq> TIMER_UNSET")
    case False
    then have late: "\<not> due k i" if "i \<in> set (timer_list k)" for i
      using next_timer_least [OF t that] by (auto simp: due_def)
    have "filter (\<lambda>i. \<not> due k i) (timer_list k) = timer_list k" using late by simp
    with False late ok t show ?thesis by (auto simp: run_due_timers_def)
  next
    case True
    have "\<forall>i \<in> set (timer_list k). timer_key k i \<noteq> TIMER_UNSET" using T by simp
    from expire_sys_timers_ok [OF ok c T(1) this T(1)] obtain k' where k':
      "expire_sys_timers (timer_list k) k = Inr k'" "kernel_ok k' cur" "same_procs k k'" "jiffies k' = jiffies k" "proc_ptr k' = proc_ptr k" "timer_args k' = timer_args k"
      "timer_list k' = filter (\<lambda>i. \<not> (i \<in> set (timer_list k) \<and> due k i)) (timer_list k)"
      "timer_key k' = (\<lambda>i. if i \<in> set (timer_list k) \<and> due k i then TIMER_UNSET else timer_key k i)"
      "\<forall>d. rang k d \<or> (\<exists>i \<in> set (timer_list k). due k i \<and> endpt_proc k (timer_arg (priv_table k i)) = Some d) \<longrightarrow> rang k' d"
      by auto
    have tl: "timer_list k' = filter (\<lambda>i. \<not> due k i) (timer_list k)"
      unfolding k'(7) by (rule filter_cong) auto
    have keep: "\<forall>i \<in> set (timer_list k'). timer_key k' i = timer_key k i" by (auto simp: tl k'(8))
    then have "map (timer_key k') (timer_list k') = map (timer_key k) (filter (\<lambda>i. \<not> due k i) (timer_list k))"
      unfolding tl by (intro map_cong refl) simp
    then have "sorted (map (timer_key k') (timer_list k'))" using sorted_filter [OF T(2)] by simp
    moreover have "i \<in> set (timer_list k') \<longleftrightarrow> timer_key k' i \<noteq> TIMER_UNSET" for i using T(3) by (auto simp: tl k'(8))
    ultimately have "timers_ok (k'\<lparr>next_timeout := next_timer k'\<rparr>)"
      using T(1) tl by (intro timers_ok_next) simp_all
    moreover have "rang (k'\<lparr>next_timeout := next_timer k'\<rparr>) d = rang k' d" for d by (simp add: rang_def)
    moreover have "timer_key (k'\<lparr>next_timeout := next_timer k'\<rparr>) = timer_key k'" by (rule timer_key_cong) simp
    moreover have "timer_args (k'\<lparr>next_timeout := next_timer k'\<rparr>) = timer_args k'" by (auto simp: timer_args_def)
    moreover have "same_procs k (k'\<lparr>next_timeout := next_timer k'\<rparr>)" using k'(3) by (simp add: same_procs_def)
    ultimately show ?thesis
      using True k'(1,4,5,6,9) keep tl kernel_ok_timers(2) [OF k'(2)]
      by (intro exI [of _ "k'\<lparr>next_timeout := next_timer k'\<rparr>"]) (simp add: run_due_timers_def)
  qed
qed

text \<open>One tick of the clock.\<close>

lemma clock_tick_ok:
  assumes ok: "kernel_ok k cur" and c: "clock_task k" and t: "timers_ok k"
  shows "\<exists>k'. clock_handler k = Inr k' \<and> kernel_ok k' cur \<and> same_procs k k' \<and> timers_ok k' \<and> jiffies k' = tick (jiffies k) \<and> timer_args k' = timer_args k \<and>
    timer_list k' = filter (\<lambda>i. timer_key k i > int (tick (jiffies k))) (timer_list k) \<and>
    (\<forall>i \<in> set (timer_list k'). timer_key k' i = timer_key k i) \<and>
    (\<forall>d. rang k d \<or> (\<exists>i \<in> set (timer_list k). timer_key k i \<le> int (tick (jiffies k)) \<and>
       endpt_proc k (timer_arg (priv_table k i)) = Some d) \<longrightarrow> rang k' d)"
proof -
  let ?now = "tick (jiffies k)"
  define k1 where "k1 = (case proc_ptr k of None \<Rightarrow> k\<lparr>jiffies := ?now, idle_ticks := idle_ticks k + 1\<rparr>
     | Some p \<Rightarrow> upd_proc p (user_time_update (\<lambda>t. t + 1)) (k\<lparr>jiffies := ?now\<rparr>))"
  have k1: "jiffies k1 = ?now" "timer_list k1 = timer_list k" "next_timeout k1 = next_timeout k" "priv_table k1 = priv_table k"
      "same_procs k k1" "rang k1 d = rang k d" for d
    by (auto simp: k1_def same_procs_def rang_def split: option.split)
  have key1: "timer_key k1 = timer_key k" "due k1 i \<longleftrightarrow> timer_key k i \<le> int ?now" for i
    by (auto simp: timer_key_def [abs_def] k1 due_def)
  have ok1: "kernel_ok k1 cur"
    using kernel_ok_timers(3) [OF ok, of ?now] kernel_ok_timers(4) [OF kernel_ok_timers(3) [OF ok]]
    by (auto simp: k1_def kernel_ok_clock_fields split: option.split)
  have a1: "timer_args k1 = timer_args k" by (auto simp: timer_args_def k1)
  have c1: "clock_task k1" using c k1(5) by (simp add: clock_task_def same_procs_def)
  have t1: "timers_ok k1" using t timers_ok_cong [of k1 k] k1 by simp
  have ep: "endpt_proc k1 e = endpt_proc k e" for e by (rule endpt_proc_cong [OF k1(5)])
  obtain k2 where k2: "run_due_timers k1 = Inr k2" "kernel_ok k2 cur" "same_procs k1 k2" "timers_ok k2" "jiffies k2 = ?now" "timer_args k2 = timer_args k"
      "timer_list k2 = filter (\<lambda>i. timer_key k i > int ?now) (timer_list k)"
      "\<forall>i \<in> set (timer_list k2). timer_key k2 i = timer_key k i"
      "\<forall>d. rang k d \<or> (\<exists>i \<in> set (timer_list k). timer_key k i \<le> int ?now \<and> endpt_proc k (timer_arg (priv_table k i)) = Some d) \<longrightarrow> rang k2 d"
    using run_due_timers_ok [OF ok1 c1 t1] by (auto simp: k1 key1 a1 ep not_le)
  define k3 where "k3 = (case proc_ptr k2 of None \<Rightarrow> k2 | Some p \<Rightarrow> sched_clock p k2)"
  have "clock_handler k = Inr k3"
    using k2(1) by (auto simp: clock_handler_def Let_def k1_def tick_def k3_def split: option.splits)
  moreover have "kernel_ok k3 cur" "same_procs k k3" "timers_ok k3" "jiffies k3 = ?now" "timer_list k3 = timer_list k2"
      "timer_key k3 = timer_key k2" "timer_args k3 = timer_args k2" "rang k3 d = rang k2 d" for d
    using k2 same_procs_trans [OF k1(5) k2(3)]
    by (auto simp: k3_def sched_clock_frame kernel_ok_clock_fields timer_key_def timer_args_def fun_eq_iff timers_ok_cong [of "sched_clock _ k2" k2] split: option.split)
  ultimately show ?thesis using k2(6-) by auto
qed

lemma sys_alarm_ok:
  assumes ok: "kernel_ok k cur" and t: "timers_ok k" and i: "priv_ix (proc_table k p) = Some i" "has_flag (prflags (priv_table k i)) PRF_PRIV_PROC"
    and e: "e \<noteq> 0" and v: "v = (if absolute then e else (int (jiffies k) + e) mod 2 ^ 64)" "v \<noteq> TIMER_UNSET"
  shows "\<exists>left k'. sys_alarm k e absolute p = Inr (0, left, k') \<and> kernel_ok k' cur \<and> timers_ok k' \<and> proc_table k' = proc_table k \<and>
    jiffies k' = jiffies k \<and> timer_key k' = (timer_key k)(i := v) \<and> timer_args k' = (timer_args k)(i := endpoint (proc_table k p)) \<and>
    left = (if i \<in> set (timer_list k) \<and> \<not> due k i then timer_key k i - int (jiffies k) else 0)"
proof -
  have T: "distinct (timer_list k)" "sorted (map (timer_key k) (timer_list k))" "\<And>i. i \<in> set (timer_list k) \<longleftrightarrow> timer_key k i \<noteq> TIMER_UNSET"
    using t by (auto simp: timers_ok_def)
  define k1 where "k1 = upd_priv i (timer_arg_update (\<lambda>_. endpoint (proc_table k p))) k"
  define k2 where "k2 = upd_priv i (expire_time_update (\<lambda>_. v)) k1"
  define xs where "xs = insert_timer (timer_key k2) i (remove1 i (timer_list k))"
  define k3 where "k3 = k2\<lparr>timer_list := xs\<rparr>"
  have k1: "timer_key k1 = timer_key k" "jiffies k1 = jiffies k" by (auto simp: k1_def timer_key_def)
  have key: "timer_key k2 = (timer_key k)(i := v)" "timer_key k3 = timer_key k2" "timer_args k3 = (timer_args k)(i := endpoint (proc_table k p))"
    by (auto simp: k3_def k2_def k1_def timer_key_def timer_args_def)
  have ok3: "kernel_ok k3 cur" unfolding k3_def k2_def k1_def
    by (intro kernel_ok_timers(1) kernel_ok_upd_priv ok) auto
  have rm: "remove1 i (timer_list k) = filter (\<lambda>x. x \<noteq> i) (timer_list k)" by (rule remove1_filter [OF T(1)])
  have "map (timer_key k2) (remove1 i (timer_list k)) = map (timer_key k) (remove1 i (timer_list k))"
    unfolding rm key by (intro map_cong refl) auto
  then have "sorted (map (timer_key k2) (remove1 i (timer_list k)))" using sorted_filter [OF T(2)] by (simp only: rm)
  then have "sorted (map (timer_key k2) xs)" unfolding xs_def by (rule sorted_insert_timer)
  moreover have tl3: "timer_list k3 = xs" by (simp add: k3_def)
  ultimately have "sorted (map (timer_key k3) (timer_list k3))" by (simp only: key(2))
  moreover have "distinct (timer_list k3)" using T(1) rm by (simp add: k3_def xs_def distinct_insert_timer)
  moreover have "x \<in> set (timer_list k3) \<longleftrightarrow> timer_key k3 x \<noteq> TIMER_UNSET" for x
    unfolding tl3 key(2) key(1) xs_def set_insert_timer rm using T(3) v(2) by auto
  ultimately have ok4: "timers_ok (k3\<lparr>next_timeout := next_timer k3\<rparr>)" by (intro timers_ok_next)
  have "set_sys_timer i k2 = k3\<lparr>next_timeout := next_timer k3\<rparr>"
    using v(2) timer_key_cong [of "k2\<lparr>timer_list := remove1 i (timer_list k2)\<rparr>" k2]
    by (simp add: set_sys_timer_def Let_def key(1) k3_def xs_def) (simp add: k2_def k1_def)
  then have run: "sys_alarm k e absolute p = Inr (0, if i \<in> set (timer_list k) \<and> \<not> due k i then timer_key k i - int (jiffies k) else 0,
      k3\<lparr>next_timeout := next_timer k3\<rparr>)"
    using i e T(3) k1 by (cases absolute) (simp_all add: sys_alarm_def priv_of_def Let_def k1_def [symmetric] k2_def due_def not_le v(1))
  have k4: "timer_key (k3\<lparr>next_timeout := next_timer k3\<rparr>) = timer_key k3" "timer_args (k3\<lparr>next_timeout := next_timer k3\<rparr>) = timer_args k3"
    by (auto simp: timer_key_def timer_args_def)
  show ?thesis
    using run kernel_ok_timers(2) [OF ok3] ok4 key k4 by (simp add: k3_def k2_def k1_def)
qed

text \<open>The clock ticks \<open>n\<close> times.\<close>

primrec clock_ticks :: "nat \<Rightarrow> kernel \<Rightarrow> kernel res" where
  "clock_ticks 0 k = Inr k"
| "clock_ticks (Suc n) k = bind_res (clock_handler k) (clock_ticks n)"

lemma rings_after:
  assumes "kernel_ok k cur" and "clock_task k" and "timers_ok k" and "i \<in> set (timer_list k)" and "timer_key k i = int (jiffies k + n)"
    and "0 < n" and "jiffies k + n < MAX_TICKS" and "endpt_proc k (timer_args k i) = Some p"
  shows "\<exists>k'. clock_ticks n k = Inr k' \<and> kernel_ok k' cur \<and> timers_ok k' \<and> rang k' p \<and> i \<notin> set (timer_list k')"
  using assms
proof (induction n arbitrary: k)
  case (Suc n)
  have now: "tick (jiffies k) = jiffies k + 1" using Suc.prems(7) by (simp add: tick_def)
  obtain k1 where k1: "clock_handler k = Inr k1" "kernel_ok k1 cur" "same_procs k k1" "timers_ok k1" "jiffies k1 = jiffies k + 1"
      "timer_args k1 = timer_args k" "timer_list k1 = filter (\<lambda>i. timer_key k i > int (jiffies k + 1)) (timer_list k)"
      "\<forall>i \<in> set (timer_list k1). timer_key k1 i = timer_key k i"
      "\<forall>d. rang k d \<or> (\<exists>i \<in> set (timer_list k). timer_key k i \<le> int (jiffies k + 1) \<and> endpt_proc k (timer_args k i) = Some d) \<longrightarrow> rang k1 d"
    using clock_tick_ok [OF Suc.prems(1-3)] unfolding now timer_args_def by metis
  show ?case
  proof (cases "n = 0")
    case True
    have "timer_key k i \<le> int (jiffies k + 1)" using True Suc.prems(5) by simp
    then have "rang k1 p" using k1(9) Suc.prems(4,8) by blast
    with True k1 Suc.prems(5) show ?thesis by simp
  next
    case False
    have "clock_task k1" "endpt_proc k1 (timer_args k1 i) = Some p"
      using Suc.prems(2,8) k1(3,6) endpt_proc_cong [OF k1(3)] by (simp_all add: clock_task_def same_procs_def)
    moreover have "i \<in> set (timer_list k1)" using k1(7) Suc.prems(4,5) False by simp
    ultimately show ?thesis using Suc.IH [OF k1(2) _ k1(4)] k1(1,5,8) Suc.prems(5,7) False by simp
  qed
qed simp

lemma never_rings:
  assumes "kernel_ok k cur" and "clock_task k" and "timers_ok k" and "i \<in> set (timer_list k)" and "timer_key k i \<ge> int MAX_TICKS"
  shows "\<exists>k'. clock_ticks n k = Inr k' \<and> i \<in> set (timer_list k')"
  using assms
proof (induction n arbitrary: k)
  case (Suc n)
  obtain k1 where k1: "clock_handler k = Inr k1" "kernel_ok k1 cur" "same_procs k k1" "timers_ok k1"
      "timer_list k1 = filter (\<lambda>i. timer_key k i > int (tick (jiffies k))) (timer_list k)"
      "\<forall>i \<in> set (timer_list k1). timer_key k1 i = timer_key k i"
    using clock_tick_ok [OF Suc.prems(1-3)] by blast
  have "clock_task k1" using Suc.prems(2) k1(3) by (simp add: clock_task_def same_procs_def)
  moreover have "int (tick (jiffies k)) < int MAX_TICKS" by (simp add: tick_def)
  then have "i \<in> set (timer_list k1)" using k1(5) Suc.prems(4,5) by simp
  ultimately show ?case using Suc.IH [OF k1(2) _ k1(4)] k1(1,6) Suc.prems(5) by simp
qed simp

section \<open>Properties\<close>

text \<open>
  C19: A privileged process that asks for an alarm in \<open>n\<close> ticks is notified by the clock task after
  exactly that many ticks at the latest, whatever other timers are running; the timer is off then,
  and the kernel and its timers stay well formed.
\<close>

theorem alarm_rings:
  assumes ok: "kernel_ok k cur" "clock_task k" "timers_ok k" and p: "endpt_proc k (endpoint (proc_table k p)) = Some p"
    and i: "priv_ix (proc_table k p) = Some i" "has_flag (prflags (priv_table k i)) PRF_PRIV_PROC"
    and n: "0 < n" "jiffies k + n < MAX_TICKS"
  shows "\<exists>left k1 k2. sys_alarm k (int n) False p = Inr (0, left, k1) \<and> clock_ticks n k1 = Inr k2 \<and>
    rang k2 p \<and> i \<notin> set (timer_list k2) \<and> kernel_ok k2 cur \<and> timers_ok k2"
proof -
  have v: "int (jiffies k + n) = (if False then int n else (int (jiffies k) + int n) mod 2 ^ 64)" "int (jiffies k + n) \<noteq> TIMER_UNSET"
    using n by simp_all
  obtain left k1 where k1: "sys_alarm k (int n) False p = Inr (0, left, k1)" "kernel_ok k1 cur" "timers_ok k1" "proc_table k1 = proc_table k"
      "jiffies k1 = jiffies k" "timer_key k1 = (timer_key k)(i := int (jiffies k + n))"
      "timer_args k1 = (timer_args k)(i := endpoint (proc_table k p))"
    using sys_alarm_ok [OF ok(1,3) i _ v] n(1) by auto
  have sp: "same_procs k k1" by (simp add: same_procs_def k1(4))
  have "timer_key k1 i \<noteq> TIMER_UNSET" using v(2) by (simp add: k1(6))
  then have "i \<in> set (timer_list k1)" using k1(3) unfolding timers_ok_def by blast
  moreover have "clock_task k1" using ok(2) by (simp add: clock_task_def k1(4))
  moreover have "endpt_proc k1 (timer_args k1 i) = Some p" using p endpt_proc_cong [OF sp] by (simp add: k1(7))
  ultimately obtain k2 where "clock_ticks n k1 = Inr k2" "kernel_ok k2 cur" "timers_ok k2" "rang k2 p" "i \<notin> set (timer_list k2)"
    using rings_after [OF k1(2) _ k1(3), of i n p] n k1(5,6) by auto
  with k1(1) show ?thesis by blast
qed

text \<open>
  The tick counter starts again at \<open>MAX_TICKS\<close>, but expiry times do not: an alarm set so far ahead
  that its time is not below \<open>MAX_TICKS\<close> never goes off, however long the clock ticks.
\<close>

theorem late_alarm_never_rings:
  assumes ok: "kernel_ok k cur" "clock_task k" "timers_ok k"
    and i: "priv_ix (proc_table k p) = Some i" "has_flag (prflags (priv_table k i)) PRF_PRIV_PROC"
    and n: "0 < n" "MAX_TICKS \<le> jiffies k + n" "int (jiffies k + n) < TIMER_UNSET"
  shows "\<exists>left k1. sys_alarm k (int n) False p = Inr (0, left, k1) \<and> (\<forall>m. \<exists>k2. clock_ticks m k1 = Inr k2 \<and> i \<in> set (timer_list k2))"
proof -
  have v: "int (jiffies k + n) = (if False then int n else (int (jiffies k) + int n) mod 2 ^ 64)" "int (jiffies k + n) \<noteq> TIMER_UNSET"
    using n by simp_all
  obtain left k1 where k1: "sys_alarm k (int n) False p = Inr (0, left, k1)" "kernel_ok k1 cur" "timers_ok k1" "proc_table k1 = proc_table k"
      "timer_key k1 = (timer_key k)(i := int (jiffies k + n))"
    using sys_alarm_ok [OF ok(1,3) i _ v] n(1) by auto
  have "timer_key k1 i \<noteq> TIMER_UNSET" "timer_key k1 i \<ge> int MAX_TICKS" using v(2) n(2) by (simp_all add: k1(5))
  moreover from this have "i \<in> set (timer_list k1)" using k1(3) unfolding timers_ok_def by blast
  moreover have "clock_task k1" using ok(2) by (simp add: clock_task_def k1(4))
  ultimately show ?thesis using k1(1) never_rings [OF k1(2) _ k1(3)] by blast
qed

text \<open>Every process waits for a message; process 5 has its own privileges.\<close>

definition alarm_kernel :: kernel where
  "alarm_kernel = upd_priv 9 (prflags_update (\<lambda>_. PRF_PRIV_PROC)) (quiet (\<lambda>_. PST_RECEIVING))"

lemma alarm_kernel_ok: "kernel_ok alarm_kernel 0" "clock_task alarm_kernel" "timers_ok alarm_kernel"
  and alarm_kernel_facts: "endpt_proc alarm_kernel 5 = Some 9" "endpoint (proc_table alarm_kernel 9) = 5"
    "priv_ix (proc_table alarm_kernel 9) = Some 9" "has_flag (prflags (priv_table alarm_kernel 9)) PRF_PRIV_PROC" "jiffies alarm_kernel = 0"
proof -
  let ?q = "quiet (\<lambda>_. PST_RECEIVING)"
  have "kernel_ok ?q 0" by (rule quiet_ok) (auto simp: flag_simps)
  then show "kernel_ok alarm_kernel 0" unfolding alarm_kernel_def by (rule kernel_ok_upd_priv) auto
  show "clock_task alarm_kernel" by (simp add: clock_task_def alarm_kernel_def quiet_table)
  show "timers_ok alarm_kernel"
    by (auto simp: timers_ok_def next_timer_def timer_key_def alarm_kernel_def quiet_def blank_kernel_def blank_priv_def)
  have "endpt_proc alarm_kernel e = endpt_proc ?q e" for e
    by (rule endpt_proc_cong) (simp add: same_procs_def alarm_kernel_def)
  then show "endpt_proc alarm_kernel 5 = Some 9" using quiet_endpt [of 9 "\<lambda>_. PST_RECEIVING"] by simp
  show "endpoint (proc_table alarm_kernel 9) = 5" "priv_ix (proc_table alarm_kernel 9) = Some 9" "jiffies alarm_kernel = 0"
      "has_flag (prflags (priv_table alarm_kernel 9)) PRF_PRIV_PROC"
    by (simp_all add: alarm_kernel_def quiet_table quiet_priv_def flag_simps) (simp add: quiet_def blank_kernel_def)
qed

theorem alarm_rings_witness:
  "\<exists>left k1 k2. sys_alarm alarm_kernel 3 False 9 = Inr (0, left, k1) \<and> clock_ticks 3 k1 = Inr k2 \<and>
    rang k2 9 \<and> 9 \<notin> set (timer_list k2) \<and> kernel_ok k2 0 \<and> timers_ok k2"
  using alarm_rings [OF alarm_kernel_ok, of 9 9 3] alarm_kernel_facts by simp

theorem late_alarm_never_rings_witness:
  "\<exists>left k1. sys_alarm alarm_kernel (int 0x7FFFFFFF) False 9 = Inr (0, left, k1) \<and>
     (\<forall>m. \<exists>k2. clock_ticks m k1 = Inr k2 \<and> 9 \<in> set (timer_list k2))"
  using late_alarm_never_rings [OF alarm_kernel_ok alarm_kernel_facts(3,4), of "0x7FFFFFFF"] alarm_kernel_facts(5) by simp

end
