(* ===== verification/Ipc_Frame.thy ===== *)
theory Ipc_Frame
  imports Mm_Request
begin

text \<open>
  What message passing, signals and requests to the memory manager leave alone.  All of them change the
  kernel by a few kinds of updates only, so a property that those updates keep is kept by every operation.
  The run queues (\<open>Syscalls\<close>) and the identities of the processes (\<open>Kernel_Run\<close>) are two such properties.
\<close>

unbundle bit_operations_syntax

section \<open>The updates\<close>

text \<open>A process entry that keeps its identity, its state and its place in the run queues.\<close>

definition calm :: "proc \<Rightarrow> proc \<Rightarrow> bool" where
  "calm q r \<longleftrightarrow> endpoint q = endpoint r \<and> priv_ix q = priv_ix r \<and> state q = state r \<and>
     proc_queue q = proc_queue r \<and> sched_wf q = sched_wf r"

text \<open>A privilege structure that keeps its alarm and its flags.\<close>

definition calm_priv :: "priv \<Rightarrow> priv \<Rightarrow> bool" where
  "calm_priv v w \<longleftrightarrow> expire_time v = expire_time w \<and> timer_arg v = timer_arg w \<and> prflags v = prflags w"

lemmas calm_simps = calm_def calm_priv_def proc_queue_def sched_wf_def

locale kept_by_ipc =
  fixes P :: "kernel \<Rightarrow> bool"
  assumes kept_upd_proc: "P k \<Longrightarrow> (\<And>q. calm (f q) q) \<Longrightarrow> P (upd_proc p f k)"
    and kept_upd_priv: "P k \<Longrightarrow> (\<And>v. calm_priv (g v) v) \<Longrightarrow> P (upd_priv i g k)"
    and kept_SET: "P k \<Longrightarrow> s AND PST_FREE_SLOT = 0 \<Longrightarrow> P (PST_SET p s k)"
    and kept_UNSET: "P k \<Longrightarrow> s AND PST_FREE_SLOT = 0 \<Longrightarrow> P (PST_UNSET p s k)"
    and kept_umsg: "P k \<Longrightarrow> P (k\<lparr>umsg := u\<rparr>)"
    and kept_uasync: "P k \<Longrightarrow> P (k\<lparr>uasync := ua\<rparr>)"
    and kept_mmrequest: "P k \<Longrightarrow> P (k\<lparr>mmrequest := x\<rparr>)"
begin

lemmas kept_intros = kept_upd_proc kept_upd_priv kept_SET kept_UNSET kept_umsg kept_uasync kept_mmrequest

subsection \<open>Message passing\<close>

lemma kept_amsg_out: "amsg_out k ep x am = Some k' \<Longrightarrow> P k \<Longrightarrow> P k'"
  by (auto simp: amsg_out_def split: option.splits if_splits intro!: kept_intros)

lemma kept_deliver: "P k \<Longrightarrow> P (deliver_to d m k)"
  by (auto simp: calm_simps deliver_to_def Let_def intro!: kept_intros)

lemma kept_append: "append_sending s d k = Inr k' \<Longrightarrow> P k \<Longrightarrow> P k'"
  by (auto simp: calm_simps append_sending_def bind_res_Inr_conv split: option.splits intro!: kept_intros)

lemma kept_msg_send:
  assumes r: "msg_send k p dest m fl = Inr (r, k')" and a: "P k"
  shows "P k'"
proof (cases "endpt_proc k dest")
  case (Some d)
  let ?ep = "endpoint (proc_table k p)"
  define k1 where "k1 = upd_proc p (sendto_update (\<lambda>_. dest)) (PST_SET p PST_SENDING k)"
  have f1: "P k1" using a by (auto simp: calm_simps k1_def intro!: kept_intros)
  obtain dl where dl: "deadlock k ?ep dest = Inr dl" using r Some by (auto simp: msg_send_def bind_res_Inr_conv)
  consider "dl" | "\<not> dl" "is_waiting_for k d ?ep" | "\<not> dl" "\<not> is_waiting_for k d ?ep" "has_flag fl IPCF_NONBLOCK"
    | "\<not> dl" "\<not> is_waiting_for k d ?ep" "\<not> has_flag fl IPCF_NONBLOCK" by blast
  then show ?thesis
  proof cases
    case 4
    then show ?thesis
      using r f1 Some dl unfolding msg_send_def Let_def k1_def [symmetric]
      by (auto simp: calm_simps bind_res_Inr_conv split: option.splits intro!: kept_intros elim!: kept_append)
  qed (use r a Some dl in \<open>auto simp: msg_send_def split: option.splits if_splits intro: kept_deliver\<close>)
qed (use r a in \<open>simp add: msg_send_def\<close>)

lemma kept_set_notify: "set_notify_msg d src k = Inr (m, k') \<Longrightarrow> P k \<Longrightarrow> P k'"
  by (auto simp: calm_simps set_notify_msg_def Let_def bind_res_Inr_conv split: if_splits intro!: kept_intros)

lemma kept_msg_notify: "msg_notify k p dest = Inr (r, k') \<Longrightarrow> P k \<Longrightarrow> P k'"
  by (auto simp: calm_simps msg_notify_def bind_res_Inr_conv split: option.splits if_splits
      intro!: kept_deliver kept_intros elim!: kept_set_notify)

lemma kept_async_scan: "receive_async_scan n i p s si dn k = (r, d, k') \<Longrightarrow> P k \<Longrightarrow> P k'"
  by (induction n arbitrary: i dn k)
    (auto simp: Let_def split: option.splits if_splits intro!: kept_deliver elim!: kept_amsg_out)

lemma kept_async_from:
  assumes r: "receive_async_from p s k = Inr (r, k')" and a: "P k"
  shows "P k'"
proof -
  obtain si where si: "priv_of k s = Inr si" using r by (auto simp: receive_async_from_def bind_res_Inr_conv)
  show ?thesis
  proof (cases "has_flag (prflags (priv_table k si)) PRF_PRIV_PROC")
    case True
    then obtain pi where pi: "priv_of k p = Inr pi" using r si by (auto simp: receive_async_from_def bind_res_Inr_conv)
    let ?k = "upd_priv pi (async_pending_update (\<lambda>m. UNSET_BIT m (pr_id (priv_table k si)))) k"
    obtain rv d k1 where sc: "receive_async_scan (async_len (priv_table ?k si)) 0 p s si True ?k = (rv, d, k1)"
      using prod_cases3 by blast
    have "P ?k" using a by (rule kept_upd_priv) (simp add: calm_simps)
    from kept_async_scan [OF sc this] have "P k1" .
    then show ?thesis
      using r True si pi sc by (auto simp: calm_simps receive_async_from_def Let_def split: option.splits bool.splits intro!: kept_intros)
  qed (use r a si in \<open>simp add: receive_async_from_def\<close>)
qed

lemma kept_async_loop: "receive_async_loop n st p k = Inr (r, k') \<Longrightarrow> P k \<Longrightarrow> P k'"
proof (induction n arbitrary: st k)
  case (Suc n)
  from Suc.prems(1) obtain i where
    "(i \<ge> NR_PRIV_PROCS \<and> k' = k) \<or> receive_async_loop n (i + 1) p k = Inr (r, k') \<or>
      (\<exists>src rv k1. receive_async_from p src k = Inr (rv, k1) \<and> (k' = k1 \<or> receive_async_loop n (i + 1) p k1 = Inr (r, k')))"
    by (auto simp: bind_res_Inr_conv split: if_splits)
  then consider "k' = k" | "receive_async_loop n (i + 1) p k = Inr (r, k')"
    | src rv where "receive_async_from p src k = Inr (rv, k')"
    | src rv k1 where "receive_async_from p src k = Inr (rv, k1)" "receive_async_loop n (i + 1) p k1 = Inr (r, k')" by blast
  then show ?case
  proof cases
    case 4
    from Suc.IH [OF this(2) kept_async_from [OF this(1) Suc.prems(2)]] show ?thesis .
  next
    case 3
    from kept_async_from [OF this Suc.prems(2)] show ?thesis .
  next
    case 2
    from Suc.IH [OF this Suc.prems(2)] show ?thesis .
  qed (use Suc.prems(2) in simp)
qed simp

lemma kept_senda_entry: "msg_senda_entry p si x dn k = Inr (d, k') \<Longrightarrow> P k \<Longrightarrow> P k'"
  by (auto simp: calm_simps msg_senda_entry_def async_done_def Let_def bind_res_Inr_conv split: option.splits if_splits
      intro!: kept_deliver kept_intros elim!: kept_amsg_out)

lemma kept_senda_loop: "msg_senda_loop n p si x dn k = Inr (d, k') \<Longrightarrow> P k \<Longrightarrow> P k'"
  by (induction n arbitrary: x dn k) (auto simp: bind_res_Inr_conv dest: kept_senda_entry)

lemma kept_senda: "msg_senda k p t l = Inr (r, k') \<Longrightarrow> P k \<Longrightarrow> P k'"
  by (auto simp: calm_simps msg_senda_def Let_def bind_res_Inr_conv split: if_splits intro!: kept_intros elim!: kept_senda_loop)

lemma kept_take: "take_message w f pv m k = Inr k' \<Longrightarrow> P k \<Longrightarrow> P k'"
  by (auto simp: calm_simps take_message_def unlink_sending_def Let_def bind_res_Inr_conv split: option.splits if_splits intro!: kept_intros)

lemma kept_block: "P k \<Longrightarrow> P (block_receiving w src m fl k)"
  by (auto simp: calm_simps block_receiving_def intro!: kept_intros)

lemma kept_sync: "receive_sync w src m fl rv k = Inr (r, k') \<Longrightarrow> P k \<Longrightarrow> P k'"
  by (auto simp: receive_sync_def bind_res_Inr_conv split: option.splits if_splits prod.splits intro!: kept_block elim!: kept_take)

lemma kept_receive_notify: "receive_notify w i m k = Inr (r, k') \<Longrightarrow> P k \<Longrightarrow> P k'"
  by (auto simp: calm_simps receive_notify_def unset_notify_pending_def bind_res_Inr_conv intro!: kept_deliver kept_intros elim!: kept_set_notify)

lemma kept_pending_async: "receive_pending_async w src m k = Inr (r, k') \<Longrightarrow> P k \<Longrightarrow> P k'"
  by (auto simp: calm_simps receive_pending_async_def receive_async_def Let_def bind_res_Inr_conv split: option.splits if_splits prod.splits
      intro!: kept_intros elim!: kept_async_loop kept_async_from)

lemma kept_msg_receive: "msg_receive k w src m fl = Inr (r, k') \<Longrightarrow> P k \<Longrightarrow> P k'"
  by (auto simp: msg_receive_def bind_res_Inr_conv split: option.splits if_splits prod.splits
      intro!: kept_block elim!: kept_sync kept_receive_notify elim: kept_pending_async)

lemma kept_sys_sendrec: "sys_sendrec k x p = Inr (r, k') \<Longrightarrow> P k \<Longrightarrow> P k'"
  by (auto simp: sys_sendrec_def Let_def bind_res_Inr_conv split: if_splits sr_function.splits prod.splits
      elim!: kept_msg_receive kept_senda kept_msg_notify kept_msg_send)

subsection \<open>Signals and requests to the memory manager\<close>

lemma kept_send_sig: "send_sig k ep s = Inr (r, k') \<Longrightarrow> P k \<Longrightarrow> P k'"
  by (auto simp: calm_simps send_sig_def Let_def bind_res_Inr_conv split: option.splits intro!: kept_intros elim!: kept_msg_notify)

lemma kept_ksig: "ksig_proc k ep s = Inr k' \<Longrightarrow> P k \<Longrightarrow> P k'"
  by (auto simp: calm_simps ksig_proc_def Let_def bind_res_Inr_conv split: option.splits if_splits
      intro!: kept_intros elim!: kept_send_sig)

lemma kept_mm_suspend: "mm_suspend c t l b wr ty k = Inr k' \<Longrightarrow> P k \<Longrightarrow> P k'"
  by (auto simp: calm_simps mm_suspend_def Let_def bind_res_Inr_conv split: if_splits
      intro!: kept_intros kept_mmrequest elim!: kept_send_sig)

lemma kept_deliver_msg: "deliver_msg_to_user p k = Inr k' \<Longrightarrow> P k \<Longrightarrow> P k'"
  by (auto simp: calm_simps deliver_msg_to_user_def put_user_message_def bind_res_Inr_conv split: if_splits
      intro!: kept_intros elim!: kept_ksig kept_mm_suspend)

lemma kept_copy: "vir_copy_with la k caller d s n chk = Inr (r, k') \<Longrightarrow> P k \<Longrightarrow> P k'"
  by (auto simp: vir_copy_with_def bind_res_Inr_conv split: option.splits la_result.splits if_splits
      elim!: kept_mm_suspend)

lemma kept_kill: "sys_kill k ep s = Inr (r, k') \<Longrightarrow> P k \<Longrightarrow> P k'"
  by (auto simp: sys_kill_def bind_res_Inr_conv split: if_splits elim!: kept_ksig)

lemma kept_getksig: "sys_getksig k = (r, k') \<Longrightarrow> P k \<Longrightarrow> P k'"
proof -
  have "getksig_from n q k = (r, k') \<Longrightarrow> P k \<Longrightarrow> P k'" for n q
    by (induction n arbitrary: q) (auto simp: calm_simps split: if_splits intro!: kept_intros)
  then show "sys_getksig k = (r, k') \<Longrightarrow> P k \<Longrightarrow> P k'" by (simp add: sys_getksig_def)
qed

lemma kept_endksig: "sys_endksig k ep = (r, k') \<Longrightarrow> P k \<Longrightarrow> P k'"
  by (auto simp: sys_endksig_def split: option.splits if_splits intro!: kept_intros)

lemma kept_vmctl: "sys_vmctl k who req p = Inr (r, m, k') \<Longrightarrow> P k \<Longrightarrow> P k'"
  by (auto simp: calm_simps sys_vmctl_def get_mmreq_def reply_mmreq_def arch_vmctl_def Let_def bind_res_Inr_conv
      split: option.splits vmctl_request.splits if_splits intro!: kept_intros)

end

end
