(* ===== verification/User_Return.thy ===== *)
theory User_Return
  imports Clock Ipc_Frame
begin

text \<open>
  The table of kernel calls (\<open>init_system\<close> of \<open>kernel/system.c\<close>) and the way back to user mode
  (\<open>switch_to_user\<close> of \<open>kernel/proc.c\<close>), which may resume any of the calls.
\<close>

unbundle bit_operations_syntax

section \<open>The table of kernel calls\<close>

abbreviation NR_SENDREC :: int where "NR_SENDREC \<equiv> 1"
abbreviation NR_DATACOPY :: int where "NR_DATACOPY \<equiv> 2"
abbreviation NR_PRIVCTL :: int where "NR_PRIVCTL \<equiv> 3"
abbreviation NR_VMCTL :: int where "NR_VMCTL \<equiv> 5"
abbreviation NR_UMAP :: int where "NR_UMAP \<equiv> 6"
abbreviation NR_CLEAR :: int where "NR_CLEAR \<equiv> 12"
abbreviation NR_EXEC :: int where "NR_EXEC \<equiv> 13"
abbreviation NR_KILL :: int where "NR_KILL \<equiv> 16"
abbreviation NR_GETKSIG :: int where "NR_GETKSIG \<equiv> 17"
abbreviation NR_ENDKSIG :: int where "NR_ENDKSIG \<equiv> 18"
abbreviation NR_TIMES :: int where "NR_TIMES \<equiv> 19"
abbreviation NR_TRACE :: int where "NR_TRACE \<equiv> 20"
abbreviation NR_ALARM :: int where "NR_ALARM \<equiv> 21"
abbreviation NR_SETGRANT :: int where "NR_SETGRANT \<equiv> 23"
abbreviation NR_SAFECOPYFROM :: int where "NR_SAFECOPYFROM \<equiv> 24"
abbreviation NR_SAFECOPYTO :: int where "NR_SAFECOPYTO \<equiv> 25"

text \<open>What a handler stores in the message besides its result.\<close>

datatype call_reply =
    No_Reply
  | Mmreq_Reply "mmreq_msg option"
  | Umap_Reply endpoint u64
  | Getksig_Reply "(endpoint \<times> u64) option"
  | Times_Reply nat nat
  | Alarm_Reply int

text \<open>
  Where the members of the union of a message lie, what the page tables say of a copy (\<open>la_la_copy\<close>), and the grants
  in user memory.
\<close>

record call_layout =
  la_la_copy :: la_copy
  grants_at :: grant_mem
  m_sendrec :: "message \<Rightarrow> sr_args"
  m_datacopy :: "message \<Rightarrow> vir_addr \<times> vir_addr \<times> nat"
  m_privctl :: "message \<Rightarrow> endpoint \<times> privctl_request \<times> nat \<times> priv \<times> priv"
  m_vmctl :: "message \<Rightarrow> endpoint \<times> vmctl_request"
  m_umap :: "message \<Rightarrow> endpoint \<times> umap_type \<times> u64 \<times> u64"
  m_endpoint :: "message \<Rightarrow> endpoint"
  m_exec :: "message \<Rightarrow> endpoint \<times> nat \<times> nat"
  m_kill :: "message \<Rightarrow> endpoint \<times> int"
  m_trace :: "message \<Rightarrow> endpoint \<times> trace_request \<times> nat"
  m_alarm :: "message \<Rightarrow> int \<times> bool"
  m_setgrant :: "message \<Rightarrow> nat \<times> nat"
  m_safecopy :: "message \<Rightarrow> safecopy_msg"
  store_reply :: "call_reply \<Rightarrow> message \<Rightarrow> message"

text \<open>The copy of a granted range, once \<open>safecopy\<close> has verified the grant.\<close>

definition granted_copy :: "la_copy \<Rightarrow> kernel \<Rightarrow> int + copy_request \<Rightarrow> nat \<Rightarrow> (int \<times> kernel) res" where
  "granted_copy la k verified p =
     (case verified of
        Inl err \<Rightarrow> Inr (err, k)
      | Inr r \<Rightarrow> vir_copy_check la k p \<lparr>va_ep = cr_dest_ep r, va_addr = unat (cr_dest_addr r)\<rparr>
                  \<lparr>va_ep = cr_src_ep r, va_addr = unat (cr_src_addr r)\<rparr> (unat (cr_bytes r)))"

text \<open>A handler that stores nothing in the message.\<close>

definition quiet_call :: "(int \<times> kernel) res \<Rightarrow> message \<Rightarrow> (int \<times> message \<times> kernel) res" where
  "quiet_call x m = bind_res x (\<lambda>(r, k). Inr (r, m, k))"

text \<open>
  The entries of the table by number.  The table has the handlers that are modelled, with the exception of
  \<open>sys_fork\<close>, which overwrites the child's slot without looking at it: with a slot that is in a run queue it breaks
  the queues.  \<open>sys_irqctl\<close> works on the interrupt lines, a state of its own (\<open>Irq\<close>).  These two and the
  handlers that are not modelled (\<open>printx\<close>, \<open>getinfo\<close>, port I/O, \<open>sigsend\<close>, \<open>sigreturn\<close>, \<open>kprofile\<close>, \<open>stime\<close>, thread
  areas, \<open>hvctl\<close>) are left at \<open>sys_nosys\<close>, as every entry starts out.
\<close>

definition sys_call_table :: "call_layout \<Rightarrow> call_table" where
  "sys_call_table L n = Some (\<lambda>k m p.
     if n = NR_SENDREC then quiet_call (sys_sendrec k (m_sendrec L m) p) m
     else if n = NR_DATACOPY then
       (case m_datacopy L m of (dest, src, len) \<Rightarrow> quiet_call (sys_datacopy (la_la_copy L) k dest src len p) m)
     else if n = NR_PRIVCTL then
       (case m_privctl L m of (whom, req, buf, content, junk) \<Rightarrow>
          quiet_call (sys_privctl (la_la_copy L) k whom req buf content junk p) m)
     else if n = NR_VMCTL then
       (case m_vmctl L m of (who, req) \<Rightarrow>
          bind_res (sys_vmctl k who req p) (\<lambda>(r, rep, k). Inr (r, store_reply L (Mmreq_Reply rep) m, k)))
     else if n = NR_UMAP then
       (case m_umap L m of (who, type, offset, count) \<Rightarrow>
          (case sys_umap k (grants_at L) who type offset count p of
             Inl err \<Rightarrow> Inr (err, m, k)
           | Inr (ep, addr) \<Rightarrow> Inr (0, store_reply L (Umap_Reply ep addr) m, k)))
     else if n = NR_CLEAR then quiet_call (sys_clear k (m_endpoint L m)) m
     else if n = NR_EXEC then
       (case m_exec L m of (ep, nm, psstr) \<Rightarrow> quiet_call (sys_exec (la_la_copy L) k ep nm psstr p) m)
     else if n = NR_KILL then (case m_kill L m of (ep, signo) \<Rightarrow> quiet_call (sys_kill k ep signo) m)
     else if n = NR_GETKSIG then (case sys_getksig k of (rep, k) \<Rightarrow> Inr (0, store_reply L (Getksig_Reply rep) m, k))
     else if n = NR_ENDKSIG then (case sys_endksig k (m_endpoint L m) of (r, k) \<Rightarrow> Inr (r, m, k))
     else if n = NR_TIMES then (case sys_times k of (t, idle) \<Rightarrow> Inr (0, store_reply L (Times_Reply t idle) m, k))
     else if n = NR_TRACE then
       (case m_trace L m of (ep, req, addr) \<Rightarrow> quiet_call (sys_trace (la_la_copy L) k ep req addr p) m)
     else if n = NR_ALARM then
       (case m_alarm L m of (expire, absolute) \<Rightarrow>
          bind_res (sys_alarm k expire absolute p) (\<lambda>(r, left, k). Inr (r, store_reply L (Alarm_Reply left) m, k)))
     else if n = NR_SETGRANT then
       (case m_setgrant L m of (buf, cnt) \<Rightarrow> (case sys_setgrant buf cnt p k of (r, k) \<Rightarrow> Inr (r, m, k)))
     else if n = NR_SAFECOPYFROM then
       quiet_call (granted_copy (la_la_copy L) k (sys_safecopyfrom k (grants_at L) (m_safecopy L m) p) p) m
     else if n = NR_SAFECOPYTO then
       quiet_call (granted_copy (la_la_copy L) k (sys_safecopyto k (grants_at L) (m_safecopy L m) p) p) m
     else Inr (ENOSYS, m, k))"

section \<open>Operations that keep the run queues consistent\<close>

lemma sched_inv_cong:
  "sched_inv k \<Longrightarrow> proc_table k' = proc_table k \<Longrightarrow> run_queues k' = run_queues k \<Longrightarrow>
    run_queue_bitmap k' = run_queue_bitmap k \<Longrightarrow> sched_inv k'"
  by (simp add: sched_inv_def queues_ok_def in_queue_def)

lemma sched_upd: "sched_inv k \<Longrightarrow> (\<And>q. calm (f q) q) \<Longrightarrow> sched_inv (upd_proc p f k)"
  by (rule sched_inv_upd) (simp_all add: calm_def)

lemma sched_upd_priv: "sched_inv k \<Longrightarrow> sched_inv (upd_priv i f k)"
  by (erule sched_inv_cong) simp_all

interpretation rq: kept_by_ipc sched_inv
  by unfold_locales (auto intro: sched_upd sched_upd_priv PST_SET_inv PST_UNSET_inv elim: sched_inv_cong)

lemmas sched_intros = sched_upd sched_upd_priv PST_SET_inv PST_UNSET_inv PST_SETFLAGS_inv

lemma sched_set_priv: "set_priv p i k = (r, k') \<Longrightarrow> sched_inv k \<Longrightarrow> sched_inv k'"
proof -
  have a: "sched_inv k \<Longrightarrow> sched_inv (assign_priv p j k)" for j
    unfolding assign_priv_def Let_def
    by (intro sched_upd_priv, erule sched_inv_upd) (simp add: proc_queue_def sched_wf_def)
  then show "set_priv p i k = (r, k') \<Longrightarrow> sched_inv k \<Longrightarrow> sched_inv k'"
    by (auto simp: set_priv_def split: if_splits option.splits)
qed

lemma sched_privctl:
  assumes r: "sys_privctl la k whom req buf c j p = Inr (r, k')" and inv: "sched_inv k"
  shows "sched_inv k'"
proof (cases "endpt_proc k whom")
  case (Some t)
  show ?thesis
  proof (cases req)
    case PRIVCTL_SET_PRIV
    show ?thesis
    proof (cases "PST_IS_SET k t PST_NO_PRIV")
      case True
      let ?copy = "if buf \<noteq> 0 then bind_res (data_vir_copy_check la k p KERNEL 0 (endpoint (proc_table k p)) buf SIZEOF_PRIV)
          (\<lambda>(r, k). Inr (if r = 0 then c else j, k)) else Inr (j, k)"
      let ?set = "\<lambda>(pv, k). case set_priv t (if buf \<noteq> 0 \<and> \<not> has_flag (prflags pv) PRF_DYN_ID then int (pr_id pv) else PRIV_ID_NULL) k of
          (r, k) \<Rightarrow> if r \<noteq> 0 then Inr (r, k) else if buf \<noteq> 0 then update_priv t pv k else Inr (0, k)"
      have "bind_res ?copy ?set = Inr (r, k')"
        using r by (simp only: sys_privctl_def Some True PRIVCTL_SET_PRIV option.case privctl_request.case Let_def not_True_eq_False if_False)
      then obtain pv k1 where c: "?copy = Inr (pv, k1)" and k1: "?set (pv, k1) = Inr (r, k')"
        unfolding bind_res_Inr_conv by force
      have copy: "k1 = k \<or> (\<exists>x. data_vir_copy_check la k p KERNEL 0 (endpoint (proc_table k p)) buf SIZEOF_PRIV = Inr (x, k1))"
        using c by (auto simp: bind_res_Inr_conv split: if_splits)
      have "sched_inv k1" using copy inv by (auto simp: data_vir_copy_check_def vir_copy_check_def elim: rq.kept_copy)
      then show ?thesis
        using k1 by (auto simp: update_priv_def bind_res_Inr_conv split: prod.splits if_splits intro!: sched_upd_priv elim: sched_set_priv)
    qed (use r inv Some PRIVCTL_SET_PRIV in \<open>simp add: sys_privctl_def\<close>)
  qed (use r inv Some in \<open>auto simp: sys_privctl_def intro: PST_UNSET_inv\<close>)
qed (use r inv in \<open>simp add: sys_privctl_def\<close>)

lemma sched_release: "sched_inv k \<Longrightarrow> sched_inv (release_fpu p k)"
  by (auto simp: release_fpu_def elim: sched_inv_cong)

lemma sched_clear: "sys_clear k ep = Inr (r, k') \<Longrightarrow> sched_inv k \<Longrightarrow> sched_inv k'"
  by (auto simp: sys_clear_def calm_simps bind_res_Inr_conv Let_def split: option.splits intro!: sched_intros sched_release)

lemma sched_exec: "sys_exec la k ep nm ps p = Inr (r, k') \<Longrightarrow> sched_inv k \<Longrightarrow> sched_inv k'"
  by (auto simp: sys_exec_def data_vir_copy_def calm_simps bind_res_Inr_conv Let_def split: option.splits if_splits
      intro!: sched_intros sched_release elim!: rq.kept_copy)

lemma sched_trace: "sys_trace la k ep req ad p = Inr (r, k') \<Longrightarrow> sched_inv k \<Longrightarrow> sched_inv k'"
  by (auto simp: sys_trace_def vir_copy_check_def calm_simps bind_res_Inr_conv
      split: option.splits trace_request.splits if_splits prod.splits intro!: sched_intros elim!: rq.kept_copy)

lemma sched_alarm: "sys_alarm k e absolute p = Inr (r, l, k') \<Longrightarrow> sched_inv k \<Longrightarrow> sched_inv k'"
  by (auto simp: sys_alarm_def set_sys_timer_def reset_sys_timer_def cancel_sys_timer_def bind_res_Inr_conv Let_def
      split: if_splits elim!: sched_inv_cong)

lemma sched_setgrant: "sys_setgrant b c p k = (r, k') \<Longrightarrow> sched_inv k \<Longrightarrow> sched_inv k'"
  by (auto simp: sys_setgrant_def split: option.splits if_splits intro: sched_upd_priv)

lemma sched_granted: "granted_copy la k v p = Inr (r, k') \<Longrightarrow> sched_inv k \<Longrightarrow> sched_inv k'"
  by (auto simp: granted_copy_def vir_copy_check_def split: sum.splits elim!: rq.kept_copy)

lemma sched_datacopy: "sys_datacopy la k d s n p = Inr (r, k') \<Longrightarrow> sched_inv k \<Longrightarrow> sched_inv k'"
  by (auto simp: sys_datacopy_def vir_copy_check_def Let_def elim!: rq.kept_copy)

lemmas sched_calls = rq.kept_sys_sendrec sched_datacopy sched_privctl rq.kept_vmctl sched_clear sched_exec rq.kept_kill
  rq.kept_getksig rq.kept_endksig sched_trace sched_alarm sched_setgrant sched_granted

section \<open>Resuming a call on the way to user mode\<close>

text \<open>A table of handlers that keep the run queues consistent.\<close>

locale keeping_calls =
  fixes tab :: call_table
  assumes keeps: "tab n = Some h \<Longrightarrow> h k m p = Inr (r, m', k') \<Longrightarrow> sched_inv k \<Longrightarrow> sched_inv k'"

text \<open>What holds when the processor enters user mode.\<close>

definition user_ready :: "nat \<Rightarrow> kernel \<Rightarrow> bool" where
  "user_ready p k \<longleftrightarrow> state (proc_table k p) = 0 \<and> counter_ns (proc_table k p) \<noteq> 0 \<and>
     \<not> has_flag (flags (proc_table k p)) PF_RESUME_SYSCALL \<and> \<not> has_flag (flags (proc_table k p)) PF_DELIVER_MSG"

lemma user_work_brk:
  assumes "user_work tab p k = Inr (True, k')"
  shows "state (proc_table k' p) = state (proc_table k p)" "\<not> has_flag (flags (proc_table k' p)) PF_RESUME_SYSCALL"
    "\<not> has_flag (flags (proc_table k' p)) PF_DELIVER_MSG"
  using assms by (auto simp: user_work_def Let_def bind_res_Inr_conv flag_simps split: if_splits)

lemma has_flag_subset: "\<not> has_flag w f \<Longrightarrow> f AND g = g \<Longrightarrow> \<not> has_flag w g"
proof -
  assume "\<not> has_flag w f" "f AND g = g"
  moreover have "w AND (f AND g) = (w AND f) AND g" by (simp only: and.assoc)
  ultimately show ?thesis by (simp add: has_flag_def)
qed

lemma no_user_work: "\<not> has_flag w USER_WORK \<Longrightarrow> \<not> has_flag w PF_RESUME_SYSCALL \<and> \<not> has_flag w PF_DELIVER_MSG"
  by (intro conjI; erule has_flag_subset; simp)

lemma pick_sched:
  assumes "sched_inv k" and "pick_proc k = (r, k')"
  shows "sched_inv k'" and "r = Some p \<Longrightarrow> state (proc_table k' p) = 0"
proof -
  show "sched_inv k'" using assms by (auto simp: pick_proc_def dequeue_inv split: option.splits)
  assume "r = Some p"
  then obtain q where q: "first_queue_from (run_queue_bitmap k) 0 = Some q" "select_proc k (run_queues k q) (- 1) None = Some p"
      "k' = dequeue_proc p k"
    using assms(2) by (auto simp: pick_proc_def split: option.splits)
  have "run_queues k q \<noteq> []" using first_queue_run_queues(1) [OF sched_inv_queues [OF assms(1)] q(1)] by blast
  then obtain p' where "select_proc k (run_queues k q) (- 1) None = Some p'" "best_in k (run_queues k q) p'"
    using select_proc_best by blast
  then have "p \<in> set (run_queues k q)" using q(2) best_in_member by auto
  then show "state (proc_table k' p) = 0" using assms(1) q(3) by (auto simp: sched_inv_def in_queue_def)
qed

lemma no_time_sched: "sched_inv k \<Longrightarrow> sched_inv (proc_no_time p (PST_SET p PST_NO_QUANTUM k))"
  unfolding proc_no_time_def Let_def
  by (intro PST_UNSET_inv sched_upd PST_SET_inv) (simp_all add: calm_simps)

lemma finish_sched: "finish_sys_call p msg r k = (r', k') \<Longrightarrow> sched_inv k \<Longrightarrow> sched_inv k'"
  unfolding finish_sys_call_def put_user_message_def
  by (auto simp: calm_simps split: if_splits intro!: sched_intros intro: sched_inv_cong)

context keeping_calls
begin

lemma dispatch_sched: "dispatch_sys_call tab n m p k = Inr (r, m', k') \<Longrightarrow> sched_inv k \<Longrightarrow> sched_inv k'"
  unfolding dispatch_sys_call_def bind_res_Inr_conv by (auto split: if_splits option.splits intro: keeps)

lemma resume_sched: "resume_sys_call tab p k = Inr (r, k') \<Longrightarrow> sched_inv k \<Longrightarrow> sched_inv k'"
  unfolding resume_sys_call_def Let_def bind_res_Inr_conv
  by (auto simp: calm_simps elim!: finish_sched dest!: dispatch_sched intro!: sched_upd)

lemma user_work_sched: "user_work tab p k = Inr (b, k') \<Longrightarrow> sched_inv k \<Longrightarrow> sched_inv k'"
  unfolding user_work_def Let_def
  by (auto simp: bind_res_Inr_conv calm_simps split: if_splits
      dest!: resume_sched rq.kept_deliver_msg rq.kept_ksig intro!: sched_upd)

lemma enter_ready:
  shows "sched_inv k \<Longrightarrow> state (proc_table k p) = 0 \<Longrightarrow> enter tab n p k = Inr (Some q, k') \<Longrightarrow> user_ready q k' \<and> sched_inv k'"
    and "sched_inv k \<Longrightarrow> resched tab n k = Inr (Some q, k') \<Longrightarrow> user_ready q k' \<and> sched_inv k'"
proof (induction n arbitrary: p k)
  case (Suc n)
  {
    case 1
    have out: "user_ready q k' \<and> sched_inv k'"
      if "sched_inv k1" "state (proc_table k1 p) = 0" "\<not> has_flag (flags (proc_table k1 p)) PF_RESUME_SYSCALL"
        "\<not> has_flag (flags (proc_table k1 p)) PF_DELIVER_MSG"
        "(if counter_ns (proc_table k1 p) = 0 then resched tab n (proc_no_time p (PST_SET p PST_NO_QUANTUM k1)) else Inr (Some p, k1)) = Inr (Some q, k')"
      for k1
      using that Suc.IH(2) [OF no_time_sched] by (auto simp: user_ready_def split: if_splits)
    show ?case
    proof (cases "has_flag (flags (proc_table k p)) USER_WORK")
      case False
      with out [OF 1(1,2)] no_user_work [OF False] 1(3) show ?thesis by (auto simp: Let_def)
    next
      case True
      then obtain brk k1 where w: "user_work tab p k = Inr (brk, k1)"
        using 1(3) by (cases "user_work tab p k") (auto simp: Let_def)
      note s1 = user_work_sched [OF w 1(1)]
      show ?thesis
      proof (cases brk)
        case True
        then have wt: "user_work tab p k = Inr (True, k1)" using w by simp
        note b = user_work_brk [OF wt]
        show ?thesis using out [OF s1 _ b(2,3)] b(1) 1(2,3) wt \<open>has_flag _ USER_WORK\<close> by (simp add: Let_def)
      next
        case False
        with w \<open>has_flag _ USER_WORK\<close> 1(3) Suc.IH(1) [OF s1] Suc.IH(2) [OF s1] show ?thesis
          by (auto simp: Let_def split: if_splits)
      qed
    qed
  next
    case 2
    obtain r k1 where pk: "pick_proc k = (r, k1)" by fastforce
    with 2(2) obtain p where p: "r = Some p" "enter tab n p (k1\<lparr>proc_ptr := Some p\<rparr>) = Inr (Some q, k')"
      by (auto split: option.splits)
    have "sched_inv (k1\<lparr>proc_ptr := Some p\<rparr>)" using pick_sched(1) [OF 2(1) pk] by (rule sched_inv_cong) simp_all
    then show ?case using Suc.IH(1) [OF _ _ p(2)] pick_sched(2) [OF 2(1) pk p(1)] by simp
  }
qed simp_all

lemma switch_ready:
  "sched_inv k \<Longrightarrow> switch_to_user tab n k = Inr (Some p, k') \<Longrightarrow> user_ready p k' \<and> sched_inv k'"
  by (auto simp: switch_to_user_def split: option.splits if_splits dest: enter_ready)

end

interpretation ct: keeping_calls "sys_call_table L" for L
proof
  fix n h k m p r m' k'
  assume "sys_call_table L n = Some h" "h k m p = Inr (r, m', k')" "sched_inv k"
  then show "sched_inv k'"
    by (auto simp: sys_call_table_def quiet_call_def bind_res_Inr_conv sys_times_def
        split: if_splits prod.splits sum.splits elim!: sched_calls)
qed

section \<open>Properties\<close>

text \<open>
  C12: Whatever kernel call of \<open>sys_call_table\<close> (the modelled ones other than \<open>fork\<close> and \<open>irqctl\<close>) is resumed for a
  traced or suspended process, with whatever arguments, and whatever signals are raised on the way, \<open>switch_to_user\<close> enters user mode only with a
  runnable process that has quantum left, no call to resume and no undelivered message, and with consistent run
  queues; and a current process that only waits for its message gets it, at the address it asked for, and runs.
\<close>

theorem switch_to_user_ready:
  assumes "sched_inv k"
  shows "(switch_to_user (sys_call_table L) n k = Inr (Some p, k') \<longrightarrow> user_ready p k' \<and> sched_inv k') \<and>
    (proc_ptr k = Some p \<and> state (proc_table k p) = 0 \<and> counter_ns (proc_table k p) \<noteq> 0 \<and>
      flags (proc_table k p) = PF_DELIVER_MSG \<and> umw k p (recv_msg (proc_table k p)) \<longrightarrow>
      (\<exists>k'. switch_to_user (sys_call_table L) (n + 2) k = Inr (Some p, k') \<and> user_ready p k' \<and>
        umsg k' p (recv_msg (proc_table k p)) = Some (deliver_msg (proc_table k p))))"
proof (intro conjI impI)
  show "switch_to_user (sys_call_table L) n k = Inr (Some p, k') \<Longrightarrow> user_ready p k'"
      "switch_to_user (sys_call_table L) n k = Inr (Some p, k') \<Longrightarrow> sched_inv k'"
    using ct.switch_ready [OF assms] by blast+
qed (simp add: switch_to_user_def user_work_def deliver_msg_to_user_def put_user_message_def user_ready_def Let_def flag_simps)

text \<open>
  A process whose call of \<open>times\<close> was stopped for its tracer, and how the messages of the example are laid out.
\<close>

definition some_layout :: call_layout where
  "some_layout = \<lparr>la_la_copy = (\<lambda>_ _ _ _ _. La_Ok), grants_at = (\<lambda>_ _ _. None),
     m_sendrec = (\<lambda>m. \<lparr>SR_FUNCTION = RECEIVE, SR_SRCDEST = ANY, SR_MSG = 64, SR_TABLE = 0, SR_LEN = 0\<rparr>),
     m_datacopy = (\<lambda>m. (\<lparr>va_ep = SELF, va_addr = 64\<rparr>, \<lparr>va_ep = SELF, va_addr = 128\<rparr>, 8)),
     m_privctl = (\<lambda>m. (5, PRIVCTL_ALLOW, 0, blank_priv, blank_priv)), m_vmctl = (\<lambda>m. (SELF, VMCTL_GET_MMREQ)),
     m_umap = (\<lambda>m. (SELF, UMT_VADDR, 64, 8)), m_endpoint = source, m_exec = (\<lambda>m. (source m, 64, 128)),
     m_kill = (\<lambda>m. (source m, SIGTRAP)), m_trace = (\<lambda>m. (source m, TRACE_CONT, 0)), m_alarm = (\<lambda>m. (10, False)),
     m_setgrant = (\<lambda>m. (64, 8)),
     m_safecopy = (\<lambda>m. \<lparr>src_dest = 5, sc_grant = 1, sc_len = 8, sc_offset = 0, sc_addr = 64\<rparr>),
     store_reply = (\<lambda>rep m. m)\<rparr>"

definition resuming :: kernel where
  "resuming = (upd_priv (quiet_priv 9) (syscall_mask_update (\<lambda>_. [push_bit 19 1]))
     (upd_proc 9 (\<lambda>q. q\<lparr>flags := PF_RESUME_SYSCALL, counter_ns := 1, syscall_msg := 64,
        mm_req := (mm_req q)\<lparr>saved_reqmsg := reset_msg\<lparr>mtype := NR_TIMES\<rparr>\<rparr>\<rparr>) (quiet mm_states)))\<lparr>proc_ptr := Some 9\<rparr>"

theorem switch_to_user_ready_witness:
  "\<exists>k'. switch_to_user (sys_call_table some_layout) 2 resuming = Inr (Some 9, k') \<and> user_ready 9 k' \<and> sched_inv k' \<and>
     retreg (proc_table k' 9) = 0 \<and> umsg k' 9 64 = Some (reset_msg\<lparr>mtype := NR_TIMES\<rparr>)"
proof -
  have "sched_inv (upd_proc 9 (\<lambda>q. q\<lparr>flags := PF_RESUME_SYSCALL, counter_ns := 1, syscall_msg := 64,
        mm_req := (mm_req q)\<lparr>saved_reqmsg := reset_msg\<lparr>mtype := NR_TIMES\<rparr>\<rparr>\<rparr>) (quiet mm_states))"
    by (intro sched_upd kernel_okD(3) [OF mm_states_ok]) (simp add: calm_simps)
  then have inv: "sched_inv resuming" unfolding resuming_def by (rule sched_inv_cong) simp_all
  have bit: "GET_BIT [524288] 19" by (simp add: GET_BIT_def)
  have tab: "proc_ptr resuming = Some 9" "proc_table resuming 9 = (proc_table (quiet mm_states) 9)\<lparr>flags := PF_RESUME_SYSCALL,
      counter_ns := 1, syscall_msg := 64, mm_req := (mm_req (proc_table (quiet mm_states) 9))\<lparr>saved_reqmsg := reset_msg\<lparr>mtype := NR_TIMES\<rparr>\<rparr>\<rparr>"
      "priv_of resuming 9 = Inr 9" "syscall_mask (priv_table resuming 9) = [push_bit 19 1]" "umw resuming 9 64"
    by (simp_all add: resuming_def quiet_table quiet_priv_def priv_of_def) (simp add: quiet_def blank_kernel_def)
  have two: "(2 :: nat) = Suc (Suc 0)" by simp
  obtain k' where k': "switch_to_user (sys_call_table some_layout) 2 resuming = Inr (Some 9, k')" "retreg (proc_table k' 9) = 0"
      "umsg k' 9 64 = Some (reset_msg\<lparr>mtype := NR_TIMES\<rparr>)"
    unfolding switch_to_user_def two
    by (simp add: tab bit mm_states_facts user_work_def resume_sys_call_def dispatch_sys_call_def finish_sys_call_def
        put_user_message_def sys_call_table_def sys_times_def some_layout_def Let_def flag_simps)
  then show ?thesis using switch_to_user_ready [OF inv, of some_layout 2 9 k'] by blast
qed

end
