(* ===== verification/Irq.thy ===== *)
theory Irq
  imports Syscalls Bitmap
begin

text \<open>
  Interrupts (\<open>kernel/interrupt.c\<close>, \<open>kernel/system/sys_irqctl.c\<close>): the chains of hooks on an interrupt
  line, masking, the domains that map interrupt numbers, their allocation, and the kernel call by
  which drivers ask for interrupts.
\<close>

unbundle bit_operations_syntax

section \<open>State\<close>

abbreviation NR_IRQ :: nat where "NR_IRQ \<equiv> 64"
abbreviation NR_HWIRQ :: nat where "NR_HWIRQ \<equiv> 128"
abbreviation NR_IRQ_DOMAIN :: nat where "NR_IRQ_DOMAIN \<equiv> 4"
abbreviation NR_IRQ_HOOKS :: nat where "NR_IRQ_HOOKS \<equiv> 64"
abbreviation IRQ_DOMAIN_NONE :: nat where "IRQ_DOMAIN_NONE \<equiv> 0xffffffff"
abbreviation IRQ_REENABLE :: u64 where "IRQ_REENABLE \<equiv> 1"
abbreviation EEXIST :: int where "EEXIST \<equiv> 17"

text \<open>
  Hooks are named by their index in \<open>irq_hooks\<close>; hooks the kernel has for itself have larger numbers.
  Their handlers are the generic one, which notifies a process, and those of the kernel.
\<close>

datatype hook_handler = Generic_Irq | Kernel_Handler nat

record irq_hook =
  hk_irq :: int
  hk_id :: u64
  hk_handler :: hook_handler
  hk_next :: "nat option"
  hk_proc_ep :: endpoint
  hk_notify_id :: u64
  hk_policy :: u64

text \<open>
  Of a chip only masking is part of the state: \<open>masked\<close> is the line as the last operation of its chip
  left it.  A chip may lack either operation.
\<close>

record irq_chip =
  can_mask :: bool
  can_unmask :: bool

datatype irq_flow = handle_simple | handle_bad | handle_other nat

text \<open>The \<open>irq_data\<close> of a descriptor is part of it; \<open>parent_data\<close> is never set.\<close>

record irq_desc =
  d_hwirq :: nat
  d_chip :: irq_chip
  d_domain :: "nat option"
  d_flow :: irq_flow
  d_handler :: "nat option"
  active_ids :: u64
  masked :: bool

record irq_fwspec =
  fw_id :: nat
  param_count :: int
  param :: "nat \<Rightarrow> nat"

record irq_domain =
  dom_fwid :: nat
  dom_ops :: nat
  hwirq_max :: nat
  revmap :: "nat \<Rightarrow> nat option"

record irqs =
  hooks :: "nat \<Rightarrow> irq_hook"
  descs :: "nat \<Rightarrow> irq_desc"
  domains :: "nat \<Rightarrow> irq_domain"
  allocated_irqs :: bitmap

text \<open>The operations a driver of an interrupt controller supplies for its domain.\<close>

record irq_domain_ops =
  op_alloc :: "(nat \<Rightarrow> nat \<Rightarrow> nat \<Rightarrow> irq_fwspec \<Rightarrow> irqs \<Rightarrow> int \<times> irqs) option"
  op_translate :: "(nat \<Rightarrow> irq_fwspec \<Rightarrow> int \<times> nat \<times> nat) option"

abbreviation no_irq_chip :: irq_chip where "no_irq_chip \<equiv> \<lparr>can_mask = False, can_unmask = False\<rparr>"

definition upd_desc :: "nat \<Rightarrow> (irq_desc \<Rightarrow> irq_desc) \<Rightarrow> irqs \<Rightarrow> irqs" where
  "upd_desc irq f s = s\<lparr>descs := (descs s)(irq := f (descs s irq))\<rparr>"

definition upd_hook :: "nat \<Rightarrow> (irq_hook \<Rightarrow> irq_hook) \<Rightarrow> irqs \<Rightarrow> irqs" where
  "upd_hook h f s = s\<lparr>hooks := (hooks s)(h := f (hooks s h))\<rparr>"

section \<open>Descriptors\<close>

definition irq_to_desc :: "int \<Rightarrow> nat option" where
  "irq_to_desc irq = (if irq < 0 \<or> irq \<ge> int NR_IRQ then None else Some (nat irq))"

definition desc_set_defaults :: "nat \<Rightarrow> irqs \<Rightarrow> irqs" where
  "desc_set_defaults irq s = upd_desc irq (\<lambda>d. d\<lparr>d_flow := handle_simple, d_chip := no_irq_chip\<rparr>) s"

definition mask_irq :: "nat \<Rightarrow> irqs \<Rightarrow> irqs" where
  "mask_irq irq s = (if can_mask (d_chip (descs s irq)) then upd_desc irq (masked_update (\<lambda>_. True)) s else s)"

definition unmask_irq :: "nat \<Rightarrow> irqs \<Rightarrow> irqs" where
  "unmask_irq irq s = (if can_unmask (d_chip (descs s irq)) then upd_desc irq (masked_update (\<lambda>_. False)) s else s)"

definition irq_set_chip :: "int \<Rightarrow> irq_chip option \<Rightarrow> irqs \<Rightarrow> int \<times> irqs" where
  "irq_set_chip irq chip s =
     (case irq_to_desc irq of
        None \<Rightarrow> (EINVAL, s)
      | Some d \<Rightarrow> (0, upd_desc d (d_chip_update (\<lambda>_. case chip of None \<Rightarrow> no_irq_chip | Some c \<Rightarrow> c)) s))"

definition irq_set_handler :: "int \<Rightarrow> irq_flow option \<Rightarrow> bool \<Rightarrow> irqs \<Rightarrow> irqs" where
  "irq_set_handler irq handler is_chained s =
     (case irq_to_desc irq of
        None \<Rightarrow> s
      | Some d \<Rightarrow>
          let h = (case handler of None \<Rightarrow> handle_bad | Some h \<Rightarrow> h);
              s = upd_desc d (d_flow_update (\<lambda>_. h)) s
          in if h \<noteq> handle_bad \<and> is_chained then unmask_irq d s else s)"

definition early_init_irq :: "irqs \<Rightarrow> irqs" where
  "early_init_irq s =
     (let s = fold (\<lambda>i. upd_hook i (hk_proc_ep_update (\<lambda>_. NO_TASK))) [0..<NR_IRQ_HOOKS] s;
          s = fold desc_set_defaults [0..<NR_IRQ] s
      in fold (\<lambda>i s. s\<lparr>domains := (domains s)(i := (domains s i)\<lparr>dom_fwid := IRQ_DOMAIN_NONE\<rparr>)\<rparr>) [0..<NR_IRQ_DOMAIN] s)"

section \<open>Hooks\<close>

text \<open>
  The chain of a line is followed on fuel, since a hook could be linked in a circle.  \<open>prv\<close> is the
  hook whose \<open>next\<close> the pointer \<open>line\<close> points to, \<open>None\<close> for the descriptor.
\<close>

definition set_link :: "nat \<Rightarrow> nat option \<Rightarrow> nat option \<Rightarrow> irqs \<Rightarrow> irqs" where
  "set_link irq prv v s =
     (case prv of None \<Rightarrow> upd_desc irq (d_handler_update (\<lambda>_. v)) s | Some h \<Rightarrow> upd_hook h (hk_next_update (\<lambda>_. v)) s)"

text \<open>The loop of \<open>put_irq_handler\<close>; \<open>None\<close> when the hook is found in the chain.\<close>

fun put_loop :: "nat \<Rightarrow> irqs \<Rightarrow> nat \<Rightarrow> nat option \<Rightarrow> nat option \<Rightarrow> u64 \<Rightarrow> (nat option \<times> u64) option res" where
  "put_loop 0 s hook prv line used_ids = Inl Diverge"
| "put_loop (Suc fuel) s hook prv line used_ids =
     (case line of
        None \<Rightarrow> Inr (Some (prv, used_ids))
      | Some h \<Rightarrow> if hook = h then Inr None
                  else put_loop fuel s hook (Some h) (hk_next (hooks s h)) (used_ids OR hk_id (hooks s h)))"

text \<open>The first of the 64 identifiers that is not in use; \<open>n\<close> of them are left to try.\<close>

primrec free_hook_id :: "nat \<Rightarrow> u64 \<Rightarrow> u64 \<Rightarrow> u64" where
  "free_hook_id 0 used_ids i = 0"
| "free_hook_id (Suc n) used_ids i = (if used_ids AND i = 0 then i else free_hook_id n used_ids (push_bit 1 i))"

text \<open>
  The callbacks \<open>irq_used\<close>, \<open>irq_not_used\<close> and \<open>irq_eoi\<close> of a chip program the interrupt controller, which is
  not part of the state; \<open>put_irq_handler\<close>, \<open>rm_irq_handler\<close> and \<open>handle_simple_irq\<close> leave them out.
\<close>

definition put_irq_handler :: "nat \<Rightarrow> int \<Rightarrow> nat \<Rightarrow> hook_handler \<Rightarrow> irqs \<Rightarrow> irqs res" where
  "put_irq_handler fuel irq hook handler s =
     (case irq_to_desc irq of
        None \<Rightarrow> Inl NullDeref
      | Some d \<Rightarrow>
          bind_res (put_loop fuel s hook None (d_handler (descs s d)) 0) (\<lambda>r.
            case r of
              None \<Rightarrow> Inr s
            | Some (prv, used_ids) \<Rightarrow>
                let i = free_hook_id 64 used_ids 1 in
                if i = 0 then Inl Panic
                else
                  let s = upd_hook hook (\<lambda>h. h\<lparr>hk_next := None, hk_handler := handler, hk_id := i, hk_irq := irq\<rparr>) s;
                      s = set_link d prv (Some hook) s;
                      s = upd_desc d (active_ids_update (\<lambda>a. a AND NOT i)) s
                  in Inr (if active_ids (descs s d) = 0 then unmask_irq d s else s)))"

text \<open>The loop of \<open>rm_irq_handler\<close>: every hook with the identifier is unlinked.\<close>

fun rm_loop :: "nat \<Rightarrow> nat \<Rightarrow> u64 \<Rightarrow> nat option \<Rightarrow> nat option \<Rightarrow> irqs \<Rightarrow> irqs res" where
  "rm_loop 0 d i prv line s = Inl Diverge"
| "rm_loop (Suc fuel) d i prv line s =
     (case line of
        None \<Rightarrow> Inr s
      | Some h \<Rightarrow>
          if hk_id (hooks s h) = i then
            let nx = hk_next (hooks s h);
                s = upd_desc d (active_ids_update (\<lambda>a. if a AND i \<noteq> 0 then a AND NOT i else a)) (set_link d prv nx s)
            in rm_loop fuel d i prv nx s
          else rm_loop fuel d i (Some h) (hk_next (hooks s h)) s)"

definition rm_irq_handler :: "nat \<Rightarrow> nat \<Rightarrow> irqs \<Rightarrow> irqs res" where
  "rm_irq_handler fuel hook s =
     (case irq_to_desc (hk_irq (hooks s hook)) of
        None \<Rightarrow> Inl NullDeref
      | Some d \<Rightarrow>
          bind_res (rm_loop fuel d (hk_id (hooks s hook)) None (d_handler (descs s d)) s) (\<lambda>s.
            Inr (if d_handler (descs s d) = None then mask_irq d s
                 else if active_ids (descs s d) = 0 then unmask_irq d s else s)))"

definition enable_irq :: "nat \<Rightarrow> irqs \<Rightarrow> irqs res" where
  "enable_irq hook s =
     (case irq_to_desc (hk_irq (hooks s hook)) of
        None \<Rightarrow> Inl NullDeref
      | Some d \<Rightarrow>
          let s = upd_desc d (active_ids_update (\<lambda>a. a AND NOT (hk_id (hooks s hook)))) s
          in Inr (if active_ids (descs s d) = 0 then unmask_irq d s else s))"

definition disable_irq :: "nat \<Rightarrow> irqs \<Rightarrow> (bool \<times> irqs) res" where
  "disable_irq hook s =
     (case irq_to_desc (hk_irq (hooks s hook)) of
        None \<Rightarrow> Inl NullDeref
      | Some d \<Rightarrow>
          if active_ids (descs s d) AND hk_id (hooks s hook) \<noteq> 0 then Inr (False, s)
          else Inr (True, mask_irq d (upd_desc d (active_ids_update (\<lambda>a. a OR hk_id (hooks s hook))) s)))"

section \<open>Interrupts\<close>

text \<open>The handlers of the kernel: whether they reenable the interrupt, and what they do.\<close>

type_synonym kernel_handlers = "nat \<Rightarrow> kernel \<Rightarrow> (bool \<times> kernel) res"

definition generic_irq_handler :: "irq_hook \<Rightarrow> kernel \<Rightarrow> (bool \<times> kernel) res" where
  "generic_irq_handler hook k =
     (case endpt_proc k (hk_proc_ep hook) of
        None \<Rightarrow> Inl Panic
      | Some p \<Rightarrow>
          bind_res (priv_of k p) (\<lambda>i.
            if hk_notify_id hook \<ge> 31 then Inl Undefined
            else
              let k = upd_priv i (int_pending_update (\<lambda>w. w OR push_bit (unat (hk_notify_id hook)) 1)) k
              in bind_res (msg_notify k (proc_addr INTERRUPT) (hk_proc_ep hook)) (\<lambda>(_, k).
                   Inr (hk_policy hook AND IRQ_REENABLE \<noteq> 0, k))))"

definition call_hook :: "kernel_handlers \<Rightarrow> irq_hook \<Rightarrow> kernel \<Rightarrow> (bool \<times> kernel) res" where
  "call_hook hs hook k =
     (case hk_handler hook of Generic_Irq \<Rightarrow> generic_irq_handler hook k | Kernel_Handler n \<Rightarrow> hs n k)"

fun hooks_loop :: "nat \<Rightarrow> kernel_handlers \<Rightarrow> nat \<Rightarrow> nat option \<Rightarrow> irqs \<Rightarrow> kernel \<Rightarrow> (irqs \<times> kernel) res" where
  "hooks_loop 0 hs d hook s k = Inl Diverge"
| "hooks_loop (Suc fuel) hs d hook s k =
     (case hook of
        None \<Rightarrow> Inr (s, k)
      | Some h \<Rightarrow>
          let s = upd_desc d (active_ids_update (\<lambda>a. a OR hk_id (hooks s h))) s in
          bind_res (call_hook hs (hooks s h) k) (\<lambda>(reenable, k).
            let s = (if reenable then upd_desc d (active_ids_update (\<lambda>a. a AND NOT (hk_id (hooks s h)))) s else s)
            in hooks_loop fuel hs d (hk_next (hooks s h)) s k))"

definition handle_simple_irq :: "nat \<Rightarrow> kernel_handlers \<Rightarrow> nat \<Rightarrow> irqs \<Rightarrow> kernel \<Rightarrow> (irqs \<times> kernel) res" where
  "handle_simple_irq fuel hs d s k =
     bind_res (hooks_loop fuel hs d (d_handler (descs s d)) (mask_irq d s) k) (\<lambda>(s, k).
       Inr (if active_ids (descs s d) = 0 then unmask_irq d s else s, k))"

text \<open>A flow handler of an interrupt controller is an argument.\<close>

definition handle_irq_desc :: "nat \<Rightarrow> kernel_handlers \<Rightarrow> (nat \<Rightarrow> nat \<Rightarrow> irqs \<Rightarrow> kernel \<Rightarrow> (irqs \<times> kernel) res) \<Rightarrow>
    nat option \<Rightarrow> irqs \<Rightarrow> kernel \<Rightarrow> (irqs \<times> kernel) res" where
  "handle_irq_desc fuel hs fl desc s k =
     (case desc of
        None \<Rightarrow> Inr (s, k)
      | Some d \<Rightarrow>
          (case d_flow (descs s d) of
             handle_simple \<Rightarrow> handle_simple_irq fuel hs d s k
           | handle_bad \<Rightarrow> Inr (s, k)
           | handle_other n \<Rightarrow> fl n d s k))"

definition generic_handle_irq :: "nat \<Rightarrow> kernel_handlers \<Rightarrow> (nat \<Rightarrow> nat \<Rightarrow> irqs \<Rightarrow> kernel \<Rightarrow> (irqs \<times> kernel) res) \<Rightarrow>
    int \<Rightarrow> irqs \<Rightarrow> kernel \<Rightarrow> (irqs \<times> kernel) res" where
  "generic_handle_irq fuel hs fl irq s k = handle_irq_desc fuel hs fl (irq_to_desc irq) s k"

section \<open>Domains\<close>

definition irq_resolve_mapping :: "nat option \<Rightarrow> nat \<Rightarrow> irqs \<Rightarrow> nat option res" where
  "irq_resolve_mapping domain hwirq s =
     (case domain of
        None \<Rightarrow> Inr None
      | Some dn \<Rightarrow> if hwirq \<ge> NR_HWIRQ then Inl OutOfBounds else Inr (revmap (domains s dn) hwirq))"

definition generic_handle_domain_irq :: "nat \<Rightarrow> kernel_handlers \<Rightarrow> (nat \<Rightarrow> nat \<Rightarrow> irqs \<Rightarrow> kernel \<Rightarrow> (irqs \<times> kernel) res) \<Rightarrow>
    nat option \<Rightarrow> nat \<Rightarrow> irqs \<Rightarrow> kernel \<Rightarrow> (irqs \<times> kernel) res" where
  "generic_handle_domain_irq fuel hs fl domain hwirq s k =
     bind_res (irq_resolve_mapping domain hwirq s) (\<lambda>desc. handle_irq_desc fuel hs fl desc s k)"

definition irq_find_mapping :: "nat option \<Rightarrow> nat \<Rightarrow> irqs \<Rightarrow> nat res" where
  "irq_find_mapping domain hwirq s =
     bind_res (irq_resolve_mapping domain hwirq s) (\<lambda>desc. Inr (case desc of Some irq \<Rightarrow> irq | None \<Rightarrow> 0))"

definition irq_domain_get_irq_data :: "nat \<Rightarrow> int \<Rightarrow> irqs \<Rightarrow> nat option" where
  "irq_domain_get_irq_data dn virq s =
     (case irq_to_desc virq of
        None \<Rightarrow> None
      | Some d \<Rightarrow> if d_domain (descs s d) = Some dn then Some d else None)"

definition irq_domain_set_hwirq_and_chip :: "nat \<Rightarrow> int \<Rightarrow> nat \<Rightarrow> irq_chip option \<Rightarrow> irqs \<Rightarrow> int \<times> irqs" where
  "irq_domain_set_hwirq_and_chip dn virq hwirq chip s =
     (case irq_domain_get_irq_data dn virq s of
        None \<Rightarrow> (- ENOENT, s)
      | Some d \<Rightarrow> (0, upd_desc d (\<lambda>x. x\<lparr>d_hwirq := hwirq, d_chip := case chip of None \<Rightarrow> no_irq_chip | Some c \<Rightarrow> c\<rparr>) s))"

definition irq_domain_set_info :: "nat \<Rightarrow> int \<Rightarrow> nat \<Rightarrow> irq_chip option \<Rightarrow> irq_flow option \<Rightarrow> irqs \<Rightarrow> irqs" where
  "irq_domain_set_info dn virq hwirq chip handler s =
     irq_set_handler virq handler False (snd (irq_domain_set_hwirq_and_chip dn virq hwirq chip s))"

text \<open>The first domain with an identifier, of those from \<open>i\<close> on; \<open>n\<close> are left.\<close>

primrec find_domain :: "nat \<Rightarrow> nat \<Rightarrow> nat \<Rightarrow> irqs \<Rightarrow> nat option" where
  "find_domain 0 i fwid s = None"
| "find_domain (Suc n) i fwid s = (if dom_fwid (domains s i) = fwid then Some i else find_domain n (i + 1) fwid s)"

definition alloc_irq_domain :: "nat \<Rightarrow> irqs \<Rightarrow> (nat \<times> irqs) option" where
  "alloc_irq_domain fwid s =
     (case find_domain NR_IRQ_DOMAIN 0 IRQ_DOMAIN_NONE s of
        None \<Rightarrow> None
      | Some i \<Rightarrow> Some (i, s\<lparr>domains := (domains s)(i := (domains s i)\<lparr>dom_fwid := fwid\<rparr>)\<rparr>))"

definition irq_domain_add :: "nat \<Rightarrow> nat \<Rightarrow> nat \<Rightarrow> irqs \<Rightarrow> nat option \<times> irqs" where
  "irq_domain_add fwid hwmax ops s =
     (if hwmax > NR_HWIRQ then (None, s)
      else (case alloc_irq_domain fwid s of
              None \<Rightarrow> (None, s)
            | Some (i, s) \<Rightarrow>
                (Some i, s\<lparr>domains := (domains s)(i := (domains s i)\<lparr>dom_ops := ops, hwirq_max := hwmax\<rparr>)\<rparr>)))"

definition irq_find_matching_fwspec :: "irq_fwspec \<Rightarrow> irqs \<Rightarrow> nat option" where
  "irq_find_matching_fwspec fwspec s = find_domain NR_IRQ_DOMAIN 0 (fw_id fwspec) s"

section \<open>Allocation\<close>

text \<open>Conversion to \<open>int\<close>.\<close>

definition to_int32 :: "nat \<Rightarrow> int" where
  "to_int32 n = (let r = int (n mod 2 ^ 32) in if r \<ge> 2 ^ 31 then r - 2 ^ 32 else r)"

definition set_irqs :: "int \<Rightarrow> nat \<Rightarrow> bitmap \<Rightarrow> bitmap res" where
  "set_irqs start cnt m =
     (if cnt > 0 \<and> (start < 0 \<or> start + int cnt > int (BITCHUNK_BITS * length m)) then Inl OutOfBounds
      else Inr (fold (\<lambda>i m. SET_BIT m (nat start + i)) [0..<cnt] m))"

text \<open>\<open>start + cnt\<close> is computed in 32 bits.\<close>

definition irq_alloc_descs :: "int \<Rightarrow> nat \<Rightarrow> nat \<Rightarrow> irqs \<Rightarrow> (int \<times> irqs) res" where
  "irq_alloc_descs irq from cnt s =
     (if cnt = 0 then Inr (- EINVAL, s)
      else if irq \<ge> 0 \<and> int from > irq then Inr (- EINVAL, s)
      else
        let from = (if irq \<ge> 0 then nat irq else from) in
        bind_res (bitmap_find_next_zero_area (allocated_irqs s) NR_IRQ from cnt) (\<lambda>start.
          let start = to_int32 start in
          if irq \<ge> 0 \<and> start \<noteq> irq then Inr (- EEXIST, s)
          else if (start + int cnt) mod 2 ^ 32 > int NR_IRQ then Inr (- ENOMEM, s)
          else bind_res (set_irqs start cnt (allocated_irqs s)) (\<lambda>m. Inr (start, s\<lparr>allocated_irqs := m\<rparr>))))"

definition irq_domain_alloc_descs :: "int \<Rightarrow> nat \<Rightarrow> nat \<Rightarrow> irqs \<Rightarrow> (int \<times> irqs) res" where
  "irq_domain_alloc_descs virq cnt hwirq s =
     (if virq \<ge> 0 then irq_alloc_descs virq (nat virq) cnt s
      else
        let hint = (if hwirq mod NR_IRQ = 0 then 1 else hwirq mod NR_IRQ) in
        bind_res (irq_alloc_descs (- 1) hint cnt s) (\<lambda>(virq, s).
          if virq \<le> 0 \<and> hint > 1 then irq_alloc_descs (- 1) 1 cnt s else Inr (virq, s)))"

definition irq_alloc_from :: "nat \<Rightarrow> nat \<Rightarrow> irqs \<Rightarrow> (int \<times> irqs) res" where
  "irq_alloc_from from nr s = (if from \<ge> NR_IRQ then Inr (- EINVAL, s) else irq_alloc_descs (- 1) from nr s)"

text \<open>\<open>irq_get_irq_data\<close> of a number out of range is a null pointer.\<close>

fun irq_domain_alloc_irq_data :: "nat \<Rightarrow> int \<Rightarrow> nat \<Rightarrow> irqs \<Rightarrow> irqs res" where
  "irq_domain_alloc_irq_data dn virq 0 s = Inr s"
| "irq_domain_alloc_irq_data dn virq (Suc n) s =
     (case irq_to_desc virq of
        None \<Rightarrow> Inl NullDeref
      | Some d \<Rightarrow> irq_domain_alloc_irq_data dn (virq + 1) n (upd_desc d (d_domain_update (\<lambda>_. Some dn)) s))"

fun map_hwirqs :: "nat \<Rightarrow> int \<Rightarrow> nat \<Rightarrow> irqs \<Rightarrow> irqs res" where
  "map_hwirqs dn virq 0 s = Inr s"
| "map_hwirqs dn virq (Suc n) s =
     (case irq_to_desc virq of
        None \<Rightarrow> Inl NullDeref
      | Some d \<Rightarrow>
          if d_hwirq (descs s d) \<ge> NR_HWIRQ then Inl OutOfBounds
          else map_hwirqs dn (virq + 1) n
                 (s\<lparr>domains := (domains s)(dn := (domains s dn)\<lparr>revmap := (revmap (domains s dn))(d_hwirq (descs s d) := Some d)\<rparr>)\<rparr>))"

definition irq_domain_alloc_irqs :: "(nat \<Rightarrow> irq_domain_ops) \<Rightarrow> nat option \<Rightarrow> int \<Rightarrow> nat \<Rightarrow> irq_fwspec \<Rightarrow> irqs \<Rightarrow> (int \<times> irqs) res" where
  "irq_domain_alloc_irqs ops domain irq_base nr arg s =
     (case domain of
        None \<Rightarrow> Inr (- EINVAL, s)
      | Some dn \<Rightarrow>
          bind_res (irq_domain_alloc_descs irq_base nr 0 s) (\<lambda>(virq, s).
            if virq < 0 then Inr (virq, s)
            else bind_res (irq_domain_alloc_irq_data dn virq nr s) (\<lambda>s.
              let (ret, s) = (case op_alloc (ops (dom_ops (domains s dn))) of
                                None \<Rightarrow> (- ENOSYS, s)
                              | Some f \<Rightarrow> f dn (nat virq) nr arg s)
              in if ret < 0 then Inr (ret, s)
                 else bind_res (map_hwirqs dn virq nr s) (\<lambda>s. Inr (virq, s)))))"

text \<open>The translations of an interrupt specification: the result, the hardware number and the type.\<close>

definition irq_domain_translate_onecell :: "nat \<Rightarrow> irq_fwspec \<Rightarrow> int \<times> nat \<times> nat" where
  "irq_domain_translate_onecell d fwspec = (if param_count fwspec < 1 then (- EINVAL, 0, 0) else (0, param fwspec 0, 0))"

definition irq_domain_translate_twocell :: "nat \<Rightarrow> irq_fwspec \<Rightarrow> int \<times> nat \<times> nat" where
  "irq_domain_translate_twocell d fwspec =
     (if param_count fwspec < 2 then (- EINVAL, 0, 0) else (0, param fwspec 0, param fwspec 1 mod 16))"

definition irq_domain_translate_onetwocell :: "nat \<Rightarrow> irq_fwspec \<Rightarrow> int \<times> nat \<times> nat" where
  "irq_domain_translate_onetwocell d fwspec =
     (if param_count fwspec < 1 then (- EINVAL, 0, 0)
      else (0, param fwspec 0, if param_count fwspec > 1 then param fwspec 1 mod 16 else 0))"

definition irq_domain_translate :: "(nat \<Rightarrow> irq_domain_ops) \<Rightarrow> nat \<Rightarrow> irq_fwspec \<Rightarrow> irqs \<Rightarrow> int \<times> nat" where
  "irq_domain_translate ops dn fwspec s =
     (case op_translate (ops (dom_ops (domains s dn))) of
        Some f \<Rightarrow> (case f dn fwspec of (r, hwirq, type) \<Rightarrow> (r, hwirq))
      | None \<Rightarrow> (0, param fwspec 0))"

definition irq_create_fwspec_mapping :: "(nat \<Rightarrow> irq_domain_ops) \<Rightarrow> irq_fwspec \<Rightarrow> irqs \<Rightarrow> (int \<times> irqs) res" where
  "irq_create_fwspec_mapping ops fwspec s =
     (case irq_find_matching_fwspec fwspec s of
        None \<Rightarrow> Inr (0, s)
      | Some dn \<Rightarrow>
          (case irq_domain_translate ops dn fwspec s of
             (r, hwirq) \<Rightarrow>
               if r \<noteq> 0 then Inr (0, s)
               else bind_res (irq_find_mapping (Some dn) hwirq s) (\<lambda>virq.
                 if virq \<noteq> 0 then Inr (int virq, s)
                 else bind_res (irq_domain_alloc_irqs ops (Some dn) (- 1) 1 fwspec s) (\<lambda>(virq, s).
                   Inr (if virq \<le> 0 then 0 else virq, s)))))"

section \<open>The kernel call\<close>

text \<open>The request; \<open>IRQ_RMPOLICY\<close>, which the header declares, is not known to the kernel.\<close>

datatype irqctl_request =
    IRQ_ENABLE int
  | IRQ_DISABLE int
  | IRQ_SETPOLICY int int u64
  | IRQ_MAP_FWSPEC irq_fwspec
  | IRQ_ALLOC int int
  | IRQ_ALLOC_MSI int int
  | IRQ_RMPOLICY int

text \<open>The first of the \<open>n\<close> hooks from \<open>i\<close> on that has a property.\<close>

primrec find_hook :: "nat \<Rightarrow> nat \<Rightarrow> (irq_hook \<Rightarrow> bool) \<Rightarrow> irqs \<Rightarrow> nat option" where
  "find_hook 0 i P s = None"
| "find_hook (Suc n) i P s = (if P (hooks s i) then Some i else find_hook n (i + 1) P s)"

text \<open>Enabling or disabling the interrupts of a hook of the caller.\<close>

definition own_hook :: "kernel \<Rightarrow> nat \<Rightarrow> int \<Rightarrow> irqs \<Rightarrow> int + nat" where
  "own_hook k p hook_id s =
     (let i = hook_id - 1 in
      if i < 0 \<or> i \<ge> int NR_IRQ_HOOKS \<or> hk_proc_ep (hooks s (nat i)) = NO_TASK then Inl EINVAL
      else if hk_proc_ep (hooks s (nat i)) \<noteq> endpoint (proc_table k p) then Inl EPERM
      else Inr (nat i))"

definition set_policy :: "nat \<Rightarrow> endpoint \<Rightarrow> int \<Rightarrow> int \<Rightarrow> u64 \<Rightarrow> irqs \<Rightarrow> (int \<times> int \<times> irqs) res" where
  "set_policy fuel ep irq notify_id policy s =
     (if irq < 0 \<or> irq \<ge> int NR_IRQ then Inr (EINVAL, notify_id, s)
      else
        let found = (case find_hook NR_IRQ_HOOKS 0 (\<lambda>h. hk_proc_ep h = ep \<and> hk_notify_id h = of_int notify_id) s of
                       Some i \<Rightarrow> Some i
                     | None \<Rightarrow> find_hook NR_IRQ_HOOKS 0 (\<lambda>h. hk_proc_ep h = NO_TASK) s)
        in case found of
             None \<Rightarrow> Inr (ENOSPC, notify_id, s)
           | Some i \<Rightarrow>
               let s = upd_hook i (\<lambda>h. h\<lparr>hk_proc_ep := ep, hk_notify_id := of_int notify_id, hk_policy := policy\<rparr>) s
               in bind_res (put_irq_handler fuel irq i Generic_Irq s) (\<lambda>s. Inr (0, int i + 1, s)))"

text \<open>\<open>msi\<close> is \<open>arch_setup_msi_irq\<close>; the loop stops at the first failure.\<close>

primrec setup_msis :: "(int \<Rightarrow> int) \<Rightarrow> int \<Rightarrow> nat \<Rightarrow> int" where
  "setup_msis msi irq 0 = 0"
| "setup_msis msi irq (Suc n) = (if msi irq \<noteq> 0 then - msi irq else setup_msis msi (irq + 1) n)"

text \<open>
  The result, the value returned in the message and the new state.  A negative number of parameters
  passes the check, and the copy of the parameters then runs out of the message.
\<close>

definition sys_irqctl :: "nat \<Rightarrow> (nat \<Rightarrow> irq_domain_ops) \<Rightarrow> (int \<Rightarrow> int) \<Rightarrow> kernel \<Rightarrow> nat \<Rightarrow> irqctl_request \<Rightarrow> irqs \<Rightarrow> (int \<times> int \<times> irqs) res" where
  "sys_irqctl fuel ops msi k p req s =
     (case req of
        IRQ_ENABLE hook_id \<Rightarrow>
          (case own_hook k p hook_id s of
             Inl e \<Rightarrow> Inr (e, 0, s)
           | Inr h \<Rightarrow> bind_res (enable_irq h s) (\<lambda>s. Inr (0, 0, s)))
      | IRQ_DISABLE hook_id \<Rightarrow>
          (case own_hook k p hook_id s of
             Inl e \<Rightarrow> Inr (e, 0, s)
           | Inr h \<Rightarrow> bind_res (disable_irq h s) (\<lambda>(_, s). Inr (0, 0, s)))
      | IRQ_SETPOLICY irq notify_id policy \<Rightarrow> set_policy fuel (endpoint (proc_table k p)) irq notify_id policy s
      | IRQ_MAP_FWSPEC fwspec \<Rightarrow>
          if param_count fwspec > 8 then Inr (EINVAL, 0, s)
          else if param_count fwspec < 0 then Inl OutOfBounds
          else bind_res (irq_create_fwspec_mapping ops fwspec s) (\<lambda>(irq, s). Inr (if irq = 0 then EINVAL else 0, irq, s))
      | IRQ_ALLOC irq policy \<Rightarrow>
          if policy \<le> 0 then Inr (EINVAL, irq, s)
          else bind_res (irq_alloc_from (nat (irq mod 2 ^ 32)) (nat policy) s) (\<lambda>(r, s).
            Inr (if r < 0 then (- r, irq, s) else (0, r, s)))
      | IRQ_ALLOC_MSI irq policy \<Rightarrow>
          if policy \<le> 0 then Inr (EINVAL, irq, s)
          else bind_res (irq_alloc_from (nat (irq mod 2 ^ 32)) (nat policy) s) (\<lambda>(r, s).
            if r < 0 then Inr (- r, irq, s)
            else let e = setup_msis msi r (nat policy) in Inr (if e \<noteq> 0 then (e, irq, s) else (0, r, s)))
      | IRQ_RMPOLICY hook_id \<Rightarrow> Inr (EINVAL, 0, s))"

section \<open>Well-formed lines\<close>

definition single :: "u64 \<Rightarrow> bool" where
  "single w \<longleftrightarrow> (\<exists>j<64. w = push_bit j 1)"

definition all_ids :: "irqs \<Rightarrow> nat list \<Rightarrow> u64" where
  "all_ids s hs = foldr (\<lambda>h a. hk_id (hooks s h) OR a) hs 0"

text \<open>
  The line \<open>d\<close> has the hooks \<open>hs\<close>, in this order, each with an identifier of its own; only they are
  active, and the line is masked exactly when one of them is.
\<close>

definition line_ok :: "irqs \<Rightarrow> nat \<Rightarrow> nat list \<Rightarrow> bool" where
  "line_ok s d hs \<longleftrightarrow>
     qpath (\<lambda>h. hk_next (hooks s h)) (d_handler (descs s d)) hs \<and> distinct hs \<and>
     distinct (map (\<lambda>h. hk_id (hooks s h)) hs) \<and>
     (\<forall>h \<in> set hs. single (hk_id (hooks s h)) \<and> hk_irq (hooks s h) = int d) \<and>
     active_ids (descs s d) AND NOT (all_ids s hs) = 0 \<and>
     can_mask (d_chip (descs s d)) \<and> can_unmask (d_chip (descs s d)) \<and>
     (hs \<noteq> [] \<longrightarrow> masked (descs s d) = (active_ids (descs s d) \<noteq> 0))"

definition irqs_ok :: "irqs \<Rightarrow> (nat \<Rightarrow> nat list) \<Rightarrow> bool" where
  "irqs_ok s ch \<longleftrightarrow> (\<forall>d<NR_IRQ. line_ok s d (ch d))"

lemma irqs_ok_apart: "irqs_ok s ch \<Longrightarrow> d < NR_IRQ \<Longrightarrow> d' < NR_IRQ \<Longrightarrow> h \<in> set (ch d) \<Longrightarrow> h \<in> set (ch d') \<Longrightarrow> d = d'"
  unfolding irqs_ok_def line_ok_def by (metis of_nat_eq_iff)

lemma upd_desc_simps [simp]:
  "hooks (upd_desc d f s) = hooks s" "descs (upd_desc d f s) = (descs s)(d := f (descs s d))"
  "domains (upd_desc d f s) = domains s" "allocated_irqs (upd_desc d f s) = allocated_irqs s"
  by (simp_all add: upd_desc_def)

lemma upd_hook_simps [simp]:
  "hooks (upd_hook h f s) = (hooks s)(h := f (hooks s h))" "descs (upd_hook h f s) = descs s"
  "domains (upd_hook h f s) = domains s" "allocated_irqs (upd_hook h f s) = allocated_irqs s"
  by (simp_all add: upd_hook_def)

text \<open>A line is left alone by what changes other hooks and other descriptors.\<close>

lemma line_ok_frame:
  assumes "line_ok s d hs" and "descs s' d = descs s d" and "\<And>h. h \<in> set hs \<Longrightarrow> hooks s' h = hooks s h"
  shows "line_ok s' d hs"
proof -
  have "qpath (\<lambda>h. hk_next (hooks s' h)) (d_handler (descs s d)) hs = qpath (\<lambda>h. hk_next (hooks s h)) (d_handler (descs s d)) hs"
    by (rule qpath_cong) (simp add: assms(3))
  moreover have "all_ids s' hs = all_ids s hs" using assms(3) unfolding all_ids_def by (induction hs) auto
  moreover have ids: "map (\<lambda>h. hk_id (hooks s' h)) hs = map (\<lambda>h. hk_id (hooks s h)) hs" using assms(3) by simp
  have "distinct (map (\<lambda>h. hk_id (hooks s' h)) hs)" unfolding ids using assms(1) by (simp add: line_ok_def)
  ultimately show ?thesis using assms by (simp add: line_ok_def)
qed

lemma bit_all_ids: "bit (all_ids s hs) j \<longleftrightarrow> (\<exists>h \<in> set hs. bit (hk_id (hooks s h)) j)"
  unfolding all_ids_def by (induction hs) (auto simp: bit_simps)

lemma single_bit: "single w \<Longrightarrow> \<exists>j<64. \<forall>i. bit w i \<longleftrightarrow> i = j"
  by (auto simp: single_def bit_simps)

text \<open>The choice of an identifier.\<close>

lemma free_hook_id_spec:
  assumes "j < 64" and "\<not> bit used j" and "i + n = 64" and "i \<le> j"
  shows "single (free_hook_id n used (push_bit i 1)) \<and> used AND free_hook_id n used (push_bit i 1) = 0"
  using assms(3,4)
proof (induction n arbitrary: i)
  case 0
  then show ?case using assms(1) by simp
next
  case (Suc n)
  show ?case
  proof (cases "used AND push_bit i 1 = 0")
    case True
    then show ?thesis using Suc.prems by (auto simp: single_def intro!: exI [of _ i])
  next
    case False
    then have "bit used i" by (simp add: and_exp_eq_0_iff_not_bit)
    then have "i \<noteq> j" using assms(2) by auto
    then show ?thesis using Suc.IH [of "i + 1"] Suc.prems False by (simp add: mult.commute)
  qed
qed

lemma free_id_exists:
  assumes "\<forall>h \<in> set hs. single (hk_id (hooks s h))" and "length hs < 64"
  shows "\<exists>j<64. \<not> bit (all_ids s hs) j"
proof (rule ccontr)
  assume "\<not> ?thesis"
  then have all: "\<forall>j<64. \<exists>h \<in> set hs. bit (hk_id (hooks s h)) j" by (auto simp: bit_all_ids)
  define f where "f h = (THE j. bit (hk_id (hooks s h)) j)" for h
  have "f h = j" if "h \<in> set hs" "bit (hk_id (hooks s h)) j" for h j
  proof -
    obtain j' where "\<forall>i. bit (hk_id (hooks s h)) i \<longleftrightarrow> i = j'" using single_bit assms(1) \<open>h \<in> set hs\<close> by blast
    then show ?thesis using that by (auto simp: f_def)
  qed
  then have "{..<64} \<subseteq> f ` set hs" using all by force
  then have "card {..<64 :: nat} \<le> card (set hs)" by (meson card_image_le card_mono finite_imageI List.finite_set le_trans)
  then show False using assms(2) card_length [of hs] by simp
qed

lemma put_loop_ok:
  "qpath (\<lambda>h. hk_next (hooks s h)) line hs \<Longrightarrow> length hs < fuel \<Longrightarrow> hook \<notin> set hs \<Longrightarrow>
    put_loop fuel s hook prv line used = Inr (Some (if hs = [] then prv else Some (last hs), used OR all_ids s hs))"
proof (induction hs arbitrary: fuel prv line used)
  case Nil
  then show ?case by (cases fuel) (auto simp: all_ids_def)
next
  case (Cons h hs)
  then show ?case by (cases fuel) (auto simp: all_ids_def or.assoc)
qed

lemma and_not_zero_bits: "a AND NOT b = 0 \<longleftrightarrow> (\<forall>j. bit a j \<longrightarrow> bit b j)" for a b :: u64
  using bit_imp_le_length [of a] by (auto simp: bit_eq_iff bit_simps)

lemma put_irq_handler_ok:
  assumes ok: "irqs_ok s ch" and d: "d < NR_IRQ" and hook: "\<forall>d<NR_IRQ. hook \<notin> set (ch d)" and len: "length (ch d) < 64" "length (ch d) < fuel"
  shows "\<exists>s'. put_irq_handler fuel (int d) hook handler s = Inr s' \<and> irqs_ok s' (ch(d := ch d @ [hook])) \<and>
    hk_handler (hooks s' hook) = handler \<and> hk_proc_ep (hooks s' hook) = hk_proc_ep (hooks s hook) \<and>
    (\<forall>h. h \<noteq> hook \<longrightarrow> hooks s' h = (hooks s h)\<lparr>hk_next := hk_next (hooks s' h)\<rparr>)"
proof -
  have L: "line_ok s d (ch d)" using ok d by (simp add: irqs_ok_def)
  note L' = L [unfolded line_ok_def]
  define i where "i = free_hook_id 64 (all_ids s (ch d)) 1"
  obtain j where "j < 64" "\<not> bit (all_ids s (ch d)) j" using free_id_exists [of "ch d" s] L' len(1) by blast
  then have i: "single i" "all_ids s (ch d) AND i = 0"
    using free_hook_id_spec [of j "all_ids s (ch d)" 0 64] by (simp_all add: i_def)
  then have i0: "i \<noteq> 0" by (auto simp: single_def)
  define lst where "lst = (if ch d = [] then None else Some (last (ch d)))"
  define s1 where "s1 = upd_hook hook (\<lambda>h. h\<lparr>hk_next := None, hk_handler := handler, hk_id := i, hk_irq := int d\<rparr>) s"
  define s2 where "s2 = upd_desc d (active_ids_update (\<lambda>a. a AND NOT i)) (set_link d lst (Some hook) s1)"
  define s3 where "s3 = (if active_ids (descs s2 d) = 0 then unmask_irq d s2 else s2)"
  have nh: "hook \<notin> set (ch d)" using hook d by blast
  have run: "put_irq_handler fuel (int d) hook handler s = Inr s3"
    using put_loop_ok [of s "d_handler (descs s d)" "ch d" fuel hook None 0] L' len(2) nh d i0
    by (simp add: put_irq_handler_def irq_to_desc_def i_def [symmetric] lst_def [symmetric] s1_def s2_def s3_def Let_def)
  have old: "hooks s3 h = (hooks s h)\<lparr>hk_next := if lst = Some h then Some hook else hk_next (hooks s h)\<rparr>" if "h \<noteq> hook" for h
    using that nh by (auto simp: s3_def s2_def s1_def set_link_def lst_def unmask_irq_def)
  have new: "hooks s3 hook = (hooks s hook)\<lparr>hk_next := None, hk_handler := handler, hk_id := i, hk_irq := int d\<rparr>"
    using nh last_in_set [of "ch d"] by (auto simp: s3_def s2_def s1_def set_link_def lst_def unmask_irq_def)
  have desc: "d_handler (descs s3 d) = (if ch d = [] then Some hook else d_handler (descs s d))" "d_chip (descs s3 d) = d_chip (descs s d)"
      "active_ids (descs s3 d) = active_ids (descs s d) AND NOT i" "\<And>e. e \<noteq> d \<Longrightarrow> descs s3 e = descs s e"
      "masked (descs s3 d) = (if active_ids (descs s3 d) = 0 then False else masked (descs s d))"
    using L' by (auto simp: s3_def s2_def s1_def set_link_def lst_def unmask_irq_def)
  have oldh: "hk_id (hooks s3 h) = hk_id (hooks s h) \<and> hk_irq (hooks s3 h) = hk_irq (hooks s h)" if "h \<in> set (ch d)" for h
    using old [of h] that nh by fastforce
  have mp: "map (\<lambda>h. hk_id (hooks s3 h)) (ch d) = map (\<lambda>h. hk_id (hooks s h)) (ch d)" using oldh by simp
  have "distinct (map (\<lambda>h. hk_id (hooks s3 h)) (ch d))" unfolding mp using L' by blast
  moreover have "hk_id (hooks s3 h) \<noteq> i" if "h \<in> set (ch d)" for h
  proof
    assume "hk_id (hooks s3 h) = i"
    then have "hk_id (hooks s h) = i" using oldh [OF that] by simp
    moreover obtain j where "bit i j" using single_bit [OF i(1)] by blast
    ultimately have "bit (all_ids s (ch d) AND i) j" using that by (auto simp: bit_and_iff bit_all_ids)
    then show False using i(2) by simp
  qed
  ultimately have ids: "distinct (map (\<lambda>h. hk_id (hooks s3 h)) (ch d @ [hook]))" using new by auto
  have all: "bit (all_ids s3 (ch d @ [hook])) j \<longleftrightarrow> bit (all_ids s (ch d)) j \<or> bit i j" for j
    using oldh new by (auto simp: bit_all_ids)
  have path: "qpath (\<lambda>h. hk_next (hooks s3 h)) (d_handler (descs s3 d)) (ch d @ [hook])"
  proof (cases "ch d = []")
    case True
    then show ?thesis using desc(1) new by simp
  next
    case False
    let ?n = "\<lambda>h. hk_next (hooks s h)"
    have "qpath (?n(last (ch d) := Some hook, hook := None)) (d_handler (descs s d)) (ch d @ [hook])"
      using qpath_snoc [of ?n "d_handler (descs s d)" "ch d" hook] L' False nh by blast
    moreover have "qpath (\<lambda>h. hk_next (hooks s3 h)) (d_handler (descs s d)) (ch d @ [hook]) =
        qpath (?n(last (ch d) := Some hook, hook := None)) (d_handler (descs s d)) (ch d @ [hook])"
      using old new False by (intro qpath_cong) (auto simp: lst_def)
    ultimately show ?thesis using desc(1) False by simp
  qed
  have e: "ch d = [] \<Longrightarrow> active_ids (descs s d) = 0" using L' by (auto simp: all_ids_def)
  have "line_ok s3 d (ch d @ [hook])"
    unfolding line_ok_def using path ids L' nh oldh new i(1) desc(2,3,5) all e
    by (auto simp: and_not_zero_bits bit_simps)
  moreover have "line_ok s3 e (ch e)" if "e < NR_IRQ" "e \<noteq> d" for e
  proof (rule line_ok_frame)
    show "line_ok s e (ch e)" using ok that by (simp add: irqs_ok_def)
    show "descs s3 e = descs s e" using desc(4) that by simp
    fix h assume h: "h \<in> set (ch e)"
    then have "h \<noteq> hook" "h \<notin> set (ch d)" using hook that irqs_ok_apart [OF ok] d by blast+
    moreover have "lst = Some h \<Longrightarrow> h \<in> set (ch d)" by (auto simp: lst_def split: if_splits)
    ultimately show "hooks s3 h = hooks s h" using old [of h] by auto
  qed
  ultimately have "irqs_ok s3 (ch(d := ch d @ [hook]))" by (simp add: irqs_ok_def)
  with run new old show ?thesis by (intro exI [of _ s3]) auto
qed

lemma rm_walk:
  "qpath (\<lambda>h. hk_next (hooks s h)) line bs \<Longrightarrow> \<forall>b \<in> set bs. hk_id (hooks s b) \<noteq> i \<Longrightarrow> length bs < fuel \<Longrightarrow>
    rm_loop fuel d i prv line s = Inr s"
proof (induction bs arbitrary: fuel prv line)
  case Nil
  then show ?case by (cases fuel) auto
next
  case (Cons b bs)
  then show ?case by (cases fuel) auto
qed

definition unlink_hook :: "nat \<Rightarrow> u64 \<Rightarrow> nat option \<Rightarrow> nat \<Rightarrow> irqs \<Rightarrow> irqs" where
  "unlink_hook d i prv h s =
     upd_desc d (active_ids_update (\<lambda>a. if a AND i \<noteq> 0 then a AND NOT i else a)) (set_link d prv (hk_next (hooks s h)) s)"

lemma unlink_other: "prv \<noteq> Some b \<Longrightarrow> hooks (unlink_hook d i prv h s) b = hooks s b"
  by (auto simp: unlink_hook_def set_link_def split: option.splits)

lemma rm_loop_ok:
  assumes "qpath (\<lambda>h. hk_next (hooks s h)) line (as @ h # bs)" and "\<forall>b \<in> set (as @ bs). hk_id (hooks s b) \<noteq> i" and "hk_id (hooks s h) = i"
    and "length (as @ h # bs) < fuel" and "distinct (as @ h # bs)" and "as = [] \<Longrightarrow> \<forall>b \<in> set bs. prv \<noteq> Some b"
  shows "rm_loop fuel d i prv line s = Inr (unlink_hook d i (if as = [] then prv else Some (last as)) h s)"
  using assms
proof (induction "as" arbitrary: fuel prv line)
  case Nil
  then obtain n where n: "fuel = Suc n" by (cases fuel) auto
  let ?s = "unlink_hook d i prv h s"
  have same: "hooks ?s b = hooks s b" if "b \<in> set bs" for b using Nil.prems(6) that by (intro unlink_other) auto
  have "qpath (\<lambda>h. hk_next (hooks ?s h)) (hk_next (hooks s h)) bs = qpath (\<lambda>h. hk_next (hooks s h)) (hk_next (hooks s h)) bs"
    by (rule qpath_cong) (simp add: same)
  then have "rm_loop n d i prv (hk_next (hooks s h)) ?s = Inr ?s"
    using Nil.prems n same by (intro rm_walk [of _ _ bs]) auto
  then show ?case using Nil.prems n by (simp add: unlink_hook_def Let_def)
next
  case (Cons a "as")
  then obtain n where n: "fuel = Suc n" by (cases fuel) auto
  have "rm_loop n d i (Some a) (hk_next (hooks s a)) s = Inr (unlink_hook d i (if as = [] then Some a else Some (last as)) h s)"
    using Cons.prems n by (intro Cons.IH) auto
  then show ?case using Cons.prems n by auto
qed

lemma qpath_skip:
  assumes "qpath n x (as @ b # f # cs)" and "distinct (as @ b # f # cs)"
  shows "qpath (n(b := n f)) x (as @ b # cs)"
proof -
  have "qpath (n(b := n f)) x (as @ b # cs) = qpath (n(b := n f, f := None)) x (as @ b # cs)"
    using assms(2) by (intro qpath_cong) auto
  then show ?thesis using qpath_unlink [OF assms] by simp
qed

lemma rm_irq_handler_ok:
  assumes ok: "irqs_ok s ch" and d: "d < NR_IRQ" and ch: "ch d = as @ hook # bs" and fuel: "length (ch d) < fuel"
  shows "\<exists>s'. rm_irq_handler fuel hook s = Inr s' \<and> irqs_ok s' (ch(d := as @ bs)) \<and>
    (\<forall>h. hooks s' h = (hooks s h)\<lparr>hk_next := hk_next (hooks s' h)\<rparr>)"
proof -
  have L: "line_ok s d (ch d)" using ok d by (simp add: irqs_ok_def)
  note L' = L [unfolded line_ok_def ch]
  define i where "i = hk_id (hooks s hook)"
  define lst where "lst = (if as = [] then None else Some (last as))"
  define s1 where "s1 = unlink_hook d i lst hook s"
  define s2 where "s2 = (if d_handler (descs s1 d) = None then mask_irq d s1 else if active_ids (descs s1 d) = 0 then unmask_irq d s1 else s1)"
  have "hk_id (hooks s hook) \<notin> (\<lambda>h. hk_id (hooks s h)) ` set (as @ bs)" using L' by auto
  then have ne: "\<forall>b \<in> set (as @ bs). hk_id (hooks s b) \<noteq> i" unfolding i_def by (metis imageI)
  have i: "single i" "hk_irq (hooks s hook) = int d" using L' by (auto simp: i_def)
  have "rm_loop fuel d i None (d_handler (descs s d)) s = Inr s1"
    unfolding s1_def lst_def using L' ne fuel ch by (intro rm_loop_ok [of _ _ _ _ bs]) (auto simp: i_def)
  then have run: "rm_irq_handler fuel hook s = Inr s2"
    using i(2) d by (simp add: rm_irq_handler_def irq_to_desc_def i_def [symmetric] s2_def)
  have hk: "hooks s2 = hooks s1" by (simp add: s2_def mask_irq_def unmask_irq_def)
  have old: "hooks s2 h = (hooks s h)\<lparr>hk_next := if lst = Some h then hk_next (hooks s hook) else hk_next (hooks s h)\<rparr>" for h
    unfolding hk s1_def unlink_hook_def set_link_def by (auto split: option.split)
  have path: "qpath (\<lambda>h. hk_next (hooks s2 h)) (d_handler (descs s1 d)) (as @ bs)"
  proof (cases "as = []")
    case True
    then show ?thesis using L' old by (simp add: s1_def unlink_hook_def set_link_def lst_def)
  next
    case False
    then obtain xs b where xs: "as = xs @ [b]" by (cases "as" rule: rev_cases) auto
    have "qpath ((\<lambda>h. hk_next (hooks s h))(b := hk_next (hooks s hook))) (d_handler (descs s d)) (xs @ b # bs)"
      using L' by (intro qpath_skip) (simp_all add: xs)
    moreover have "(\<lambda>h. hk_next (hooks s2 h)) = (\<lambda>h. hk_next (hooks s h))(b := hk_next (hooks s hook))" using old by (auto simp: lst_def xs)
    ultimately show ?thesis by (simp add: s1_def unlink_hook_def set_link_def lst_def xs)
  qed
  have emp: "d_handler (descs s1 d) = None \<longleftrightarrow> as @ bs = []" using path by (cases "as @ bs") auto
  have act: "active_ids (descs s1 d) = active_ids (descs s d) AND NOT i"
  proof -
    have "a AND i = 0 \<Longrightarrow> a AND NOT i = a" for a by (auto simp: bit_eq_iff bit_simps)
    then show ?thesis by (auto simp: s1_def unlink_hook_def set_link_def split: option.split)
  qed
  have desc: "d_handler (descs s2 d) = d_handler (descs s1 d)" "d_chip (descs s2 d) = d_chip (descs s d)"
      "active_ids (descs s2 d) = active_ids (descs s d) AND NOT i" "\<And>e. e \<noteq> d \<Longrightarrow> descs s2 e = descs s e"
      "as @ bs \<noteq> [] \<Longrightarrow> masked (descs s2 d) = (if active_ids (descs s2 d) = 0 then False else masked (descs s d))"
    using L' act emp by (auto simp: s2_def mask_irq_def unmask_irq_def s1_def unlink_hook_def set_link_def split: option.splits if_splits)
  have mp: "map (\<lambda>h. hk_id (hooks s2 h)) (as @ bs) = map (\<lambda>h. hk_id (hooks s h)) (as @ bs)" using old by simp
  have ids: "distinct (map (\<lambda>h. hk_id (hooks s2 h)) (as @ bs))" unfolding mp using L' by auto
  have all: "bit (all_ids s2 (as @ bs)) j" if "bit (all_ids s (as @ hook # bs)) j" "\<not> bit i j" for j
    using that old by (auto simp: bit_all_ids i_def)
  have "line_ok s2 d (as @ bs)"
    unfolding line_ok_def using path ids L' old desc all by (auto simp: and_not_zero_bits bit_simps)
  moreover have "line_ok s2 e (ch e)" if "e < NR_IRQ" "e \<noteq> d" for e
  proof (rule line_ok_frame)
    show "line_ok s e (ch e)" using ok that by (simp add: irqs_ok_def)
    show "descs s2 e = descs s e" using desc(4) that by simp
    fix h assume h: "h \<in> set (ch e)"
    then have "h \<notin> set (ch d)" using that irqs_ok_apart [OF ok] d by blast
    moreover have "lst = Some h \<Longrightarrow> h \<in> set (ch d)" by (auto simp: lst_def ch split: if_splits)
    ultimately show "hooks s2 h = hooks s h" using old [of h] by auto
  qed
  ultimately have "irqs_ok s2 (ch(d := as @ bs))" by (simp add: irqs_ok_def)
  with run old show ?thesis by (intro exI [of _ s2]) auto
qed

end
