(* ===== verification/Irq_Props.thy ===== *)
theory Irq_Props
  imports Irq
begin

text \<open>
  What interrupts do: every driver on the line is notified, the line stays masked until the drivers
  have reenabled it, and where the chains of hooks and the allocation of interrupts go wrong.
\<close>

unbundle bit_operations_syntax

section \<open>Notifying a driver\<close>

definition interrupt_task :: "kernel \<Rightarrow> bool" where
  "interrupt_task k \<longleftrightarrow> endpoint (proc_table k 3) = INTERRUPT"

text \<open>Interrupt \<open>n\<close> has reached \<open>p\<close>: it is pending for its next receive or being delivered.\<close>

definition interrupted :: "kernel \<Rightarrow> nat \<Rightarrow> nat \<Rightarrow> bool" where
  "interrupted k p n \<longleftrightarrow>
     (\<exists>i j. priv_ix (proc_table k p) = Some i \<and> priv_ix (proc_table k 3) = Some j \<and>
        GET_BIT (notify_pending (priv_table k i)) j \<and> bit (int_pending (priv_table k i)) n) \<or>
     (has_flag (flags (proc_table k p)) PF_DELIVER_MSG \<and> source (deliver_msg (proc_table k p)) = INTERRUPT \<and>
        mtype (deliver_msg (proc_table k p)) = NOTIFY_MSG \<and>
        (\<exists>w. body (deliver_msg (proc_table k p)) = INTERRUPTS w \<and> bit w n))"

lemma generic_irq_handler_ok:
  assumes ok: "kernel_ok k cur" and t: "interrupt_task k" and p: "endpt_proc k (hk_proc_ep h) = Some p" and n: "hk_notify_id h < 31"
  shows "\<exists>k'. generic_irq_handler h k = Inr (hk_policy h AND IRQ_REENABLE \<noteq> 0, k') \<and> kernel_ok k' cur \<and> same_procs k k' \<and>
    (\<forall>q. priv_ix (proc_table k' q) = priv_ix (proc_table k q)) \<and> interrupted k' p (unat (hk_notify_id h)) \<and>
    (\<forall>q m. interrupted k q m \<and> (q = p \<or> priv_ix (proc_table k q) \<noteq> priv_ix (proc_table k p)) \<longrightarrow> interrupted k' q m)"
proof -
  let ?n = "unat (hk_notify_id h)"
  obtain i where i: "i < NR_PRIV_PROCS" "priv_of k p = Inr i" "priv_ix (proc_table k p) = Some i"
    using privs_okE [OF kernel_okD(2) [OF ok] endpt_proc_live [OF p]] by metis
  define w where "w = int_pending (priv_table k i) OR push_bit ?n 1"
  have "?n < 64" using n by (simp add: word_less_nat_alt)
  then have w: "bit w ?n" "\<And>m. bit (int_pending (priv_table k i)) m \<Longrightarrow> bit w m" by (auto simp: w_def bit_simps)
  define k1 where "k1 = upd_priv i (int_pending_update (\<lambda>w. w OR push_bit ?n 1)) k"
  have k1: "proc_table k1 = proc_table k" "int_pending (priv_table k1 i) = w" "notify_pending (priv_table k1 j) = notify_pending (priv_table k j)"
    "j \<noteq> i \<Longrightarrow> priv_table k1 j = priv_table k j" for j by (simp_all add: k1_def w_def)
  have ok1: "kernel_ok k1 cur" unfolding k1_def by (rule kernel_ok_upd_priv [OF ok]) auto
  have nn: "\<not> 31 \<le> hk_notify_id h" using n by (simp add: not_le)
  have sp1: "same_procs k k1" by (simp add: same_procs_def k1)
  have p1: "endpt_proc k1 (hk_proc_ep h) = Some p" using p endpt_proc_cong [OF sp1] by simp
  have t1: "live k1 3" "endpoint (proc_table k1 3) = INTERRUPT" using t by (auto simp: interrupt_task_def live_def k1 proc_addr_def proc_slot_def)
  have m: "generic_irq_handler h k = bind_res (msg_notify k1 3 (hk_proc_ep h)) (\<lambda>(_, k). Inr (hk_policy h AND IRQ_REENABLE \<noteq> 0, k))"
    using p i nn by (simp add: generic_irq_handler_def k1_def Let_def proc_addr_def proc_slot_def)
  show ?thesis
  proof (cases "is_waiting_for k1 p INTERRUPT")
    case True
    define msg where "msg = reset_msg\<lparr>source := INTERRUPT, mtype := NOTIFY_MSG, body := INTERRUPTS w\<rparr>"
    define k2 where "k2 = upd_priv i (int_pending_update (\<lambda>_. 0)) k1"
    have ok2: "kernel_ok k2 cur" unfolding k2_def by (rule kernel_ok_upd_priv [OF ok1]) auto
    have k2: "proc_table k2 = proc_table k" "j \<noteq> i \<Longrightarrow> priv_table k2 j = priv_table k j" for j by (simp_all add: k2_def k1)
    have nf: "state (proc_table k2 p) \<noteq> PST_FREE_SLOT" using waiting_not_free [OF True] by (simp add: k1 k2)
    have "msg_notify k1 3 (hk_proc_ep h) = Inr (0, deliver_to p msg k2)"
      using True p1 i(3) t1(2) k1 by (simp add: msg_notify_def set_notify_msg_def priv_of_def Let_def k2_def msg_def)
    moreover have "interrupted (deliver_to p msg k2) p x" if "bit w x" for x
      using that by (simp add: interrupted_def deliver_to_table msg_def flag_simps)
    moreover have "interrupted (deliver_to p msg k2) q x" if "interrupted k q x" "q \<noteq> p" "priv_ix (proc_table k q) \<noteq> priv_ix (proc_table k p)" for q x
      using that i(3) by (auto simp: interrupted_def deliver_to_table k2)
    moreover have "interrupted k p x \<Longrightarrow> bit w x" for x
      using True i(3) w(2) kernel_okD(1) [OF ok, THEN ipc_invD(4)]
      by (auto simp: interrupted_def rendezvous_def is_waiting_for_def PST_IS_SET_def k1)
    moreover have "same_procs k (deliver_to p msg k2)"
      using deliver_to_same [OF kernel_okD(6) [OF ok2] nf] by (simp add: same_procs_def k2)
    ultimately show ?thesis
      using m kernel_ok_deliver [OF ok2 nf] w(1) by (auto simp: deliver_to_table k2)
  next
    case False
    obtain j where j: "priv_of k1 3 = Inr j" "priv_ix (proc_table k1 3) = Some j" "j < NR_PRIV_PROCS" "pr_id (priv_table k1 j) = j" "has_owner k1 j"
      using privs_okE [OF kernel_okD(2) [OF ok1] t1(1)] by metis
    define k2 where "k2 = upd_priv i (notify_pending_update (\<lambda>m. SET_BIT m j)) k1"
    have len: "length (notify_pending (priv_table k1 i)) = 1" using pending_bits(1) [OF kernel_okD(2) [OF ok1] i(1)] .
    have bit: "GET_BIT (SET_BIT (notify_pending (priv_table k1 i)) j) x \<longleftrightarrow> x = j \<or> GET_BIT (notify_pending (priv_table k1 i)) x" for x
      by (rule bm.member_insert) (use len j(3) in simp)
    have "kernel_ok k2 cur" unfolding k2_def
      by (rule kernel_ok_upd_priv [OF ok1]) (use j(5) in \<open>auto simp: length_SET_BIT bit\<close>)
    moreover have "msg_notify k1 3 (hk_proc_ep h) = Inr (0, k2)"
      using False p1 i(3) j t1(2) by (simp add: msg_notify_def priv_of_def k1 k2_def)
    moreover have "interrupted k2 p ?n" using w(1) i(3) j(2) bit by (simp add: interrupted_def k2_def k1)
    moreover have "interrupted k2 q x" if "interrupted k q x" for q x
      using that i(3) w(2) bit k1 by (auto simp: interrupted_def k2_def)
    ultimately show ?thesis using m by (simp add: k2_def k1 same_procs_def)
  qed
qed

section \<open>All hooks of a line\<close>

definition reenables :: "irq_hook \<Rightarrow> bool" where
  "reenables h \<longleftrightarrow> hk_policy h AND IRQ_REENABLE \<noteq> 0"

definition ids_after :: "irqs \<Rightarrow> nat list \<Rightarrow> u64 \<Rightarrow> u64" where
  "ids_after s hs a = fold (\<lambda>h a. if reenables (hooks s h) then a AND NOT (hk_id (hooks s h)) else a OR hk_id (hooks s h)) hs a"

lemma single_same: "single a \<Longrightarrow> single b \<Longrightarrow> bit a j \<Longrightarrow> bit b j \<Longrightarrow> a = b"
  by (auto simp: single_def bit_simps)

lemma and_zero_bits: "a AND b = 0 \<longleftrightarrow> (\<forall>i. bit a i \<longrightarrow> \<not> bit b i)" for a b :: u64
  using bit_imp_le_length [of a] unfolding bit_eq_iff [of "a AND b" 0] by (auto simp: bit_simps)

lemma ids_after_cong: "hooks s' = hooks s \<Longrightarrow> ids_after s' hs a = ids_after s hs a"
  unfolding ids_after_def by (erule ssubst) (rule refl)

lemma bit_ids_after:
  assumes "\<forall>h \<in> set hs. single (hk_id (hooks s h))" and "distinct (map (\<lambda>h. hk_id (hooks s h)) hs)"
  shows "bit (ids_after s hs a) j \<longleftrightarrow> (\<exists>h \<in> set hs. bit (hk_id (hooks s h)) j \<and> \<not> reenables (hooks s h)) \<or>
    bit a j \<and> \<not> (\<exists>h \<in> set hs. bit (hk_id (hooks s h)) j)"
  using assms
proof (induction hs arbitrary: a)
  case Nil
  then show ?case by (simp add: ids_after_def)
next
  case (Cons h hs)
  let ?id = "\<lambda>h. hk_id (hooks s h)" and ?a = "if reenables (hooks s h) then a AND NOT (hk_id (hooks s h)) else a OR hk_id (hooks s h)"
  have alone: "\<not> bit (?id x) j" if "x \<in> set hs" "bit (?id h) j" for x
  proof
    assume "bit (?id x) j"
    with that(2) Cons.prems(1) \<open>x \<in> set hs\<close> have "?id x = ?id h" by (auto intro: single_same)
    moreover have "?id h \<notin> ?id ` set hs" using Cons.prems(2) by simp
    ultimately show False using \<open>x \<in> set hs\<close> by (metis imageI)
  qed
  have "ids_after s (h # hs) a = ids_after s hs ?a" by (simp add: ids_after_def)
  moreover have "bit ?a j \<longleftrightarrow> (if bit (?id h) j then \<not> reenables (hooks s h) else bit a j)"
    using bit_imp_le_length [of a j] by (auto simp: bit_simps)
  ultimately show ?case using Cons.IH [of ?a] Cons.prems alone by (auto split: if_splits)
qed

text \<open>The hooks of a line belong to drivers that exist and have privileges of their own.\<close>

definition driven :: "kernel \<Rightarrow> irqs \<Rightarrow> nat list \<Rightarrow> bool" where
  "driven k s hs \<longleftrightarrow>
     (\<forall>h \<in> set hs. hk_handler (hooks s h) = Generic_Irq \<and> hk_notify_id (hooks s h) < 31 \<and> endpt_proc k (hk_proc_ep (hooks s h)) \<noteq> None) \<and>
     (\<forall>h \<in> set hs. \<forall>h' \<in> set hs. \<forall>p p'. endpt_proc k (hk_proc_ep (hooks s h)) = Some p \<longrightarrow>
        endpt_proc k (hk_proc_ep (hooks s h')) = Some p' \<longrightarrow> p = p' \<or> priv_ix (proc_table k p) \<noteq> priv_ix (proc_table k p'))"

lemma hooks_loop_ok:
  assumes "kernel_ok k cur" and "interrupt_task k" and "qpath (\<lambda>h. hk_next (hooks s h)) line hs" and "driven k s hs" and "length hs < fuel"
  shows "\<exists>s' k'. hooks_loop fuel kh d line s k = Inr (s', k') \<and> hooks s' = hooks s \<and>
    descs s' = (descs s)(d := (descs s d)\<lparr>active_ids := ids_after s hs (active_ids (descs s d))\<rparr>) \<and> kernel_ok k' cur \<and> same_procs k k' \<and>
    (\<forall>p m. (\<exists>h \<in> set hs. endpt_proc k (hk_proc_ep (hooks s h)) = Some p \<and> m = unat (hk_notify_id (hooks s h))) \<longrightarrow> interrupted k' p m) \<and>
    (\<forall>p m. interrupted k p m \<and> (\<forall>h \<in> set hs. \<forall>q. endpt_proc k (hk_proc_ep (hooks s h)) = Some q \<longrightarrow> p = q \<or>
        priv_ix (proc_table k p) \<noteq> priv_ix (proc_table k q)) \<longrightarrow> interrupted k' p m)"
  using assms
proof (induction hs arbitrary: fuel line s k)
  case Nil
  then show ?case by (cases fuel) (auto simp: ids_after_def)
next
  case (Cons h hs)
  then obtain n where fuel: "fuel = Suc n" by (cases fuel) auto
  have line: "line = Some h" "qpath (\<lambda>h. hk_next (hooks s h)) (hk_next (hooks s h)) hs" using Cons.prems(3) by auto
  obtain p where h: "hk_handler (hooks s h) = Generic_Irq" "hk_notify_id (hooks s h) < 31" "endpt_proc k (hk_proc_ep (hooks s h)) = Some p"
    using Cons.prems(4) by (auto simp: driven_def)
  obtain k1 where k1: "generic_irq_handler (hooks s h) k = Inr (reenables (hooks s h), k1)" "kernel_ok k1 cur" "same_procs k k1"
      "\<forall>q. priv_ix (proc_table k1 q) = priv_ix (proc_table k q)" "interrupted k1 p (unat (hk_notify_id (hooks s h)))"
      "\<forall>q m. interrupted k q m \<and> (q = p \<or> priv_ix (proc_table k q) \<noteq> priv_ix (proc_table k p)) \<longrightarrow> interrupted k1 q m"
    using generic_irq_handler_ok [OF Cons.prems(1,2) h(3,2)] unfolding reenables_def by blast
  define s1 where "s1 = upd_desc d (active_ids_update (\<lambda>a. if reenables (hooks s h) then a AND NOT (hk_id (hooks s h)) else a OR hk_id (hooks s h))) s"
  have ep: "endpt_proc k1 e = endpt_proc k e" for e by (rule endpt_proc_cong [OF k1(3)])
  have drv: "driven k1 s1 hs" using Cons.prems(4) by (simp add: driven_def ep k1(4) s1_def)
  have t1: "interrupt_task k1" using Cons.prems(2) k1(3) by (simp add: interrupt_task_def same_procs_def)
  have l1: "qpath (\<lambda>h. hk_next (hooks s1 h)) (hk_next (hooks s h)) hs" using line(2) by (simp add: s1_def)
  have len: "length hs < n" using Cons.prems(5) fuel by simp
  obtain s' k' where IH: "hooks_loop n kh d (hk_next (hooks s h)) s1 k1 = Inr (s', k')" "hooks s' = hooks s1"
    "descs s' = (descs s1)(d := (descs s1 d)\<lparr>active_ids := ids_after s1 hs (active_ids (descs s1 d))\<rparr>)" "kernel_ok k' cur" "same_procs k1 k'"
    "\<forall>p m. (\<exists>h \<in> set hs. endpt_proc k1 (hk_proc_ep (hooks s1 h)) = Some p \<and> m = unat (hk_notify_id (hooks s1 h))) \<longrightarrow> interrupted k' p m"
    "\<forall>p m. interrupted k1 p m \<and> (\<forall>h \<in> set hs. \<forall>q. endpt_proc k1 (hk_proc_ep (hooks s1 h)) = Some q \<longrightarrow> p = q \<or>
        priv_ix (proc_table k1 p) \<noteq> priv_ix (proc_table k1 q)) \<longrightarrow> interrupted k' p m"
    using Cons.IH [OF k1(2) t1 l1 drv len] by blast
  have "(a OR i) AND NOT i = a AND NOT i" for a i :: u64 by (auto simp: bit_eq_iff bit_simps)
  then have "hooks_loop fuel kh d line s k = hooks_loop n kh d (hk_next (hooks s h)) s1 k1"
    using k1(1) h(1) line(1) fuel by (cases "descs s d") (simp add: call_hook_def Let_def s1_def upd_desc_def)
  moreover have "ids_after s1 hs (active_ids (descs s1 d)) = ids_after s (h # hs) (active_ids (descs s d))"
    using ids_after_cong [of s1 s] by (simp add: ids_after_def s1_def)
  moreover have first: "interrupted k' p (unat (hk_notify_id (hooks s h)))"
    using IH(7) k1(5) Cons.prems(4) h(3) by (auto simp: ep k1(4) s1_def driven_def)
  moreover have "interrupted k' q m" if "interrupted k q m"
      "\<forall>h \<in> set (h # hs). \<forall>r. endpt_proc k (hk_proc_ep (hooks s h)) = Some r \<longrightarrow> q = r \<or> priv_ix (proc_table k q) \<noteq> priv_ix (proc_table k r)" for q m
    using that k1(6) IH(7) h(3) by (auto simp: ep k1(4) s1_def)
  ultimately show ?case
    using IH(1-6) h(3) same_procs_trans [OF k1(3) IH(5)] by (intro exI [of _ s'] exI [of _ k']) (auto simp: ep s1_def)
qed

lemma handle_simple_irq_ok:
  assumes irqs: "irqs_ok s ch" "d < NR_IRQ" and ok: "kernel_ok k cur" "interrupt_task k" "driven k s (ch d)"
    and fuel: "length (ch d) < fuel"
  shows "\<exists>s' k'. handle_simple_irq fuel kh d s k = Inr (s', k') \<and> kernel_ok k' cur \<and> irqs_ok s' ch \<and> hooks s' = hooks s \<and>
    (\<forall>h \<in> set (ch d). \<forall>p. endpt_proc k (hk_proc_ep (hooks s h)) = Some p \<longrightarrow> interrupted k' p (unat (hk_notify_id (hooks s h)))) \<and>
    (\<forall>h \<in> set (ch d). active_ids (descs s' d) AND hk_id (hooks s h) = 0 \<longleftrightarrow> reenables (hooks s h)) \<and>
    (masked (descs s' d) \<longleftrightarrow> (\<exists>h \<in> set (ch d). \<not> reenables (hooks s h)))"
proof -
  let ?hs = "ch d" and ?id = "\<lambda>h. hk_id (hooks s h)"
  have L: "line_ok s d ?hs" using irqs(1,2) by (simp add: irqs_ok_def)
  note L' = L [unfolded line_ok_def]
  define s1 where "s1 = mask_irq d s"
  have s1: "hooks s1 = hooks s" "d_handler (descs s1 d) = d_handler (descs s d)" "active_ids (descs s1 d) = active_ids (descs s d)"
      "masked (descs s1 d)" "d_chip (descs s1 d) = d_chip (descs s d)" "e \<noteq> d \<Longrightarrow> descs s1 e = descs s e" for e
    using L' by (simp_all add: s1_def mask_irq_def)
  have path: "qpath (\<lambda>h. hk_next (hooks s1 h)) (d_handler (descs s d)) ?hs" using L' by (simp add: s1)
  have drv: "driven k s1 ?hs" using ok(3) by (simp add: driven_def s1)
  define a where "a = ids_after s ?hs (active_ids (descs s d))"
  obtain s2 k' where r: "hooks_loop fuel kh d (d_handler (descs s d)) s1 k = Inr (s2, k')" "hooks s2 = hooks s"
      "descs s2 = (descs s1)(d := (descs s1 d)\<lparr>active_ids := a\<rparr>)" "kernel_ok k' cur"
      "\<forall>p m. (\<exists>h \<in> set ?hs. endpt_proc k (hk_proc_ep (hooks s h)) = Some p \<and> m = unat (hk_notify_id (hooks s h))) \<longrightarrow> interrupted k' p m"
    using hooks_loop_ok [OF ok(1,2) path drv fuel, of kh d] unfolding s1(1,3) ids_after_cong [OF s1(1)] a_def by blast
  define s3 where "s3 = (if active_ids (descs s2 d) = 0 then unmask_irq d s2 else s2)"
  have run: "handle_simple_irq fuel kh d s k = Inr (s3, k')"
    using r(1) by (simp add: handle_simple_irq_def s1_def [symmetric] s3_def)
  have s3: "hooks s3 = hooks s" "active_ids (descs s3 d) = a" "masked (descs s3 d) \<longleftrightarrow> a \<noteq> 0" "d_handler (descs s3 d) = d_handler (descs s d)"
      "d_chip (descs s3 d) = d_chip (descs s d)" "e \<noteq> d \<Longrightarrow> descs s3 e = descs s e" for e
    using r(2,3) s1 L' by (auto simp: s3_def unmask_irq_def)
  have bits: "bit a j \<longleftrightarrow> (\<exists>h \<in> set ?hs. bit (?id h) j \<and> \<not> reenables (hooks s h))" for j
    using bit_ids_after [of ?hs s "active_ids (descs s d)" j] L' unfolding a_def and_not_zero_bits bit_all_ids by blast
  have alone: "?id h = ?id h'" if "h \<in> set ?hs" "h' \<in> set ?hs" "bit (?id h) j" "bit (?id h') j" for h h' j
    using that L' single_same by blast
  have inj: "inj_on ?id (set ?hs)" using L' by (simp add: distinct_map)
  have act: "a AND ?id h = 0 \<longleftrightarrow> reenables (hooks s h)" if h: "h \<in> set ?hs" for h
  proof -
    obtain j where j: "\<forall>i. bit (?id h) i \<longleftrightarrow> i = j" "j < 64" using single_bit L' h by blast
    have "a AND ?id h = 0 \<longleftrightarrow> \<not> bit a j" unfolding and_zero_bits using j by auto
    moreover have "bit a j \<longleftrightarrow> \<not> reenables (hooks s h)"
      unfolding bits using j h alone inj by (metis inj_onD)
    ultimately show ?thesis by simp
  qed
  have msk: "a \<noteq> 0 \<longleftrightarrow> (\<exists>h \<in> set ?hs. \<not> reenables (hooks s h))"
  proof
    assume "a \<noteq> 0"
    then obtain j where "bit a j" unfolding bit_eq_iff [of a 0] by auto
    then show "\<exists>h \<in> set ?hs. \<not> reenables (hooks s h)" using bits by blast
  next
    assume "\<exists>h \<in> set ?hs. \<not> reenables (hooks s h)"
    then obtain h where "h \<in> set ?hs" "a AND ?id h \<noteq> 0" using act by blast
    then show "a \<noteq> 0" by auto
  qed
  have "a AND NOT (all_ids s3 ?hs) = 0" unfolding and_not_zero_bits bit_all_ids s3(1) using bits by blast
  then have "line_ok s3 d ?hs" unfolding line_ok_def s3(1-5) using L' by blast
  moreover have "line_ok s3 e (ch e)" if "e < NR_IRQ" "e \<noteq> d" for e
  proof (rule line_ok_frame)
    show "line_ok s e (ch e)" using irqs(1) that(1) unfolding irqs_ok_def by blast
    show "descs s3 e = descs s e" by (rule s3(6) [OF that(2)])
    show "hooks s3 h = hooks s h" for h by (simp only: s3(1))
  qed
  ultimately have "line_ok s3 e (ch e)" if "e < NR_IRQ" for e using that by (cases "e = d") simp_all
  then have "irqs_ok s3 ch" by (simp add: irqs_ok_def)
  moreover have "\<forall>h \<in> set ?hs. \<forall>p. endpt_proc k (hk_proc_ep (hooks s h)) = Some p \<longrightarrow> interrupted k' p (unat (hk_notify_id (hooks s h)))"
    using r(5) by blast
  ultimately show ?thesis
    using run r(4) s3(1,2,3) act msk by (intro exI [of _ s3] exI [of _ k']) simp
qed

section \<open>Properties\<close>

text \<open>
  C17: An interrupt on a line whose hooks belong to live drivers is handled without a fault: every one
  of them is notified of it, exactly the hooks whose policy does not reenable the interrupt stay
  active, and the line is left masked exactly when there is such a hook.  The chains and the kernel
  stay well formed.
\<close>

theorem interrupt_reaches_drivers:
  assumes irqs: "irqs_ok s ch" "d < NR_IRQ" and ok: "kernel_ok k cur" "interrupt_task k" "driven k s (ch d)"
    and fuel: "length (ch d) < fuel"
  shows "\<exists>s' k'. handle_simple_irq fuel kh d s k = Inr (s', k') \<and> kernel_ok k' cur \<and> irqs_ok s' ch \<and> hooks s' = hooks s \<and>
    (\<forall>h \<in> set (ch d). \<forall>p. endpt_proc k (hk_proc_ep (hooks s h)) = Some p \<longrightarrow> interrupted k' p (unat (hk_notify_id (hooks s h)))) \<and>
    (\<forall>h \<in> set (ch d). active_ids (descs s' d) AND hk_id (hooks s h) = 0 \<longleftrightarrow> reenables (hooks s h)) \<and>
    (masked (descs s' d) \<longleftrightarrow> (\<exists>h \<in> set (ch d). \<not> reenables (hooks s h)))"
  using assms by (rule handle_simple_irq_ok)

text \<open>
  C18: Adding a hook to a line puts it behind the hooks already there, with an identifier of its own, and
  removing it again restores the chain; both leave all lines well formed, each masked exactly when one
  of its hooks is active.
\<close>

theorem hook_roundtrip:
  assumes "irqs_ok s ch" and "d < NR_IRQ" and "\<forall>d<NR_IRQ. hook \<notin> set (ch d)" and "length (ch d) < 63" and "64 \<le> fuel"
  shows "\<exists>s1 s2. put_irq_handler fuel (int d) hook handler s = Inr s1 \<and> irqs_ok s1 (ch(d := ch d @ [hook])) \<and>
    rm_irq_handler fuel hook s1 = Inr s2 \<and> irqs_ok s2 ch"
proof -
  obtain s1 where s1: "put_irq_handler fuel (int d) hook handler s = Inr s1" "irqs_ok s1 (ch(d := ch d @ [hook]))"
    using put_irq_handler_ok [OF assms(1-3), of fuel handler] assms(4,5) by auto
  obtain s2 where "rm_irq_handler fuel hook s1 = Inr s2" "irqs_ok s2 ((ch(d := ch d @ [hook]))(d := ch d))"
    using rm_irq_handler_ok [OF s1(2) assms(2), of "ch d" hook "[]" fuel] assms(4,5) by auto
  with s1 show ?thesis by auto
qed

text \<open>
  C39: Nothing takes the hooks of a process off their lines when it is cleared: the next interrupt on
  such a line makes the kernel panic.
\<close>

theorem dead_driver_panics:
  assumes "d_handler (descs s d) = Some h" and "hk_handler (hooks s h) = Generic_Irq"
    and "hk_proc_ep (hooks s h) \<notin> {ANY, NO_TASK, SELF}" and "sys_clear k (hk_proc_ep (hooks s h)) = Inr (0, k')"
  shows "handle_simple_irq (Suc fuel) kh d s k' = Inl Panic"
proof -
  let ?ep = "hk_proc_ep (hooks s h)"
  obtain n where n: "verify_endpt k ?ep = Some (Some n)" "n = ENDPOINT_P ?ep"
    using assms(3,4) by (auto simp: sys_clear_def verify_endpt_def Let_def split: if_splits)
  have "state (proc_table k' (proc_addr n)) = PST_FREE_SLOT"
    using assms(4) n(1) by (auto simp: sys_clear_def stored_slot_def Let_def release_fpu_def PST_SETFLAGS_def split: if_splits)
  then have "endpt_proc k' ?ep = None"
    using assms(3) n(2) by (auto simp: endpt_proc_def verify_endpt_def Let_def)
  then show ?thesis
    using assms(1,2) by (simp add: handle_simple_irq_def call_hook_def generic_irq_handler_def mask_irq_def Let_def)
qed

lemma find_hook_first:
  "P (hooks s i) \<Longrightarrow> (\<And>j. a \<le> j \<Longrightarrow> j < i \<Longrightarrow> \<not> P (hooks s j)) \<Longrightarrow> a \<le> i \<Longrightarrow> i < a + n \<Longrightarrow> find_hook n a P s = Some i"
proof (induction n arbitrary: a)
  case (Suc n)
  then show ?case by (cases "a = i") auto
qed simp

text \<open>
  Asking for another line with the same notification number takes the hook along without taking it
  off its old line: the old chain now ends with that hook, and the hooks behind it are lost.
\<close>

theorem moved_hook_cuts_chain:
  assumes ok: "irqs_ok s ch" and d: "d < NR_IRQ" "e < NR_IRQ" "d \<noteq> e" and ch: "ch d = as @ i # bs" "length (ch e) < 64" and i: "i < NR_IRQ_HOOKS"
    and own: "hk_proc_ep (hooks s i) = ep" "hk_notify_id (hooks s i) = of_int n"
    and first: "\<forall>j<i. \<not> (hk_proc_ep (hooks s j) = ep \<and> hk_notify_id (hooks s j) = of_int n)"
  shows "\<exists>s'. set_policy 65 ep (int e) n pol s = Inr (0, int i + 1, s') \<and>
    qpath (\<lambda>h. hk_next (hooks s' h)) (d_handler (descs s' d)) (as @ [i])"
proof -
  have L: "line_ok s d (as @ i # bs)" "line_ok s e (ch e)" using ok d ch(1) by (auto simp: irqs_ok_def)
  note L' = L [unfolded line_ok_def]
  define s1 where "s1 = upd_hook i (\<lambda>h. h\<lparr>hk_proc_ep := ep, hk_notify_id := of_int n, hk_policy := pol\<rparr>) s"
  have nx: "(\<lambda>h. hk_next (hooks s1 h)) = (\<lambda>h. hk_next (hooks s h))" by (auto simp: s1_def)
  have ids: "all_ids s1 (ch e) = all_ids s (ch e)" unfolding all_ids_def by (rule arg_cong [where f = "\<lambda>f. foldr f (ch e) 0"]) (auto simp: s1_def)
  have ie: "i \<notin> set (ch e)" using irqs_ok_apart [OF ok d(1,2)] ch(1) d(3) by auto
  obtain j where "j < 64" "\<not> bit (all_ids s (ch e)) j" using free_id_exists [of "ch e" s] L'(2) ch(2) by blast
  then have nz: "free_hook_id 64 (all_ids s (ch e)) 1 \<noteq> 0"
    using free_hook_id_spec [of j "all_ids s (ch e)" 0 64] by (auto simp: single_def)
  define lst where "lst = (if ch e = [] then None else Some (last (ch e)))"
  have loop: "put_loop 65 s1 i None (d_handler (descs s1 e)) 0 = Inr (Some (lst, all_ids s (ch e)))"
    using put_loop_ok [of s1 "d_handler (descs s e)" "ch e" 65 i None 0] L'(2) nx ids ch(2) ie by (simp add: lst_def s1_def)
  define w where "w = free_hook_id 64 (all_ids s (ch e)) 1"
  define s2 where "s2 = set_link e lst (Some i) (upd_hook i (\<lambda>h. h\<lparr>hk_next := None, hk_handler := Generic_Irq, hk_id := w, hk_irq := int e\<rparr>) s1)"
  define s3 where "s3 = upd_desc e (active_ids_update (\<lambda>a. a AND NOT w)) s2"
  define s' where "s' = (if active_ids (descs s3 e) = 0 then unmask_irq e s3 else s3)"
  have run: "put_irq_handler 65 (int e) i Generic_Irq s1 = Inr s'"
    using loop nz d(2) by (simp add: put_irq_handler_def irq_to_desc_def Let_def w_def [symmetric] s2_def s3_def s'_def)
  have h': "hooks s' = hooks s2" "descs s' d = descs s2 d" using d(3) by (simp_all add: s'_def s3_def unmask_irq_def)
  have d': "d_handler (descs s' d) = d_handler (descs s d)"
    using d(3) by (simp add: h' s2_def set_link_def s1_def split: option.split)
  have lst: "lst \<noteq> Some h" if "h \<notin> set (ch e)" for h
    using that last_in_set [of "ch e"] by (cases "ch e = []") (auto simp: lst_def)
  have i': "hk_next (hooks s' i) = None"
    using lst [OF ie] by (auto simp: h' s2_def set_link_def split: option.split)
  have o': "hk_next (hooks s' h) = hk_next (hooks s h)" if "h \<noteq> i" "h \<notin> set (ch e)" for h
    using that(1) lst [OF that(2)] by (auto simp: h' s2_def set_link_def s1_def split: option.split)
  have "find_hook NR_IRQ_HOOKS 0 (\<lambda>h. hk_proc_ep h = ep \<and> hk_notify_id h = of_int n) s = Some i"
    using own first i by (intro find_hook_first) auto
  then have "set_policy 65 ep (int e) n pol s = Inr (0, int i + 1, s')"
    using run d(2) by (simp add: set_policy_def s1_def)
  moreover have "qpath (\<lambda>h. hk_next (hooks s h)) x (xs @ i # bs) \<Longrightarrow> set xs \<subseteq> set as \<Longrightarrow> qpath (\<lambda>h. hk_next (hooks s' h)) x (xs @ [i])" for x xs
  proof (induction xs arbitrary: x)
    case (Cons a xs)
    then have "a \<in> set (ch d)" "a \<noteq> i" using ch(1) L'(1) by auto
    then have "a \<notin> set (ch e)" using irqs_ok_apart [OF ok d(1,2)] d(3) by blast
    then show ?case using Cons o' \<open>a \<noteq> i\<close> by simp
  qed (use i' in simp)
  ultimately show ?thesis using L'(1) d' by auto
qed

section \<open>Allocation\<close>

text \<open>
  The check that the interrupts asked for exist is done in 32 bits.  A driver that asks for
  \<open>2 ^ 31 - 5\<close> interrupts from number 10 on passes it, and the kernel writes far outside the map of
  allocated interrupts.
\<close>

theorem irq_alloc_out_of_bounds:
  assumes "\<not> GET_BIT (allocated_irqs s) 10" and "length (allocated_irqs s) = 1"
  shows "sys_irqctl fuel ops msi k p (IRQ_ALLOC 10 (2 ^ 31 - 5)) s = Inl OutOfBounds"
proof -
  have "bitmap_find_next_zero_area (allocated_irqs s) NR_IRQ 10 (nat (2 ^ 31 - 5)) = Inr (10 + nat (2 ^ 31 - 5))"
    using assms by (simp add: bitmap_find_next_zero_area_def zero_area_loop.simps bit_at_def chunk_at_def)
  moreover have "to_int32 (10 + nat (2 ^ 31 - 5)) = 5 - 2 ^ 31" by (simp add: to_int32_def)
  ultimately show ?thesis
    by (simp add: sys_irqctl_def irq_alloc_from_def irq_alloc_descs_def Let_def set_irqs_def)
qed

text \<open>
  Because the search for a free area can return a busy one, a driver can be given an interrupt
  that another one has already allocated.
\<close>

theorem irq_alloc_shares:
  assumes "allocated_irqs s = [push_bit 63 1]"
  shows "irq_alloc_from 62 2 s = Inr (62, s\<lparr>allocated_irqs := [push_bit 62 3]\<rparr>) \<and> GET_BIT (allocated_irqs s) 63"
proof -
  have b: "GET_BIT (allocated_irqs s) 63" "\<not> GET_BIT (allocated_irqs s) 62" by (simp_all add: assms GET_BIT_def)
  have "first_set_before (allocated_irqs s) 62 64 = Inr 63"
    using b assms by (simp add: first_set_before.simps bit_at_def chunk_at_def)
  then have "bitmap_find_next_zero_area (allocated_irqs s) NR_IRQ 62 2 = Inr 62"
    using b assms by (simp add: bitmap_find_next_zero_area_def zero_area_loop.simps bit_at_def chunk_at_def)
  moreover have "to_int32 62 = 62" by (simp add: to_int32_def)
  moreover have "set_irqs 62 2 [push_bit 63 1] = Inr [push_bit 62 3]"
    by (simp add: set_irqs_def SET_BIT_def upt_rec numeral_2_eq_2)
  ultimately show ?thesis using b assms by (simp add: irq_alloc_from_def irq_alloc_descs_def Let_def)
qed

section \<open>An example\<close>

text \<open>Line 5 has a hook of process 5, which does not reenable the interrupt, and one of process 6, which does.\<close>

definition free_hook :: irq_hook where
  "free_hook = \<lparr>hk_irq = 0, hk_id = 0, hk_handler = Generic_Irq, hk_next = None, hk_proc_ep = NO_TASK, hk_notify_id = 0, hk_policy = 0\<rparr>"

definition free_desc :: irq_desc where
  "free_desc = \<lparr>d_hwirq = 0, d_chip = \<lparr>can_mask = True, can_unmask = True\<rparr>, d_domain = None, d_flow = handle_simple,
     d_handler = None, active_ids = 0, masked = False\<rparr>"

definition two_hooks :: irqs where
  "two_hooks = \<lparr>hooks = (\<lambda>_. free_hook)
       (0 := free_hook\<lparr>hk_irq := 5, hk_id := 1, hk_next := Some 1, hk_proc_ep := 5, hk_notify_id := 3\<rparr>,
        1 := free_hook\<lparr>hk_irq := 5, hk_id := 2, hk_proc_ep := 6, hk_notify_id := 4, hk_policy := IRQ_REENABLE\<rparr>),
     descs = (\<lambda>_. free_desc)(5 := free_desc\<lparr>d_handler := Some 0\<rparr>),
     domains = (\<lambda>_. \<lparr>dom_fwid = IRQ_DOMAIN_NONE, dom_ops = 0, hwirq_max = 0, revmap = \<lambda>_. None\<rparr>), allocated_irqs = [push_bit 63 1]\<rparr>"

definition two_chain :: "nat \<Rightarrow> nat list" where
  "two_chain d = (if d = 5 then [0, 1] else [])"

lemma two_hooks_ok: "irqs_ok two_hooks two_chain"
proof -
  have "single 1" "single 2" unfolding single_def by (intro exI [of _ 0], simp) (intro exI [of _ 1], simp)
  then show ?thesis
    by (simp add: irqs_ok_def line_ok_def two_hooks_def two_chain_def free_desc_def free_hook_def all_ids_def)
qed

lemma two_hooks_driven: "driven (quiet (\<lambda>_. PST_RECEIVING)) two_hooks [0, 1]"
  using quiet_endpt [of 9 "\<lambda>_. PST_RECEIVING"] quiet_endpt [of 10 "\<lambda>_. PST_RECEIVING"]
  by (auto simp: driven_def two_hooks_def free_hook_def quiet_table quiet_priv_def)

lemma receiving_ok: "kernel_ok (quiet (\<lambda>_. PST_RECEIVING)) 0" "interrupt_task (quiet (\<lambda>_. PST_RECEIVING))"
  by (rule quiet_ok) (auto simp: flag_simps interrupt_task_def quiet_table)

theorem interrupt_reaches_drivers_witness:
  "\<exists>s' k'. handle_simple_irq 3 (\<lambda>_ k. Inr (False, k)) 5 two_hooks (quiet (\<lambda>_. PST_RECEIVING)) = Inr (s', k') \<and> kernel_ok k' 0 \<and> interrupted k' 9 3 \<and>
    interrupted k' 10 4 \<and> masked (descs s' 5)"
  using interrupt_reaches_drivers [OF two_hooks_ok _ receiving_ok, of 5 3 "\<lambda>_ k. Inr (False, k)"] two_hooks_driven
    quiet_endpt [of 9 "\<lambda>_. PST_RECEIVING"] quiet_endpt [of 10 "\<lambda>_. PST_RECEIVING"]
  by (auto simp: two_chain_def) (auto simp: two_hooks_def free_hook_def reenables_def)

theorem hook_roundtrip_witness:
  "\<exists>s1 s2. put_irq_handler 64 (int 5) 2 Generic_Irq two_hooks = Inr s1 \<and> irqs_ok s1 (two_chain(5 := two_chain 5 @ [2])) \<and>
    rm_irq_handler 64 2 s1 = Inr s2 \<and> irqs_ok s2 two_chain"
  by (rule hook_roundtrip [OF two_hooks_ok]) (simp_all add: two_chain_def)

theorem dead_driver_panics_witness:
  "\<exists>k'. sys_clear (quiet (\<lambda>_. PST_RECEIVING)) 5 = Inr (0, k') \<and> handle_simple_irq 3 (\<lambda>_ k. Inr (False, k)) 5 two_hooks k' = Inl Panic"
proof -
  have "verify_endpt (quiet (\<lambda>_. PST_RECEIVING)) 5 = Some (Some 5)"
    by (simp add: verify_endpt_def Let_def ENDPOINT_P_mod proc_slot_def proc_addr_def quiet_table)
  then obtain k' where "sys_clear (quiet (\<lambda>_. PST_RECEIVING)) 5 = Inr (0, k')" by (simp add: sys_clear_def stored_slot_def)
  then show ?thesis
    using dead_driver_panics [of two_hooks 5 0 "quiet (\<lambda>_. PST_RECEIVING)" k' 2 "\<lambda>_ k. Inr (False, k)"]
    by (simp add: two_hooks_def free_desc_def free_hook_def numeral_3_eq_3)
qed

theorem moved_hook_cuts_chain_witness:
  "\<exists>s'. set_policy 65 5 (int 6) 3 0 two_hooks = Inr (0, int 0 + 1, s') \<and> qpath (\<lambda>h. hk_next (hooks s' h)) (d_handler (descs s' 5)) ([] @ [0])"
  by (rule moved_hook_cuts_chain [OF two_hooks_ok, of 5 6 "[]" 0 "[1]"]) (simp_all add: two_chain_def two_hooks_def free_hook_def)

theorem irq_alloc_out_of_bounds_witness:
  "sys_irqctl 64 (\<lambda>_. \<lparr>op_alloc = None, op_translate = None\<rparr>) (\<lambda>_. 0) (quiet (\<lambda>_. PST_RECEIVING)) 9 (IRQ_ALLOC 10 (2 ^ 31 - 5)) two_hooks = Inl OutOfBounds"
  by (rule irq_alloc_out_of_bounds) (simp_all add: two_hooks_def GET_BIT_def)

theorem irq_alloc_shares_witness:
  "irq_alloc_from 62 2 two_hooks = Inr (62, two_hooks\<lparr>allocated_irqs := [push_bit 62 3]\<rparr>) \<and> GET_BIT (allocated_irqs two_hooks) 63"
  by (rule irq_alloc_shares) (simp add: two_hooks_def)

end
