(* ===== verification/Kernel_Run.thy ===== *)
theory Kernel_Run
  imports Clock Irq_Props Ipc_Frame
begin

text \<open>
  The kernel as a transition system: calls of the running process, clock ticks and interrupts in any
  order.
\<close>

unbundle bit_operations_syntax

section \<open>What message passing leaves alone\<close>





section \<open>Messages on their way to user memory\<close>





section \<open>Ticks and interrupts\<close>








section \<open>The machine\<close>















section \<open>Properties\<close>




end
