(* ===== verification/Boot.thy ===== *)
theory Boot
  imports Syscalls
begin

text \<open>
  Booting (\<open>kernel/main.c\<close>, \<open>init_proc\<close> of \<open>kernel/proc.c\<close>): the process and privilege tables, the
  privileges of the first processes, and the first process to run.
\<close>

unbundle bit_operations_syntax

section \<open>Definitions\<close>

abbreviation USER_PRIO :: int where "USER_PRIO \<equiv> 7"
abbreviation TASK_PRIO :: int where "TASK_PRIO \<equiv> 3"
abbreviation USER_QUANTUM :: int where "USER_QUANTUM \<equiv> 15"
abbreviation TASK_QUANTUM :: int where "TASK_QUANTUM \<equiv> 15"
abbreviation TASK_SERVMAN :: endpoint where "TASK_SERVMAN \<equiv> 2"

text \<open>The body of the first loop of \<open>init_proc\<close>, for the process in slot \<open>s\<close>.\<close>

definition init_slot :: "nat \<Rightarrow> kernel \<Rightarrow> kernel" where
  "init_slot s k =
     (let i = int s - int NR_TASKS in
      if i \<ge> int NR_BOOT_PROCS - int NR_TASKS then upd_proc s (state_update (\<lambda>_. PST_FREE_SLOT)) k
      else
        let prio = (if i = INIT then USER_PRIO else TASK_PRIO);
            quantum = (if i = INIT then USER_QUANTUM else TASK_QUANTUM);
            k = upd_proc s (\<lambda>p. p\<lparr>quantum_ms := quantum, counter_ns := of_int quantum * 1000000, priority := prio,
                  p_parent := NO_TASK, endpoint := make_endpoint 0 i, pslot := i, send_msg := reset_msg, recv_msg := 0,
                  recvfrom := NO_TASK, sendto := NO_TASK, q_sending := None, next_sending := None,
                  state := 0, flags := 0, priv_ix := None\<rparr>) k;
            k = (if i \<noteq> TASK_MM then PST_SET s PST_MMINHIBIT (PST_SET s PST_BOOTINHIBIT k) else k);
            k = PST_SET s PST_STOPPED k;
            k = upd_proc s (sched_policy_update (\<lambda>_. SCHED_NORMAL)) k
        in proc_no_time s k)"

text \<open>The second loop; what is not written here \<open>memset\<close> makes zero.\<close>

definition init_priv :: "nat \<Rightarrow> kernel \<Rightarrow> kernel" where
  "init_priv i k =
     upd_priv i (\<lambda>_. \<lparr>proc_nr = NO_TASK, pr_id = i, prflags = 0, syscall_mask = [0], notify_pending = [0], int_pending = 0,
       psig_pending = 0, async_table = 0, async_len = 0, async_pending = [0], grant_table = 0, grant_entries = 0,
       grant_endpoint = 0, expire_time = 0xffffffff, timer_arg = 0\<rparr>) k"

definition init_proc :: "kernel \<Rightarrow> kernel" where
  "init_proc k =
     (let k = fold init_slot [0..<NR_SLOTS] k;
          k = fold init_priv [0..<NR_PRIV_PROCS] k
      in k\<lparr>mmrequest := None\<rparr>)"

text \<open>The process in slot \<open>s\<close> is number \<open>s\<close> in \<open>boot_procs\<close>.\<close>

definition boot_one :: "nat \<Rightarrow> kernel \<Rightarrow> kernel res" where
  "boot_one s k =
     (let ep = endpoint (proc_table k s) in
      if ep < 0 \<or> ep = TASK_MM \<or> ep = TASK_SERVMAN then
        let k = snd (set_priv s (ep + int NR_TASKS) k);
            allowed = ep = TASK_MM \<or> ep = TASK_SERVMAN
        in bind_res (priv_of k s) (\<lambda>i.
             Inr (upd_priv i (\<lambda>v. v\<lparr>prflags := prflags v OR PRF_PRIV_PROC, syscall_mask := [if allowed then - 1 else 0]\<rparr>) k))
      else Inr (upd_proc s (state_update (\<lambda>st. st OR PST_NO_PRIV)) k))"

primrec boot_loop :: "nat \<Rightarrow> kernel \<Rightarrow> kernel res" where
  "boot_loop 0 k = Inr k"
| "boot_loop (Suc n) k = bind_res (boot_loop n k) (boot_one n)"

text \<open>\<open>finish_bsp_booting\<close> up to \<open>switch_to_user\<close>.\<close>

definition finish_bsp_booting :: "kernel \<Rightarrow> kernel" where
  "finish_bsp_booting k =
     fold (\<lambda>i. PST_UNSET (proc_addr (int i)) PST_STOPPED) [0..<NR_BOOT_PROCS - NR_TASKS] (k\<lparr>proc_ptr := None, fpu_owner := None\<rparr>)"

text \<open>What \<open>kernel_main\<close> does to the state of the model.\<close>

definition kernel_main :: "kernel \<Rightarrow> kernel res" where
  "kernel_main k =
     bind_res (boot_loop NR_BOOT_PROCS (init_proc (init_sched k))) (\<lambda>k. Inr (finish_bsp_booting (k\<lparr>jiffies := 0\<rparr>)))"

section \<open>The tables after booting\<close>

definition idle_queues :: "kernel \<Rightarrow> bool" where
  "idle_queues k \<longleftrightarrow> run_queues k = (\<lambda>_. []) \<and> run_queue_bitmap k = [0, 0]"

lemma UNSET_BIT_zeros: "UNSET_BIT [0, 0] q = [0, 0]"
proof -
  consider "q div BITCHUNK_BITS = 0" | "q div BITCHUNK_BITS = 1" | "q div BITCHUNK_BITS \<ge> 2" by linarith
  then show ?thesis
  proof cases
    case 3
    then show ?thesis unfolding UNSET_BIT_def by (intro list_update_beyond) simp
  qed (simp_all add: UNSET_BIT_def)
qed

lemma dequeue_idle: "idle_queues k \<Longrightarrow> dequeue_proc p k = k"
  by (cases k) (simp add: idle_queues_def dequeue_proc_def Let_def UNSET_BIT_zeros)

lemma PST_SET_idle: "idle_queues k \<Longrightarrow> PST_SET p f k = upd_proc p (state_update (\<lambda>s. s OR f)) k"
  by (simp add: PST_SET_def Let_def dequeue_idle idle_queues_def)

lemma upd_proc_fuse: "upd_proc p f (upd_proc p g k) = upd_proc p (\<lambda>q. f (g q)) k"
  by (simp add: upd_proc_def)

text \<open>The process \<open>init_proc\<close> leaves in slot \<open>s\<close>.\<close>

definition slot_image :: "u64 \<Rightarrow> u32 \<Rightarrow> nat \<Rightarrow> proc \<Rightarrow> proc" where
  "slot_image now rr s p =
     (if s \<ge> NR_BOOT_PROCS then p\<lparr>state := PST_FREE_SLOT\<rparr>
      else
        let i = int s - int NR_TASKS; prio = (if i = INIT then USER_PRIO else TASK_PRIO) in
        p\<lparr>priority := prio, counter_ns := ucast rr * 1000000, quantum_ms := TASK_QUANTUM, sched_policy := SCHED_NORMAL,
          deadline := now + ucast (rr * of_int prio), priv_ix := None, endpoint := i, pslot := i,
          state := if i = TASK_MM then PST_STOPPED else PST_BOOTINHIBIT OR PST_MMINHIBIT OR PST_STOPPED,
          flags := 0, send_msg := reset_msg, recv_msg := 0, recvfrom := NO_TASK, sendto := NO_TASK,
          q_sending := None, next_sending := None, p_parent := NO_TASK\<rparr>)"

lemma idle_upd [simp]: "idle_queues (upd_proc p f k) = idle_queues k" "idle_queues (upd_priv i g k) = idle_queues k"
  by (simp_all add: idle_queues_def)

lemma JIFFIES_upd [simp]: "JIFFIES_MS (upd_proc p f k) = JIFFIES_MS k"
  by (simp add: JIFFIES_MS_def)

lemma upd_proc_eqI: "f (proc_table k s) = g (proc_table k s) \<Longrightarrow> upd_proc s f k = upd_proc s g k"
  by (simp add: upd_proc_def)

lemma init_slot_image:
  assumes "idle_queues k"
  shows "init_slot s k = upd_proc s (slot_image (JIFFIES_MS k) (rr_interval_ms k) s) k"
proof (cases "s \<ge> NR_BOOT_PROCS")
  case True
  then show ?thesis by (simp add: init_slot_def Let_def upd_proc_def slot_image_def)
next
  case False
  then have ep: "make_endpoint 0 (int s - 4) = int s - 4"
    using make_endpoint_eq [of 0 "int s - 4"] by simp
  consider "s = 17" | "s = 4" | "s \<noteq> 17" "s \<noteq> 4" by blast
  then show ?thesis
    by cases (use False assms ep in \<open>simp add: init_slot_def Let_def proc_no_time_def PST_UNSET_def PST_SET_idle upd_proc_fuse,
        intro upd_proc_eqI, cases "proc_table k s", simp add: slot_image_def Let_def\<close>)+
qed

lemma fold_init_slot:
  "idle_queues k \<Longrightarrow> fold init_slot [0..<n] k =
     k\<lparr>proc_table := (\<lambda>s. if s < n then slot_image (JIFFIES_MS k) (rr_interval_ms k) s (proc_table k s) else proc_table k s)\<rparr>"
proof (induction n)
  case (Suc n)
  let ?k = "k\<lparr>proc_table := (\<lambda>s. if s < n then slot_image (JIFFIES_MS k) (rr_interval_ms k) s (proc_table k s) else proc_table k s)\<rparr>"
  have "idle_queues ?k" "JIFFIES_MS ?k = JIFFIES_MS k" using Suc.prems by (simp_all add: idle_queues_def JIFFIES_MS_def)
  with Suc show ?case by (auto simp: init_slot_image upd_proc_def fun_eq_iff)
qed simp

definition fresh_priv :: "nat \<Rightarrow> priv" where
  "fresh_priv i = blank_priv\<lparr>pr_id := i, grant_endpoint := 0\<rparr>"

lemma fold_init_priv: "fold init_priv [0..<n] k = k\<lparr>priv_table := (\<lambda>i. if i < n then fresh_priv i else priv_table k i)\<rparr>"
  by (induction n) (auto simp: init_priv_def upd_priv_def fresh_priv_def blank_priv_def fun_eq_iff)

text \<open>The kernel tasks, the memory manager and the service manager get privileges at once.\<close>

definition privileged :: "nat \<Rightarrow> bool" where
  "privileged s \<longleftrightarrow> s \<le> 4 \<or> s = 6"

definition boot_image :: "nat \<Rightarrow> proc \<Rightarrow> proc" where
  "boot_image s p = (if privileged s then p\<lparr>priv_ix := Some s\<rparr> else state_update (\<lambda>st. st OR PST_NO_PRIV) p)"

definition priv_image :: "nat \<Rightarrow> priv \<Rightarrow> priv" where
  "priv_image i v = (if privileged i then v\<lparr>proc_nr := int i - 4, prflags := prflags v OR PRF_PRIV_PROC, syscall_mask := [if i \<ge> 4 then - 1 else 0]\<rparr> else v)"

lemma boot_loop_image:
  assumes "\<And>s. s < 18 \<Longrightarrow> endpoint (proc_table k s) = int s - 4" and "\<And>i. i < 18 \<Longrightarrow> proc_nr (priv_table k i) = NO_TASK"
  shows "n \<le> 18 \<Longrightarrow> boot_loop n k = Inr (k\<lparr>proc_table := (\<lambda>s. if s < n then boot_image s (proc_table k s) else proc_table k s),
    priv_table := (\<lambda>i. if i < n then priv_image i (priv_table k i) else priv_table k i)\<rparr>)"
proof (induction n)
  case (Suc n)
  let ?k = "k\<lparr>proc_table := (\<lambda>s. if s < n then boot_image s (proc_table k s) else proc_table k s),
    priv_table := (\<lambda>i. if i < n then priv_image i (priv_table k i) else priv_table k i)\<rparr>"
  have IH: "boot_loop n k = Inr ?k" using Suc by simp
  have ep: "endpoint (proc_table ?k n) = int n - 4" "proc_nr (priv_table ?k n) = NO_TASK" using assms Suc.prems by simp_all
  have num: "ENDPOINT_P (int n - 4) = int n - 4" using Suc.prems by (simp add: ENDPOINT_P_mod)
  show ?case
  proof (cases "privileged n")
    case True
    then have c: "int n - 4 < 0 \<or> int n - 4 = TASK_MM \<or> int n - 4 = TASK_SERVMAN" by (auto simp: privileged_def)
    have "set_priv n (int n - 4 + int NR_TASKS) ?k = (0, assign_priv n n ?k)"
      using ep Suc.prems by (simp add: set_priv_def)
    with c ep num have "boot_one n ?k = Inr (upd_priv n (\<lambda>v. v\<lparr>prflags := prflags v OR PRF_PRIV_PROC,
        syscall_mask := [if int n - 4 = TASK_MM \<or> int n - 4 = TASK_SERVMAN then - 1 else 0]\<rparr>) (assign_priv n n ?k))"
      by (simp add: boot_one_def Let_def priv_of_def assign_priv_def)
    with True IH ep num show ?thesis
      by (auto simp: assign_priv_def Let_def upd_proc_def upd_priv_def boot_image_def priv_image_def privileged_def fun_eq_iff)
  next
    case False
    then have "boot_one n ?k = Inr (upd_proc n (state_update (\<lambda>st. st OR PST_NO_PRIV)) ?k)"
      using ep(1) by (auto simp: boot_one_def Let_def privileged_def)
    moreover have "upd_proc n (state_update (\<lambda>st. st OR PST_NO_PRIV)) ?k =
        k\<lparr>proc_table := (\<lambda>s. if s < Suc n then boot_image s (proc_table k s) else proc_table k s),
          priv_table := (\<lambda>i. if i < Suc n then priv_image i (priv_table k i) else priv_table k i)\<rparr>"
      using False by (cases k) (auto simp: upd_proc_def boot_image_def priv_image_def less_Suc_eq fun_eq_iff)
    ultimately show ?thesis using IH by simp
  qed
qed simp

text \<open>\<open>finish_bsp_booting\<close> clears PST_STOPPED in the slots from 4 on, which makes the process in slot 4 runnable.\<close>

lemma PST_UNSET_blocked:
  "state (proc_table k s) AND NOT f \<noteq> 0 \<Longrightarrow> PST_UNSET s f k = upd_proc s (state_update (\<lambda>st. st AND NOT f)) k"
  by (simp add: PST_UNSET_def Let_def)

lemma finish_image:
  assumes st: "state (proc_table k 4) = PST_STOPPED"
    and bl: "\<And>s. 4 < s \<Longrightarrow> s < 18 \<Longrightarrow> state (proc_table k s) AND NOT PST_STOPPED \<noteq> 0"
  shows "n < 14 \<Longrightarrow> fold (\<lambda>i. PST_UNSET (proc_addr (int i)) PST_STOPPED) [0..<Suc n] k =
    (enqueue_proc 4 k)\<lparr>proc_table := (\<lambda>s. if 4 \<le> s \<and> s < 5 + n then state_update (\<lambda>st. st AND NOT PST_STOPPED) (proc_table k s)
       else proc_table k s)\<rparr>"
proof (induction n)
  case 0
  have "PST_UNSET 4 PST_STOPPED k = enqueue_proc 4 (upd_proc 4 (state_update (\<lambda>st. st AND NOT PST_STOPPED)) k)"
    using st by (simp add: PST_UNSET_def Let_def)
  also have "\<dots> = (enqueue_proc 4 k)\<lparr>proc_table := (proc_table k)(4 := state_update (\<lambda>st. st AND NOT PST_STOPPED) (proc_table k 4))\<rparr>"
    by (simp add: enqueue_proc_def Let_def upd_proc_def proc_queue_def)
  also have "(proc_table k)(4 := state_update (\<lambda>st. st AND NOT PST_STOPPED) (proc_table k 4)) =
      (\<lambda>s. if 4 \<le> s \<and> s < 5 + 0 then state_update (\<lambda>st. st AND NOT PST_STOPPED) (proc_table k s) else proc_table k s)"
    by (auto simp: fun_eq_iff)
  finally show ?case by (simp add: proc_addr_def proc_slot_def)
next
  case (Suc n)
  let ?k = "(enqueue_proc 4 k)\<lparr>proc_table := (\<lambda>s. if 4 \<le> s \<and> s < 5 + n then state_update (\<lambda>st. st AND NOT PST_STOPPED) (proc_table k s)
       else proc_table k s)\<rparr>"
  have "nat (int (Suc n) + 4) = 5 + n" by simp
  then have "PST_UNSET (proc_addr (int (Suc n))) PST_STOPPED ?k = upd_proc (5 + n) (state_update (\<lambda>st. st AND NOT PST_STOPPED)) ?k"
    using bl [of "5 + n"] Suc.prems by (simp add: proc_addr_def proc_slot_def PST_UNSET_blocked)
  moreover have "fold (\<lambda>i. PST_UNSET (proc_addr (int i)) PST_STOPPED) [0..<Suc n] k = ?k" using Suc by simp
  ultimately have "fold (\<lambda>i. PST_UNSET (proc_addr (int i)) PST_STOPPED) [0..<Suc (Suc n)] k =
      upd_proc (5 + n) (state_update (\<lambda>st. st AND NOT PST_STOPPED)) ?k"
    by (simp only: upt_Suc_append [of 0 "Suc n"] fold_append fold_simps comp_apply le0)
  then show ?case by (auto simp: upd_proc_def fun_eq_iff)
qed

section \<open>The first process\<close>

text \<open>Memory before \<open>kernel_main\<close>: everything the compiler put into the zeroed section.\<close>

definition zeroed :: "kernel \<Rightarrow> bool" where
  "zeroed k \<longleftrightarrow> run_queues k = (\<lambda>_. []) \<and> run_queue_bitmap k = [0, 0] \<and>
     (\<forall>s. q_sending (proc_table k s) = None \<and> flags (proc_table k s) = 0 \<and> state (proc_table k s) = 0)"

definition booted_table :: "kernel \<Rightarrow> nat \<Rightarrow> proc" where
  "booted_table k s =
     (let p = (if s < NR_SLOTS then slot_image (JIFFIES_MS k) RR_INTERVAL_DEFAULT s (proc_table k s) else proc_table k s);
          p = (if s < NR_BOOT_PROCS then boot_image s p else p)
      in if 4 \<le> s \<and> s < NR_BOOT_PROCS then state_update (\<lambda>st. st AND NOT PST_STOPPED) p else p)"

lemma kernel_main_eq:
  assumes "zeroed k"
  shows "\<exists>k'. kernel_main k = Inr k' \<and> proc_table k' = booted_table k \<and> run_queues k' = (\<lambda>_. [])(101 := [4]) \<and>
    run_queue_bitmap k' = SET_BIT [0, 0] 101 \<and> proc_ptr k' = None"
proof -
  let ?img = "\<lambda>s. if s < NR_SLOTS then slot_image (JIFFIES_MS k) RR_INTERVAL_DEFAULT s (proc_table k s) else proc_table k s"
  let ?prv = "\<lambda>i. if i < NR_PRIV_PROCS then fresh_priv i else priv_table k i"
  let ?k = "k\<lparr>rr_interval_ms := RR_INTERVAL_DEFAULT, proc_table := ?img, priv_table := ?prv, mmrequest := None\<rparr>"
  have q: "run_queues k = (\<lambda>_. [])" "run_queue_bitmap k = [0, 0]" using assms by (simp_all add: zeroed_def)
  have i: "init_sched k = k\<lparr>rr_interval_ms := RR_INTERVAL_DEFAULT\<rparr>" by (rule kernel.equality) (use q in \<open>simp_all add: init_sched_def fun_eq_iff\<close>)
  have "idle_queues (init_sched k)" using q by (simp add: i idle_queues_def)
  then have init: "init_proc (init_sched k) = ?k"
    unfolding init_proc_def Let_def by (simp add: fold_init_slot fold_init_priv i JIFFIES_MS_def cong: if_cong)
  let ?b = "\<lambda>s. if s < 18 then boot_image s (?img s) else ?img s"
  let ?v = "\<lambda>i. if i < 18 then priv_image i (?prv i) else ?prv i"
  have loop: "boot_loop NR_BOOT_PROCS ?k = Inr (?k\<lparr>proc_table := ?b, priv_table := ?v\<rparr>)"
    using boot_loop_image [of ?k NR_BOOT_PROCS] by (simp add: slot_image_def Let_def fresh_priv_def blank_priv_def cong: if_cong)
  let ?f = "?k\<lparr>proc_table := ?b, priv_table := ?v, jiffies := 0, proc_ptr := None, fpu_owner := None\<rparr>"
  have "proc_queue (?b 4) = 101"
    by (simp add: proc_queue_def boot_image_def slot_image_def privileged_def Let_def)
  have "finish_bsp_booting (?k\<lparr>proc_table := ?b, priv_table := ?v, jiffies := 0\<rparr>) =
      (enqueue_proc 4 ?f)\<lparr>proc_table := booted_table k\<rparr>" (is "?l = _")
  proof -
    have "?l = fold (\<lambda>i. PST_UNSET (proc_addr (int i)) PST_STOPPED) [0..<Suc 13] ?f" by (simp add: finish_bsp_booting_def)
    also have "\<dots> = (enqueue_proc 4 ?f)\<lparr>proc_table := (\<lambda>s. if 4 \<le> s \<and> s < 5 + 13 then
        state_update (\<lambda>st. st AND NOT PST_STOPPED) (proc_table ?f s) else proc_table ?f s)\<rparr>"
      by (rule finish_image) (simp_all add: boot_image_def slot_image_def privileged_def Let_def flag_simps)
    also have "(\<lambda>s. if 4 \<le> s \<and> s < 5 + 13 then state_update (\<lambda>st. st AND NOT PST_STOPPED) (proc_table ?f s) else proc_table ?f s) = booted_table k"
      by (auto simp: booted_table_def Let_def fun_eq_iff)
    finally show ?thesis .
  qed
  with init loop q show ?thesis by (simp add: kernel_main_def enqueue_proc_def Let_def \<open>proc_queue (?b 4) = 101\<close> [simplified])
qed

lemma booted_state:
  assumes "zeroed k"
  shows "state (booted_table k s) = (if s \<ge> NR_SLOTS \<or> s = 4 then 0 else if s \<ge> NR_BOOT_PROCS then PST_FREE_SLOT
      else if s < 4 then PST_BOOTINHIBIT OR PST_MMINHIBIT OR PST_STOPPED
      else if s = 6 then PST_BOOTINHIBIT OR PST_MMINHIBIT else PST_BOOTINHIBIT OR PST_MMINHIBIT OR PST_NO_PRIV)"
  using assms by (auto simp: booted_table_def boot_image_def slot_image_def privileged_def Let_def zeroed_def)

lemma booted_proc:
  assumes "zeroed k"
  shows "q_sending (booted_table k s) = None" "flags (booted_table k s) = 0"
    "s < NR_BOOT_PROCS \<Longrightarrow> endpoint (booted_table k s) = int s - 4"
    "counter_ns (booted_table k 4) \<noteq> 0"
  using assms by (auto simp: booted_table_def boot_image_def slot_image_def Let_def zeroed_def)

lemma booted_ipc_inv:
  assumes z: "zeroed k" and t: "proc_table k' = booted_table k"
  shows "ipc_inv k'"
proof -
  have st: "\<not> PST_IS_SET k' s PST_SENDING" "\<not> PST_IS_SET k' s PST_RECEIVING"
      "PST_IS_SET k' s PST_FREE_SLOT \<Longrightarrow> state (proc_table k' s) = PST_FREE_SLOT" for s
    using booted_state [OF z, of s] by (auto simp: PST_IS_SET_def t flag_simps split: if_splits)
  then have "sends_to k' = {}" "sends_live k'" "free_clean k'" by (simp_all add: sends_to_def sends_live_def free_clean_def)
  moreover have "squeue k' d []" for d using booted_proc(1) [OF z] \<open>sends_to k' = {}\<close> by (simp add: squeue_def senders_def t)
  then have "\<exists>qs. squeue k' d qs" for d by blast
  ultimately show ?thesis using st by (simp add: ipc_inv_def ipc_graph_def rendezvous_def acyclic_def)
qed

lemma bit_push_one: "bit (push_bit n 1 :: u64) r \<Longrightarrow> r = n"
  by (auto simp: bit_exp_iff)

lemma first_boot_queue: "first_queue_from (SET_BIT [0, 0] 101) 0 = Some 101"
proof -
  have m: "SET_BIT [0, 0] 101 = [0, push_bit 37 1]" by (simp add: SET_BIT_def)
  obtain r where r: "first_bit_from (push_bit 37 1) 0 = Some r" using first_bit_from_total [of "push_bit 37 1"] by auto
  then have "bit (push_bit 37 1 :: u64) r" using first_bit_from_Some by blast
  then have "r = 37" by (rule bit_push_one)
  with r show ?thesis by (simp add: m first_queue_from_eq)
qed

text \<open>
  C11: booting.  From zeroed memory \<open>kernel_main\<close> sets up the tables without a fault; every process of
  the boot image can be found by its endpoint, no message is in flight, exactly one process is runnable,
  and it is the memory manager (slot 4) that \<open>finish_bsp_booting\<close> enters user mode with.
\<close>

theorem boot_starts_mm:
  assumes "zeroed k"
  shows "\<exists>k' k''. kernel_main k = Inr k' \<and> ipc_inv k' \<and> (\<forall>s < NR_BOOT_PROCS. endpt_proc k' (int s - 4) = Some s) \<and>
    (\<forall>s < NR_SLOTS. state (proc_table k' s) = 0 \<longleftrightarrow> s = 4) \<and>
    switch_to_user tab 2 k' = Inr (Some 4, k'') \<and> proc_ptr k'' = Some 4 \<and> run_queues k'' = (\<lambda>_. [])"
proof -
  obtain k' where k': "kernel_main k = Inr k'" "proc_table k' = booted_table k" "run_queues k' = (\<lambda>_. [])(101 := [4])"
      "run_queue_bitmap k' = SET_BIT [0, 0] 101" "proc_ptr k' = None"
    using kernel_main_eq [OF assms] by blast
  have ep: "endpt_proc k' (int s - 4) = Some s" if "s < NR_BOOT_PROCS" for s
    using that booted_state [OF assms, of s] booted_proc(3) [OF assms that]
    by (auto simp: endpt_proc_def verify_endpt_def Let_def ENDPOINT_P_mod proc_slot_def proc_addr_def k'(2) split: if_splits)
  have run: "state (proc_table k' s) = 0 \<longleftrightarrow> s = 4" if "s < NR_SLOTS" for s
    using that booted_state [OF assms, of s] by (simp add: k'(2))
  have pick: "pick_proc k' = (Some 4, dequeue_proc 4 k')"
    by (simp add: pick_proc_def k'(3,4) first_boot_queue)
  define k'' where "k'' = (dequeue_proc 4 k')\<lparr>proc_ptr := Some 4\<rparr>"
  have "proc_table k'' = booted_table k" by (simp add: k''_def dequeue_proc_def Let_def k'(2))
  then have "enter tab (Suc 0) 4 k'' = Inr (Some 4, k'')" using booted_proc(2,4) [OF assms] by (simp add: flag_simps)
  then have "switch_to_user tab 2 k' = Inr (Some 4, k'')"
    by (simp add: switch_to_user_def k'(5) numeral_2_eq_2 pick k''_def [symmetric] del: enter.simps)
  moreover have "run_queues k'' = (\<lambda>_. [])"
    by (simp add: k''_def dequeue_proc_def Let_def k'(3) fun_eq_iff)
  moreover have "proc_ptr k'' = Some 4" by (simp add: k''_def)
  ultimately show ?thesis using k'(1) booted_ipc_inv [OF assms k'(2)] ep run by blast
qed

definition cold_kernel :: kernel where
  "cold_kernel = blank_kernel\<lparr>proc_table := (\<lambda>_. blank_proc\<lparr>state := 0\<rparr>)\<rparr>"

theorem boot_starts_mm_witness:
  "\<exists>k' k''. kernel_main cold_kernel = Inr k' \<and> endpt_proc k' 0 = Some 4 \<and>
     switch_to_user (\<lambda>_. None) 2 k' = Inr (Some 4, k'') \<and> run_queues k'' = (\<lambda>_. [])"
proof -
  have "zeroed cold_kernel" by (simp add: zeroed_def cold_kernel_def blank_kernel_def blank_proc_def)
  then obtain k' k'' where k: "kernel_main cold_kernel = Inr k'" "\<forall>s < NR_BOOT_PROCS. endpt_proc k' (int s - 4) = Some s"
      "switch_to_user (\<lambda>_. None) 2 k' = Inr (Some 4, k'')" "run_queues k'' = (\<lambda>_. [])"
    using boot_starts_mm [of cold_kernel "\<lambda>_. None"] by blast
  then have "endpt_proc k' 0 = Some 4" by (auto dest: spec [of _ 4])
  with k show ?thesis by blast
qed

end
