(* ===== verification/Phys_Alloc.thy ===== *)
theory Phys_Alloc
  imports Lyos_Prelude
begin

text \<open>
  The allocator of physical memory (\<open>servers/mm/alloc.c\<close>): a linked list of holes, sorted by address, in a
  table whose unused entries are linked as well.  Addresses and lengths are 64-bit words.
\<close>

section \<open>Definitions\<close>

abbreviation NR_HOLES :: nat where "NR_HOLES \<equiv> 2048"
abbreviation ARCH_PG_SIZE :: u64 where "ARCH_PG_SIZE \<equiv> 4096"

record phys_hole =
  h_next :: "nat option"
  h_base :: u64
  h_len :: u64

record phys_mem =
  hole :: "nat \<Rightarrow> phys_hole"
  hole_head :: "nat option"
  free_slots :: "nat option"
  mem_free :: u64

definition upd_hole :: "nat \<Rightarrow> (phys_hole \<Rightarrow> phys_hole) \<Rightarrow> phys_mem \<Rightarrow> phys_mem" where
  "upd_hole h f s = s\<lparr>hole := (hole s)(h := f (hole s h))\<rparr>"

definition delete_slot :: "nat option \<Rightarrow> nat \<Rightarrow> phys_mem \<Rightarrow> phys_mem res" where
  "delete_slot prev hp s =
     bind_res
       (if Some hp = hole_head s then Inr (s\<lparr>hole_head := h_next (hole s hp)\<rparr>)
        else (case prev of
                None \<Rightarrow> Inl NullDeref
              | Some q \<Rightarrow> Inr (upd_hole q (h_next_update (\<lambda>_. h_next (hole s hp))) s)))
       (\<lambda>s. Inr ((upd_hole hp (\<lambda>h. h\<lparr>h_next := free_slots s, h_base := 0, h_len := 0\<rparr>) s)\<lparr>free_slots := Some hp\<rparr>))"

text \<open>One of the two rounds of \<open>merge_hole\<close>: the hole to go on with, unless \<open>hp\<close> is the last one.\<close>

definition merge_next :: "nat \<Rightarrow> phys_mem \<Rightarrow> (nat option \<times> phys_mem) res" where
  "merge_next hp s =
     (case h_next (hole s hp) of
        None \<Rightarrow> Inr (None, s)
      | Some n \<Rightarrow>
          if h_base (hole s hp) + h_len (hole s hp) = h_base (hole s n)
          then bind_res (delete_slot (Some hp) n (upd_hole hp (h_len_update (\<lambda>l. l + h_len (hole s n))) s)) (\<lambda>s. Inr (Some hp, s))
          else Inr (Some n, s))"

definition merge_hole :: "nat \<Rightarrow> phys_mem \<Rightarrow> phys_mem res" where
  "merge_hole hp s =
     bind_res (merge_next hp s) (\<lambda>(hp, s).
       case hp of None \<Rightarrow> Inr s | Some hp \<Rightarrow> bind_res (merge_next hp s) (\<lambda>(_, s). Inr s))"

text \<open>The search of \<open>free_mem\<close>, with \<open>prev_ptr\<close>; it runs on fuel.\<close>

fun place_after :: "nat \<Rightarrow> u64 \<Rightarrow> nat option \<Rightarrow> nat option \<Rightarrow> phys_mem \<Rightarrow> nat option res" where
  "place_after 0 b prev hp s = Inl Diverge"
| "place_after (Suc fuel) b prev hp s =
     (case hp of
        None \<Rightarrow> Inr prev
      | Some h \<Rightarrow> if b > h_base (hole s h) then place_after fuel b (Some h) (h_next (hole s h)) s else Inr prev)"

definition free_mem :: "u64 \<Rightarrow> u64 \<Rightarrow> phys_mem \<Rightarrow> (int \<times> phys_mem) res" where
  "free_mem b len s =
     (if len = 0 then Inr (EINVAL, s)
      else case free_slots s of
        None \<Rightarrow> Inl Panic
      | Some new \<Rightarrow>
          let s = upd_hole new (\<lambda>h. h\<lparr>h_base := b, h_len := len\<rparr>) s;
              s = s\<lparr>free_slots := h_next (hole s new), mem_free := mem_free s + len\<rparr>
          in if (case hole_head s of None \<Rightarrow> True | Some h \<Rightarrow> b \<le> h_base (hole s h)) then
               let s = (upd_hole new (h_next_update (\<lambda>_. hole_head s)) s)\<lparr>hole_head := Some new\<rparr>
               in bind_res (merge_hole new s) (\<lambda>s. Inr (0, s))
             else bind_res (place_after (NR_HOLES + 1) b None (hole_head s) s) (\<lambda>prev.
               case prev of
                 None \<Rightarrow> Inl NullDeref
               | Some q \<Rightarrow>
                   let s = upd_hole new (h_next_update (\<lambda>_. h_next (hole s q))) s;
                       s = upd_hole q (h_next_update (\<lambda>_. Some new)) s
                   in bind_res (merge_hole q s) (\<lambda>s. Inr (0, s))))"

definition mem_init :: "u64 \<Rightarrow> u64 \<Rightarrow> phys_mem \<Rightarrow> (int \<times> phys_mem) res" where
  "mem_init start sz s =
     free_mem start sz
       (s\<lparr>hole := (\<lambda>i. if i < NR_HOLES then \<lparr>h_next = if i = NR_HOLES - 1 then None else Some (i + 1), h_base = 0, h_len = 0\<rparr>
                      else hole s i),
          hole_head := None, free_slots := Some 0\<rparr>)"

fun alloc_mem_loop :: "nat \<Rightarrow> u64 \<Rightarrow> nat option \<Rightarrow> nat option \<Rightarrow> phys_mem \<Rightarrow> (u64 \<times> phys_mem) res" where
  "alloc_mem_loop 0 memsize prev hp s = Inl Diverge"
| "alloc_mem_loop (Suc fuel) memsize prev hp s =
     (case hp of
        None \<Rightarrow> Inr (0, s)
      | Some h \<Rightarrow>
          if h_len (hole s h) \<ge> memsize then
            let old_base = h_base (hole s h);
                s = upd_hole h (\<lambda>x. x\<lparr>h_base := h_base x + memsize, h_len := h_len x - memsize\<rparr>) s
            in bind_res (if h_len (hole s h) = 0 then delete_slot prev h s else Inr s) (\<lambda>s.
                 Inr (old_base, s\<lparr>mem_free := mem_free s - memsize\<rparr>))
          else alloc_mem_loop fuel memsize (Some h) (h_next (hole s h)) s)"

definition alloc_mem :: "u64 \<Rightarrow> phys_mem \<Rightarrow> (u64 \<times> phys_mem) res" where
  "alloc_mem memsize s = alloc_mem_loop (NR_HOLES + 1) memsize None (hole_head s) s"

definition page_gap :: "u64 \<Rightarrow> u64 \<Rightarrow> u64" where
  "page_gap page_align b = (if b mod page_align \<noteq> 0 then page_align - b mod page_align else 0)"

fun alloc_pages_loop :: "nat \<Rightarrow> u64 \<Rightarrow> u64 \<Rightarrow> nat option \<Rightarrow> nat option \<Rightarrow> phys_mem \<Rightarrow> (u64 \<times> phys_mem) res" where
  "alloc_pages_loop 0 memsize page_align prev hp s = Inl Diverge"
| "alloc_pages_loop (Suc fuel) memsize page_align prev hp s =
     (case hp of
        None \<Rightarrow> Inr (0, s)
      | Some h \<Rightarrow>
          let alignment = page_gap page_align (h_base (hole s h)) in
          if h_len (hole s h) \<ge> memsize + alignment then
            let old_base = h_base (hole s h) + alignment;
                s = upd_hole h (\<lambda>x. x\<lparr>h_base := h_base x + (memsize + alignment), h_len := h_len x - (memsize + alignment)\<rparr>) s;
                s = (case prev of
                       None \<Rightarrow> s
                     | Some q \<Rightarrow> if h_base (hole s q) + h_len (hole s q) = old_base
                                 then upd_hole q (h_len_update (\<lambda>l. l + alignment)) s else s);
                s = s\<lparr>mem_free := mem_free s - memsize\<rparr>
            in bind_res (if h_len (hole s h) = 0 then delete_slot prev h s else Inr s) (\<lambda>s. Inr (old_base, s))
          else alloc_pages_loop fuel memsize page_align (Some h) (h_next (hole s h)) s)"

definition alloc_pages :: "int \<Rightarrow> bool \<Rightarrow> phys_mem \<Rightarrow> (u64 \<times> phys_mem) res" where
  "alloc_pages nr_pages align16k s =
     alloc_pages_loop (NR_HOLES + 1) (of_int nr_pages * ARCH_PG_SIZE) (if align16k then 0x4000 else ARCH_PG_SIZE) None (hole_head s) s"

section \<open>The lists behind the table\<close>

text \<open>
  \<open>hs\<close> are the holes in order, \<open>fs\<close> the unused entries; what the holes hold is a list of intervals, each
  with its base and its length.
\<close>

definition linked :: "phys_mem \<Rightarrow> nat list \<Rightarrow> nat list \<Rightarrow> bool" where
  "linked s hs fs \<longleftrightarrow>
     qpath (\<lambda>h. h_next (hole s h)) (hole_head s) hs \<and> qpath (\<lambda>h. h_next (hole s h)) (free_slots s) fs \<and>
     distinct (hs @ fs) \<and> length (hs @ fs) = NR_HOLES"

type_synonym interval = "nat \<times> nat"

definition iv :: "phys_mem \<Rightarrow> nat \<Rightarrow> interval" where
  "iv s h = (unat (h_base (hole s h)), unat (h_len (hole s h)))"

abbreviation ivs :: "phys_mem \<Rightarrow> nat list \<Rightarrow> interval list" where
  "ivs s hs \<equiv> map (iv s) hs"

lemma upd_hole_simps [simp]:
  "hole (upd_hole h f s) = (hole s)(h := f (hole s h))" "hole_head (upd_hole h f s) = hole_head s"
  "free_slots (upd_hole h f s) = free_slots s" "mem_free (upd_hole h f s) = mem_free s"
  by (simp_all add: upd_hole_def)

lemma linked_upd: "(\<And>x. h_next (f x) = h_next x) \<Longrightarrow> linked (upd_hole h f s) hs fs = linked s hs fs"
proof -
  assume f: "\<And>x. h_next (f x) = h_next x"
  have "(\<lambda>x. h_next (hole (upd_hole h f s) x)) = (\<lambda>x. h_next (hole s x))" using f by auto
  then show ?thesis by (simp only: linked_def upd_hole_simps)
qed

lemma mem_free_frame [simp]: "linked (s\<lparr>mem_free := v\<rparr>) hs fs = linked s hs fs" "iv (s\<lparr>mem_free := v\<rparr>) h = iv s h"
  by (simp_all add: linked_def iv_def)

lemma ivs_other: "h \<notin> set hs \<Longrightarrow> ivs (upd_hole h f s) hs = ivs s hs"
  by (auto simp: iv_def)

lemma qpath_remove:
  assumes "qpath n x (xs @ h # ys)" and "distinct (xs @ h # ys)"
  shows "qpath (if xs = [] then n(h := v) else n(last xs := n h, h := v)) (if xs = [] then n h else x) (xs @ ys)"
proof (cases xs rule: rev_cases)
  case Nil
  then show ?thesis using assms by (simp add: qpath_upd_other)
next
  case (snoc as b)
  have "qpath (n(b := n h, h := None)) x (as @ b # ys)"
    using assms by (intro qpath_unlink) (simp_all add: snoc)
  then have "qpath ((n(b := n h, h := None))(h := v)) x (as @ b # ys)" using assms(2) by (subst qpath_upd_other) (auto simp: snoc)
  then show ?thesis by (simp add: snoc)
qed

lemma delete_slot_ok:
  assumes l: "linked s (xs @ h # ys) fs" and p: "prev = (if xs = [] then None else Some (last xs))"
  shows "\<exists>s'. delete_slot prev h s = Inr s' \<and> linked s' (xs @ ys) (h # fs) \<and> ivs s' (xs @ ys) = ivs s (xs @ ys) \<and> mem_free s' = mem_free s"
proof -
  let ?n = "\<lambda>x. h_next (hole s x)"
  have q: "qpath ?n (hole_head s) (xs @ h # ys)" "qpath ?n (free_slots s) fs" and d: "distinct ((xs @ h # ys) @ fs)"
    using l by (simp_all add: linked_def)
  then have d1: "distinct (xs @ h # ys)" by auto
  have hd: "hole_head s = Some h \<longleftrightarrow> xs = []" using q(1) d by (cases xs) auto
  define s1 where "s1 = (if xs = [] then s\<lparr>hole_head := ?n h\<rparr> else upd_hole (last xs) (h_next_update (\<lambda>_. ?n h)) s)"
  define s' where "s' = (upd_hole h (\<lambda>x. x\<lparr>h_next := free_slots s, h_base := 0, h_len := 0\<rparr>) s1)\<lparr>free_slots := Some h\<rparr>"
  have run: "delete_slot prev h s = Inr s'"
    using hd p by (auto simp: delete_slot_def s'_def s1_def)
  have nx: "(\<lambda>x. h_next (hole s' x)) = (if xs = [] then ?n(h := free_slots s) else ?n(last xs := ?n h, h := free_slots s))"
    using d by (auto simp: s'_def s1_def)
  have "set xs \<inter> set fs = {}" using d by auto
  then have fn: "h \<notin> set fs" "xs \<noteq> [] \<Longrightarrow> last xs \<notin> set fs" using d last_in_set [of xs] by (simp, blast)
  have "qpath (\<lambda>x. h_next (hole s' x)) (hole_head s') (xs @ ys)"
    unfolding nx using qpath_remove [OF q(1) d1, of "free_slots s"] by (cases "xs = []") (simp_all add: s'_def s1_def)
  moreover have "qpath (\<lambda>x. h_next (hole s' x)) (free_slots s') (h # fs)"
    unfolding nx using q(2) fn by (simp add: s'_def qpath_upd_other)
  ultimately have "linked s' (xs @ ys) (h # fs)" using l by (auto simp: linked_def)
  moreover have "iv s' x = iv s x" if "x \<in> set (xs @ ys)" for x
  proof -
    have "x \<noteq> h" using that d1 by auto
    then show ?thesis by (auto simp: iv_def s'_def s1_def)
  qed
  then have "ivs s' (xs @ ys) = ivs s (xs @ ys)" by (intro map_cong refl)
  moreover have "mem_free s' = mem_free s" by (simp add: s'_def s1_def)
  ultimately show ?thesis using run by blast
qed

section \<open>Intervals\<close>

definition bytes :: "interval list \<Rightarrow> nat set" where
  "bytes us = (\<Union>(b, l) \<in> set us. {b..<b + l})"

text \<open>
  Holes are not empty, do not reach the end of the address space, and between two of them there is memory in use.
\<close>

definition apart :: "interval list \<Rightarrow> bool" where
  "apart us \<longleftrightarrow> (\<forall>(b, l) \<in> set us. 0 < l \<and> b + l < 2 ^ 64) \<and> sorted_wrt (\<lambda>(b, l) (c, m). b + l < c) us"

lemma bytes_simps [simp]: "bytes [] = {}" "bytes ((b, l) # us) = {b..<b + l} \<union> bytes us" "bytes (us @ js) = bytes us \<union> bytes js"
  by (auto simp: bytes_def)

lemma apart_append: "apart (us @ js) \<longleftrightarrow> apart us \<and> apart js \<and> (\<forall>(b, l) \<in> set us. \<forall>(c, m) \<in> set js. b + l < c)"
  by (auto simp: apart_def sorted_wrt_append)

lemma apart_Cons: "apart ((b, l) # us) \<longleftrightarrow> 0 < l \<and> b + l < 2 ^ 64 \<and> (\<forall>(c, m) \<in> set us. b + l < c) \<and> apart us"
  by (auto simp: apart_def)

section \<open>Merging\<close>

lemma merge_next_last: "linked s (xs @ [a]) fs \<Longrightarrow> merge_next a s = Inr (None, s)"
  using qpath_last [of "\<lambda>h. h_next (hole s h)" "hole_head s" "xs @ [a]"] by (simp add: linked_def merge_next_def)

lemma qpath_next: "qpath n x (xs @ a # b # ys) \<Longrightarrow> n a = Some b"
  by (induction xs arbitrary: x) auto

lemma unat_end: "unat b + unat l < 2 ^ 64 \<Longrightarrow> unat (b + l) = unat b + unat l" for b l :: u64
  using unat_add_lem [of b l] by simp

lemma merge_next_ok:
  assumes l: "linked s (xs @ a # b # ys) fs" and iva: "iv s a = (ba, la)" "ba + la < 2 ^ 64" and ivb: "iv s b = (bb, lb)" "bb + lb < 2 ^ 64"
  shows "if ba + la = bb
    then \<exists>s'. merge_next a s = Inr (Some a, s') \<and> linked s' (xs @ a # ys) (b # fs) \<and>
      ivs s' (xs @ a # ys) = ivs s xs @ (ba, la + lb) # ivs s ys \<and> mem_free s' = mem_free s
    else merge_next a s = Inr (Some b, s)"
proof -
  have nx: "h_next (hole s a) = Some b" using l qpath_next by (fastforce simp: linked_def)
  have e: "unat (h_base (hole s a) + h_len (hole s a)) = ba + la" using iva by (subst unat_end) (auto simp: iv_def)
  then have eq: "h_base (hole s a) + h_len (hole s a) = h_base (hole s b) \<longleftrightarrow> ba + la = bb"
    using ivb(1) by (metis iv_def prod.inject word_unat_eq_iff)
  show ?thesis
  proof (cases "ba + la = bb")
    case True
    define s1 where "s1 = upd_hole a (h_len_update (\<lambda>l. l + h_len (hole s b))) s"
    have d: "distinct (xs @ a # b # ys)" using l by (auto simp: linked_def)
    have l1: "linked s1 ((xs @ [a]) @ b # ys) fs" using l by (simp add: s1_def linked_upd)
    obtain s' where s': "delete_slot (Some a) b s1 = Inr s'" "linked s' ((xs @ [a]) @ ys) (b # fs)"
        "ivs s' ((xs @ [a]) @ ys) = ivs s1 ((xs @ [a]) @ ys)" "mem_free s' = mem_free s1"
      using delete_slot_ok [OF l1, of "Some a"] by auto
    have "iv s1 a = (ba, la + lb)"
      using iva ivb True by (auto simp: iv_def s1_def intro!: unat_end)
    moreover have "ivs s1 xs = ivs s xs" "ivs s1 ys = ivs s ys" using d by (simp_all add: s1_def ivs_other)
    moreover have "merge_next a s = Inr (Some a, s')" using True nx eq s'(1) by (simp add: merge_next_def s1_def)
    ultimately show ?thesis using True s' by (simp add: s1_def)
  qed (use nx eq in \<open>simp add: merge_next_def\<close>)
qed

text \<open>What \<open>merge_hole\<close> makes of the list of intervals.\<close>

fun glue :: "interval \<Rightarrow> interval list \<Rightarrow> interval list" where
  "glue (b, l) [] = [(b, l)]"
| "glue (b, l) ((c, m) # us) = (if b + l = c then (b, l + m) # us else (b, l) # (c, m) # us)"

definition in_space :: "interval list \<Rightarrow> bool" where
  "in_space us \<longleftrightarrow> (\<forall>(b, l) \<in> set us. b + l < 2 ^ 64)"

lemma merge_next_glue:
  assumes l: "linked s (xs @ a # ys) fs" and sp: "in_space (ivs s (a # ys))" and iva: "iv s a = (ba, la)"
  shows "\<exists>s' hs' fs' h. merge_next a s = Inr (h, s') \<and> linked s' (xs @ hs') fs' \<and> ivs s' (xs @ hs') = ivs s xs @ glue (ba, la) (ivs s ys) \<and>
    mem_free s' = mem_free s \<and>
    (if ys = [] then h = None
     else if ba + la = fst (iv s (hd ys)) then h = Some a \<and> hs' = a # tl ys
     else h = Some (hd ys) \<and> s' = s \<and> hs' = a # ys \<and> fs' = fs)"
proof (cases ys)
  case Nil
  then show ?thesis using l iva merge_next_last by fastforce
next
  case (Cons b zs)
  obtain bb lb where ivb: "iv s b = (bb, lb)" by force
  have "ba + la < 2 ^ 64" "bb + lb < 2 ^ 64" using sp iva ivb Cons by (auto simp: in_space_def)
  note m = merge_next_ok [OF l [unfolded Cons] iva this(1) ivb this(2)]
  show ?thesis
  proof (cases "ba + la = bb")
    case True
    then show ?thesis using m Cons ivb by auto
  next
    case False
    then show ?thesis using m Cons ivb iva l by auto
  qed
qed

fun glue2 :: "interval \<Rightarrow> interval list \<Rightarrow> interval list" where
  "glue2 (b, l) [] = [(b, l)]"
| "glue2 (b, l) ((c, m) # us) = (if b + l = c then glue (b, l + m) us else (b, l) # glue (c, m) us)"

lemma merge_hole_ok:
  assumes l: "linked s (xs @ a # ys) fs" and sp: "in_space (ivs s (a # ys))" and iva: "iv s a = (ba, la)"
  shows "\<exists>s' hs' fs'. merge_hole a s = Inr s' \<and> linked s' hs' fs' \<and> ivs s' hs' = ivs s xs @ glue2 (ba, la) (ivs s ys) \<and>
    mem_free s' = mem_free s"
proof -
  obtain s1 hs1 fs1 h where m: "merge_next a s = Inr (h, s1)" "linked s1 (xs @ hs1) fs1"
      "ivs s1 (xs @ hs1) = ivs s xs @ glue (ba, la) (ivs s ys)" "mem_free s1 = mem_free s"
    and h: "if ys = [] then h = None else if ba + la = fst (iv s (hd ys)) then h = Some a \<and> hs1 = a # tl ys
      else h = Some (hd ys) \<and> s1 = s \<and> hs1 = a # ys \<and> fs1 = fs"
    using merge_next_glue [OF assms] by blast
  show ?thesis
  proof (cases ys)
    case Nil
    then show ?thesis using m h by (auto simp: merge_hole_def)
  next
    case (Cons b zs)
    obtain bb lb where ivb: "iv s b = (bb, lb)" by force
    have spb: "bb + lb < 2 ^ 64" "in_space (ivs s zs)" using sp ivb Cons by (auto simp: in_space_def)
    show ?thesis
    proof (cases "ba + la = bb")
      case True
      then have h1: "h = Some a" "hs1 = a # zs" using h Cons ivb by auto
      have i1: "iv s1 a = (ba, la + lb)" "ivs s1 zs = ivs s zs" "ivs s1 xs = ivs s xs" using m(3) h1(2) True Cons ivb by auto
      have sp1: "in_space (ivs s1 (a # zs))" using i1 spb True by (simp add: in_space_def)
      obtain s2 hs2 fs2 h2 where r: "merge_next a s1 = Inr (h2, s2)" "linked s2 (xs @ hs2) fs2"
          "ivs s2 (xs @ hs2) = ivs s1 xs @ glue (ba, la + lb) (ivs s1 zs)" "mem_free s2 = mem_free s1"
        using merge_next_glue [OF m(2) [unfolded h1(2)] sp1 i1(1)] by blast
      have "merge_hole a s = Inr s2" using m(1) h1(1) r(1) by (simp add: merge_hole_def)
      moreover have "ivs s2 (xs @ hs2) = ivs s xs @ glue2 (ba, la) (ivs s ys)" unfolding r(3) i1 using True Cons ivb by simp
      ultimately show ?thesis using r(2,4) m(4) by auto
    next
      case False
      then have h1: "h = Some b" "s1 = s" using h Cons ivb by auto
      have l': "linked s ((xs @ [a]) @ b # zs) fs" using l Cons by simp
      have sp1: "in_space (ivs s (b # zs))" using ivb spb by (simp add: in_space_def)
      obtain s2 hs2 fs2 h2 where r: "merge_next b s = Inr (h2, s2)" "linked s2 ((xs @ [a]) @ hs2) fs2"
          "ivs s2 ((xs @ [a]) @ hs2) = ivs s (xs @ [a]) @ glue (bb, lb) (ivs s zs)" "mem_free s2 = mem_free s"
        using merge_next_glue [OF l' sp1 ivb] by blast
      have "merge_hole a s = Inr s2" using m(1) h1 r(1) by (simp add: merge_hole_def)
      moreover have "ivs s2 ((xs @ [a]) @ hs2) = ivs s xs @ glue2 (ba, la) (ivs s ys)" unfolding r(3) using False Cons ivb iva by simp
      ultimately show ?thesis using r(2,4) by blast
    qed
  qed
qed

section \<open>Freeing\<close>

lemma place_after_ok:
  "qpath (\<lambda>h. h_next (hole s h)) x (xs @ ys) \<Longrightarrow> \<forall>h \<in> set xs. h_base (hole s h) < b \<Longrightarrow>
    (ys \<noteq> [] \<longrightarrow> \<not> h_base (hole s (hd ys)) < b) \<Longrightarrow> length xs < fuel \<Longrightarrow>
    place_after fuel b prev x s = Inr (if xs = [] then prev else Some (last xs))"
proof (induction xs arbitrary: x fuel prev)
  case Nil
  then show ?case by (cases fuel; cases ys) auto
next
  case (Cons a xs)
  then show ?case by (cases fuel) auto
qed

lemma qpath_insert:
  "qpath n x (as @ q # cs) \<Longrightarrow> distinct (as @ q # cs) \<Longrightarrow> p \<notin> set (as @ q # cs) \<Longrightarrow>
    qpath (n(p := n q, q := Some p)) x (as @ q # p # cs)"
proof (induction as arbitrary: x)
  case Nil
  then have "qpath (n(p := n q, q := Some p)) (n q) cs" by (simp add: qpath_upd_other del: fun_upd_apply)
  with Nil show ?case by (simp add: fun_upd_def)
qed auto

text \<open>What \<open>free_mem\<close> makes of the list of intervals: \<open>xs\<close> begin below the new one, \<open>ys\<close> do not.\<close>

definition free_list :: "nat \<Rightarrow> nat \<Rightarrow> interval list \<Rightarrow> interval list" where
  "free_list b l us =
     (let xs = takeWhile (\<lambda>(c, m). c < b) us; ys = dropWhile (\<lambda>(c, m). c < b) us
      in if xs = [] then glue2 (b, l) ys else butlast xs @ glue2 (last xs) ((b, l) # ys))"

lemma ivs_takeWhile:
  fixes b :: u64
  shows "takeWhile (\<lambda>(c, m). c < unat b) (ivs s hs) = ivs s (takeWhile (\<lambda>h. h_base (hole s h) < b) hs)"
    "dropWhile (\<lambda>(c, m). c < unat b) (ivs s hs) = ivs s (dropWhile (\<lambda>h. h_base (hole s h) < b) hs)"
  by (simp_all add: takeWhile_map dropWhile_map comp_def iv_def word_less_nat_alt)

lemma free_mem_list:
  assumes l: "linked s hs (f # fs)" and sp: "in_space (ivs s hs)" and len: "len \<noteq> 0" and new: "unat b + unat len < 2 ^ 64"
  shows "\<exists>s' hs' fs'. free_mem b len s = Inr (0, s') \<and> linked s' hs' fs' \<and> ivs s' hs' = free_list (unat b) (unat len) (ivs s hs) \<and>
    mem_free s' = mem_free s + len"
proof -
  define xs where "xs = takeWhile (\<lambda>h. h_base (hole s h) < b) hs"
  define ys where "ys = dropWhile (\<lambda>h. h_base (hole s h) < b) hs"
  have hs: "hs = xs @ ys" by (simp add: xs_def ys_def)
  have below: "\<forall>h \<in> set xs. h_base (hole s h) < b" by (auto simp: xs_def dest: set_takeWhileD)
  have above: "ys \<noteq> [] \<longrightarrow> \<not> h_base (hole s (hd ys)) < b" using hd_dropWhile [of "\<lambda>h. h_base (hole s h) < b" hs] by (simp only: ys_def) blast
  let ?n = "\<lambda>h. h_next (hole s h)"
  have q: "qpath ?n (hole_head s) hs" "free_slots s = Some f" "qpath ?n (?n f) fs" and d: "distinct (hs @ f # fs)" "length hs \<le> NR_HOLES"
    using l by (auto simp: linked_def)
  have fd: "f \<notin> set hs" "f \<notin> set fs" using d by auto
  define s0 where "s0 = upd_hole f (\<lambda>h. h\<lparr>h_base := b, h_len := len\<rparr>) s"
  define s1 where "s1 = s0\<lparr>free_slots := h_next (hole s0 f), mem_free := mem_free s0 + len\<rparr>"
  have run: "free_mem b len s = (if (case hole_head s1 of None \<Rightarrow> True | Some h \<Rightarrow> b \<le> h_base (hole s1 h))
      then bind_res (merge_hole f ((upd_hole f (h_next_update (\<lambda>_. hole_head s1)) s1)\<lparr>hole_head := Some f\<rparr>)) (\<lambda>s. Inr (0, s))
      else bind_res (place_after (NR_HOLES + 1) b None (hole_head s1) s1) (\<lambda>prev. case prev of None \<Rightarrow> Inl NullDeref
        | Some q \<Rightarrow> bind_res (merge_hole q (upd_hole q (h_next_update (\<lambda>_. Some f)) (upd_hole f (h_next_update (\<lambda>_. h_next (hole s1 q))) s1)))
            (\<lambda>s. Inr (0, s))))"
    using len by (simp only: free_mem_def q(2) option.case if_False Let_def s1_def s0_def)
  have hd1: "hole_head s1 = hole_head s" by (simp add: s1_def s0_def)
  have n1: "(\<lambda>h. h_next (hole s1 h)) = ?n" by (auto simp: s1_def s0_def)
  have i1: "iv s1 f = (unat b, unat len)" by (simp add: s1_def s0_def iv_def)
  have io: "ivs s1 zs = ivs s zs" if "f \<notin> set zs" for zs using that by (auto simp: s1_def s0_def iv_def)
  have fl: "free_list (unat b) (unat len) (ivs s hs) =
      (if xs = [] then glue2 (unat b, unat len) (ivs s ys) else ivs s (butlast xs) @ glue2 (iv s (last xs)) ((unat b, unat len) # ivs s ys))"
    by (simp add: free_list_def Let_def ivs_takeWhile xs_def [symmetric] ys_def [symmetric] last_map map_butlast [symmetric])
  show ?thesis
  proof (cases "xs = []")
    case True
    define s2 where "s2 = (upd_hole f (h_next_update (\<lambda>_. hole_head s)) s1)\<lparr>hole_head := Some f\<rparr>"
    have n2: "(\<lambda>h. h_next (hole s2 h)) = ?n(f := hole_head s)" using n1 by (auto simp: s2_def s1_def s0_def)
    have l2: "linked s2 ([] @ f # ys) fs"
      using l q fd hs True unfolding linked_def n2 by (auto simp: s2_def s1_def s0_def qpath_upd_other)
    have iv2: "iv s2 h = iv s1 h" for h by (simp add: s2_def iv_def)
    have fy: "f \<notin> set ys" using fd hs by simp
    have "in_space (ivs s2 (f # ys))" using sp new io [OF fy] by (auto simp: in_space_def iv2 i1 hs True)
    from merge_hole_ok [OF l2 this] obtain s' hs' fs' where m: "merge_hole f s2 = Inr s'" "linked s' hs' fs'"
        "ivs s' hs' = glue2 (unat b, unat len) (ivs s2 ys)" "mem_free s' = mem_free s2"
      using iv2 i1 by fastforce
    have "case hole_head s1 of None \<Rightarrow> True | Some h \<Rightarrow> b \<le> h_base (hole s1 h)"
      using q(1) above True hs fd by (cases ys) (auto simp: s1_def s0_def)
    then have "free_mem b len s = Inr (0, s')"
      using run m(1) hd1 by (simp add: s2_def)
    moreover have "mem_free s' = mem_free s + len" using m(4) by (simp add: s2_def s1_def s0_def)
    moreover have "ivs s2 ys = ivs s ys" using io [OF fy] iv2 by simp
    then have "ivs s' hs' = free_list (unat b) (unat len) (ivs s hs)" using m(3) fl True by metis
    ultimately show ?thesis using m(2) by blast
  next
    case False
    then obtain as q where xs: "xs = as @ [q]" by (cases xs rule: rev_cases) auto
    define s2 where "s2 = upd_hole q (h_next_update (\<lambda>_. Some f)) (upd_hole f (h_next_update (\<lambda>_. ?n q)) s1)"
    have qf: "q \<noteq> f" "q \<notin> set fs" using d hs xs by auto
    have n2: "(\<lambda>h. h_next (hole s2 h)) = ?n(f := ?n q, q := Some f)" using n1 qf by (auto simp: s2_def s1_def s0_def)
    have "qpath (?n(f := ?n q, q := Some f)) (hole_head s) (as @ q # f # ys)"
      using q(1) d(1) fd hs xs by (intro qpath_insert) auto
    then have l2: "linked s2 (as @ q # f # ys) fs"
      using l q(3) fd qf hs xs unfolding linked_def n2 by (auto simp: s2_def s1_def s0_def qpath_upd_other)
    have iv2: "iv s2 h = iv s1 h" for h by (simp add: s2_def iv_def)
    have fy: "f \<notin> set as" "f \<notin> set ys" "f \<notin> set [q]" using fd hs xs by auto
    then have io2: "ivs s2 as = ivs s as" "ivs s2 (f # ys) = (unat b, unat len) # ivs s ys" "iv s2 q = iv s q"
      using io [OF fy(1)] io [OF fy(2)] io [OF fy(3)] iv2 i1 by simp_all
    obtain bq lq where ivq: "iv s q = (bq, lq)" by force
    have "in_space (ivs s2 (q # f # ys))" using sp new io2 by (auto simp: in_space_def hs xs)
    from merge_hole_ok [OF l2 this] obtain s' hs' fs' where m: "merge_hole q s2 = Inr s'" "linked s' hs' fs'"
        "ivs s' hs' = ivs s as @ glue2 (iv s q) ((unat b, unat len) # ivs s ys)" "mem_free s' = mem_free s2"
      unfolding io2 ivq by blast
    have "\<not> (case hole_head s1 of None \<Rightarrow> True | Some h \<Rightarrow> b \<le> h_base (hole s1 h))"
      using q(1) below hs xs fd by (cases as) (auto simp: s1_def s0_def)
    moreover have "place_after (NR_HOLES + 1) b None (hole_head s1) s1 = Inr (Some q)"
    proof -
      have "h_base (hole s1 h) = h_base (hole s h)" if "h \<in> set hs" for h using that fd by (auto simp: s1_def s0_def)
      then have "\<forall>h \<in> set xs. h_base (hole s1 h) < b" "ys \<noteq> [] \<longrightarrow> \<not> h_base (hole s1 (hd ys)) < b"
        using below above hs by auto
      then show ?thesis
        using place_after_ok [of s1 "hole_head s1" xs ys b "NR_HOLES + 1" None] q(1) hs xs d(2) n1 hd1 by auto
    qed
    ultimately have "free_mem b len s = Inr (0, s')"
      using run m(1) n1 [THEN fun_cong, of q] by (simp add: s2_def)
    moreover have "mem_free s' = mem_free s + len" using m(4) by (simp add: s2_def s1_def s0_def)
    moreover have "ivs s' hs' = free_list (unat b) (unat len) (ivs s hs)" using m(3) fl False xs by simp
    ultimately show ?thesis using m(2) by blast
  qed
qed

lemma glue_ok:
  assumes "0 < l" and "b + l < 2 ^ 64" and "apart us" and "\<forall>(c, m) \<in> set us. b + l \<le> c"
  shows "apart (glue (b, l) us)" "bytes (glue (b, l) us) = {b..<b + l} \<union> bytes us" "\<forall>(c, m) \<in> set (glue (b, l) us). b \<le> c"
proof -
  have "apart (glue (b, l) us) \<and> bytes (glue (b, l) us) = {b..<b + l} \<union> bytes us \<and> (\<forall>(c, m) \<in> set (glue (b, l) us). b \<le> c)"
  proof (cases us)
    case Nil
    then show ?thesis using assms by (simp add: apart_Cons)
  next
    case (Cons x js)
    obtain c m where x: "x = (c, m)" by force
    then have a: "0 < m" "c + m < 2 ^ 64" "\<forall>(d, n) \<in> set js. c + m < d" "apart js" "b + l \<le> c"
      using assms(3,4) Cons by (auto simp: apart_Cons)
    show ?thesis
    proof (cases "b + l = c")
      case True
      then have "{b..<b + (l + m)} = {b..<b + l} \<union> {c..<c + m}" by auto
      then show ?thesis using True a x Cons assms(1) by (fastforce simp: apart_Cons)
    next
      case False
      then show ?thesis using a x Cons assms by (fastforce simp: apart_Cons)
    qed
  qed
  then show "apart (glue (b, l) us)" "bytes (glue (b, l) us) = {b..<b + l} \<union> bytes us" "\<forall>(c, m) \<in> set (glue (b, l) us). b \<le> c"
    by auto
qed

lemma glue_apart: "\<forall>(c, m) \<in> set us. b + l < c \<Longrightarrow> glue (b, l) us = (b, l) # us"
  by (cases us) auto

lemma glue2_front: "apart us \<Longrightarrow> glue2 (b, l) us = glue (b, l) us"
proof (cases us)
  case (Cons x js)
  moreover assume "apart us"
  moreover obtain c m where "x = (c, m)" by force
  ultimately show ?thesis
    using glue_apart [of js c m] glue_apart [of js b "l + m"] by (auto simp: apart_Cons add.assoc)
qed simp

lemma bytes_member: "(c, m) \<in> set us \<Longrightarrow> 0 < m \<Longrightarrow> c \<in> bytes us" "(c, m) \<in> set us \<Longrightarrow> c \<le> x \<Longrightarrow> x < c + m \<Longrightarrow> x \<in> bytes us"
  by (auto simp: bytes_def intro!: bexI [of _ "(c, m)"])

lemma free_list_ok:
  assumes us: "apart us" and new: "0 < l" "b + l < 2 ^ 64" and dj: "{b..<b + l} \<inter> bytes us = {}"
  shows "apart (free_list b l us)" "bytes (free_list b l us) = {b..<b + l} \<union> bytes us"
proof -
  define xs where "xs = takeWhile (\<lambda>(c, m). c < b) us"
  define ys where "ys = dropWhile (\<lambda>(c, m). c < b) us"
  have split: "us = xs @ ys" by (simp add: xs_def ys_def)
  have A: "apart xs" "apart ys" "\<forall>(c, m) \<in> set xs. \<forall>(d, n) \<in> set ys. c + m < d" using us split apart_append by auto
  have xb: "c + m \<le> b" if "(c, m) \<in> set xs" for c m
  proof -
    have "c < b" using that set_takeWhileD by (fastforce simp: xs_def)
    moreover have "b \<in> {b..<b + l}" using new(1) by simp
    then have "b \<notin> bytes us" using dj by blast
    ultimately show ?thesis using bytes_member(2) [of c m us b] that split by force
  qed
  have yb: "b + l \<le> c" if "(c, m) \<in> set ys" for c m
  proof -
    have "b \<le> c"
    proof (cases ys)
      case (Cons y zs)
      have "\<not> (case y of (c, m) \<Rightarrow> c < b)" using Cons unfolding ys_def dropWhile_eq_Cons_conv by simp
      then have "b \<le> fst y" by (cases y) simp
      moreover have "fst y \<le> c" using A(2) Cons that by (cases y) (auto simp: apart_Cons)
      ultimately show ?thesis by simp
    qed (use that in simp)
    moreover have "0 < m" using A(2) that by (auto simp: apart_def)
    then have "c \<in> bytes us" using bytes_member(1) [of c m us] that split by simp
    ultimately show ?thesis using dj by (cases "c < b + l") auto
  qed
  have "apart (free_list b l us) \<and> bytes (free_list b l us) = {b..<b + l} \<union> bytes us"
  proof (cases xs rule: rev_cases)
    case Nil
    then have "free_list b l us = glue (b, l) ys"
      using glue2_front [OF A(2)] by (simp add: free_list_def Let_def xs_def [symmetric] ys_def [symmetric])
    then show ?thesis using glue_ok [OF new A(2)] yb Nil split by auto
  next
    case (snoc as x)
    obtain p q where x: "x = (p, q)" by force
    have fl: "free_list b l us = as @ (if p + q = b then glue (p, q + l) ys else (p, q) # glue (b, l) ys)"
      using snoc x by (simp add: free_list_def Let_def xs_def [symmetric] ys_def [symmetric])
    have X: "0 < q" "p + q < 2 ^ 64" "apart as" "\<forall>(c, m) \<in> set as. c + m < p" "p + q \<le> b"
      using A(1) xb [of p q] snoc x by (auto simp: apart_append apart_Cons)
    show ?thesis
    proof (cases "p + q = b")
      case True
      have y: "\<forall>(c, m) \<in> set ys. p + (q + l) \<le> c" using yb True by fastforce
      have "0 < q + l" "p + (q + l) < 2 ^ 64" using X new True by auto
      note g = glue_ok [OF this A(2) y]
      have "{p..<p + (q + l)} = {p..<p + q} \<union> {b..<b + l}" using True by auto
      moreover have "\<forall>(c, m) \<in> set as. \<forall>(d, n) \<in> set (glue (p, q + l) ys). c + m < d" using X(4) g(3) by fastforce
      ultimately show ?thesis using True fl g X(3) snoc x split by (auto simp: apart_append)
    next
      case False
      have y: "\<forall>(c, m) \<in> set ys. b + l \<le> c" using yb by auto
      note g = glue_ok [OF new A(2) y]
      have "apart ((p, q) # glue (b, l) ys)" using g X False by (fastforce simp: apart_Cons)
      moreover have "\<forall>(c, m) \<in> set as. \<forall>(d, n) \<in> set ((p, q) # glue (b, l) ys). c + m < d" using X(4,5) g(3) by fastforce
      ultimately show ?thesis using False fl g(2) X(3) snoc x split by (auto simp: apart_append)
    qed
  qed
  then show "apart (free_list b l us)" "bytes (free_list b l us) = {b..<b + l} \<union> bytes us" by auto
qed

section \<open>Taking memory from a hole\<close>

definition cut :: "nat \<Rightarrow> interval \<Rightarrow> interval list" where
  "cut n i = (if snd i = n then [] else [(fst i + n, snd i - n)])"

lemma cut_hole:
  assumes l: "linked s (xs @ h # ys) fs" and p: "prev = (if xs = [] then None else Some (last xs))"
    and n: "n \<le> h_len (hole s h)" and sp: "unat (h_base (hole s h)) + unat (h_len (hole s h)) < 2 ^ 64"
    and s1: "s1 = (upd_hole h (\<lambda>x. x\<lparr>h_base := h_base x + n, h_len := h_len x - n\<rparr>) s)\<lparr>mem_free := fr\<rparr>"
  shows "\<exists>s' hs' fs'. (if h_len (hole s1 h) = 0 then delete_slot prev h s1 else Inr s1) = Inr s' \<and> linked s' hs' fs' \<and>
    ivs s' hs' = ivs s xs @ cut (unat n) (iv s h) @ ivs s ys \<and> mem_free s' = fr"
proof -
  have h: "h \<notin> set xs" "h \<notin> set ys" using l by (auto simp: linked_def)
  have l1: "linked s1 (xs @ h # ys) fs"
    using l unfolding s1 mem_free_frame by (subst linked_upd) simp_all
  have o1: "ivs s1 xs = ivs s xs" "ivs s1 ys = ivs s ys" using h by (auto simp: s1 iv_def)
  have fr: "mem_free s1 = fr" by (simp add: s1)
  have un: "unat n \<le> unat (h_len (hole s h))" using n by (simp add: word_le_nat_alt)
  have len: "unat (h_len (hole s1 h)) = unat (h_len (hole s h)) - unat n" using n by (simp add: s1 unat_sub)
  have base: "unat (h_base (hole s1 h)) = unat (h_base (hole s h)) + unat n" using un sp by (simp add: s1 unat_word_ariths)
  show ?thesis
  proof (cases "h_len (hole s1 h) = 0")
    case True
    then have "cut (unat n) (iv s h) = []" using len un by (simp add: cut_def iv_def)
    moreover obtain s' where "delete_slot prev h s1 = Inr s'" "linked s' (xs @ ys) (h # fs)" "ivs s' (xs @ ys) = ivs s1 (xs @ ys)"
        "mem_free s' = fr"
      using delete_slot_ok [OF l1 p] fr by blast
    ultimately show ?thesis using True o1 by (intro exI [of _ s'] exI [of _ "xs @ ys"] exI [of _ "h # fs"]) simp
  next
    case False
    then have "unat (h_len (hole s1 h)) \<noteq> 0" by (simp add: unat_eq_0)
    then have "cut (unat n) (iv s h) = [iv s1 h]" using len base un by (auto simp: cut_def iv_def)
    then show ?thesis using False l1 o1 fr by (intro exI [of _ s1] exI [of _ "xs @ h # ys"] exI [of _ fs]) simp
  qed
qed

text \<open>Memory for a process is memory aligned to one byte.\<close>

lemma delete_slot_mem_free: "delete_slot prev h (s\<lparr>mem_free := v\<rparr>) = bind_res (delete_slot prev h s) (\<lambda>s. Inr (s\<lparr>mem_free := v\<rparr>))"
  by (simp add: delete_slot_def upd_hole_def split: option.split)

lemma delete_slot_same_free: "delete_slot prev h s = Inr s' \<Longrightarrow> mem_free s' = mem_free s"
  by (auto simp: delete_slot_def split: if_splits option.splits)

lemma alloc_mem_loop_pages: "alloc_mem_loop fuel n prev x s = alloc_pages_loop fuel n 1 prev x s"
proof (induction fuel arbitrary: prev x)
  case (Suc fuel)
  have id: "upd_hole q (h_len_update (\<lambda>l. l)) s = s" for q s
    by (auto simp: fun_eq_iff intro!: phys_mem.equality phys_hole.equality)
  have gap: "page_gap 1 b = 0" for b by (simp add: page_gap_def)
  have same: "hole (s\<lparr>mem_free := v\<rparr>) = hole s" "mem_free (upd_hole h f s) = mem_free s" for s :: phys_mem and v h f by simp_all
  have const: "(case prev of None \<Rightarrow> s | Some _ \<Rightarrow> s) = s" for s :: phys_mem by (cases prev) simp_all
  have free: "bind_res (if e then delete_slot prev h s else Inr s) (\<lambda>s. Inr (b, s\<lparr>mem_free := mem_free s - n\<rparr>)) =
      bind_res (if e then delete_slot prev h (s\<lparr>mem_free := mem_free s - n\<rparr>) else Inr (s\<lparr>mem_free := mem_free s - n\<rparr>)) (\<lambda>s. Inr (b, s))"
    for e h s and b :: u64
    by (cases "delete_slot prev h s") (auto simp: delete_slot_mem_free dest: delete_slot_same_free)
  show ?case
  proof (cases x)
    case (Some h)
    show ?thesis
      unfolding Some alloc_mem_loop.simps alloc_pages_loop.simps option.case gap Let_def id add_0_right free if_cancel const same
      using Suc by (simp only:)
  qed simp
qed simp

definition gap :: "nat \<Rightarrow> nat \<Rightarrow> nat" where
  "gap al b = (if b mod al = 0 then 0 else al - b mod al)"

lemma gap_aligned: "0 < al \<Longrightarrow> (b + gap al b) mod al = 0"
proof -
  assume "0 < al"
  then have r: "b mod al < al" by simp
  have up: "x = d * a + m \<Longrightarrow> m < a \<Longrightarrow> x + (a - m) = (d + 1) * a" for x d a m :: nat by simp
  have "b + (al - b mod al) = (b div al + 1) * al" using up [OF _ r, of b "b div al"] by simp
  then show ?thesis by (auto simp: gap_def)
qed

lemma unat_page_gap: "al \<noteq> 0 \<Longrightarrow> unat (page_gap al b) = gap (unat al) (unat b)"
proof -
  assume "al \<noteq> 0"
  then have "unat b mod unat al < unat al" by (simp add: unat_gt_0)
  then show ?thesis by (auto simp: gap_def page_gap_def unat_sub word_le_nat_alt unat_mod_distrib word_unat_eq_iff unat_mod)
qed

lemma page_gap_less: "al \<noteq> 0 \<Longrightarrow> unat (page_gap al b) < unat al"
  using unat_page_gap [of al b] by (auto simp: gap_def unat_gt_0)

definition fits :: "phys_mem \<Rightarrow> u64 \<Rightarrow> u64 \<Rightarrow> nat \<Rightarrow> bool" where
  "fits s n al h \<longleftrightarrow> n + page_gap al (h_base (hole s h)) \<le> h_len (hole s h)"

text \<open>
  The gap in front of an aligned block is never given to the previous hole: holes are apart, and the test of
  \<open>alloc_pages\<close> compares the end of that hole with the block, not with the gap.
\<close>

lemma take_from_hole:
  assumes l: "linked s (xs @ h # ys) fs" and us: "apart (ivs s (xs @ h # ys))" and f: "fits s n al h"
    and p: "prev = (if xs = [] then None else Some (last xs))" and al: "al \<noteq> 0" and n: "unat n + unat al \<le> 2 ^ 64"
    and gap: "g = page_gap al (h_base (hole s h))"
  shows "\<exists>s' hs' fs'. alloc_pages_loop (Suc fuel) n al prev (Some h) s = Inr (h_base (hole s h) + g, s') \<and> linked s' hs' fs' \<and>
    ivs s' hs' = ivs s xs @ cut (unat n + unat g) (iv s h) @ ivs s ys \<and> mem_free s' = mem_free s - n"
proof -
  have sp: "unat (h_base (hole s h)) + unat (h_len (hole s h)) < 2 ^ 64" using us by (auto simp: apart_append apart_Cons iv_def)
  define s1 where "s1 = (upd_hole h (\<lambda>x. x\<lparr>h_base := h_base x + (n + g), h_len := h_len x - (n + g)\<rparr>) s)\<lparr>mem_free := mem_free s - n\<rparr>"
  have "unat n + unat g < 2 ^ 64" using page_gap_less [OF al, of "h_base (hole s h)"] n unfolding gap by linarith
  then have ng: "unat (n + g) = unat n + unat g" by (simp add: unat_word_ariths)
  have fit: "n + g \<le> h_len (hole s h)" using f by (simp add: fits_def gap)
  obtain s' hs' fs' where c: "(if h_len (hole s1 h) = 0 then delete_slot prev h s1 else Inr s1) = Inr s'" "linked s' hs' fs'"
      "ivs s' hs' = ivs s xs @ cut (unat n + unat g) (iv s h) @ ivs s ys" "mem_free s' = mem_free s - n"
    using cut_hole [OF l p fit sp s1_def] ng by auto
  have dead: "h_base (hole s (last xs)) + h_len (hole s (last xs)) \<noteq> h_base (hole s h) + g" if "xs \<noteq> []"
  proof -
    have "unat (h_base (hole s (last xs))) + unat (h_len (hole s (last xs))) < unat (h_base (hole s h))"
      using us last_in_set [OF that] by (auto simp: apart_append iv_def)
    moreover have "unat (h_base (hole s h) + g) = unat (h_base (hole s h)) + unat g"
      using sp fit ng by (simp add: unat_word_ariths word_le_nat_alt)
    moreover have "unat (h_base (hole s (last xs)) + h_len (hole s (last xs))) \<le> unat (h_base (hole s (last xs))) + unat (h_len (hole s (last xs)))"
      by (simp add: unat_word_ariths)
    ultimately have "unat (h_base (hole s (last xs)) + h_len (hole s (last xs))) \<noteq> unat (h_base (hole s h) + g)" by linarith
    then show ?thesis by (rule contrapos_nn) (rule arg_cong)
  qed
  have "h \<noteq> last xs" if "xs \<noteq> []" using l last_in_set [OF that] by (auto simp: linked_def)
  then have "alloc_pages_loop (Suc fuel) n al prev (Some h) s = Inr (h_base (hole s h) + g, s')"
    using c(1) dead fit p by (auto simp: Let_def gap [symmetric] s1_def)
  then show ?thesis using c(2-4) by blast
qed

lemma alloc_pages_skip:
  "qpath (\<lambda>h. h_next (hole s h)) x (as @ bs) \<Longrightarrow> \<forall>h \<in> set as. \<not> fits s n al h \<Longrightarrow>
    \<exists>y. qpath (\<lambda>h. h_next (hole s h)) y bs \<and>
      alloc_pages_loop (length as + fuel) n al prev x s = alloc_pages_loop fuel n al (if as = [] then prev else Some (last as)) y s"
proof (induction as arbitrary: x prev)
  case (Cons a as)
  then have "x = Some a" "\<not> fits s n al a" by auto
  then have "alloc_pages_loop (length (a # as) + fuel) n al prev x s = alloc_pages_loop (length as + fuel) n al (Some a) (h_next (hole s a)) s"
    by (simp add: fits_def Let_def)
  then show ?case using Cons.IH [of "h_next (hole s a)" "Some a"] Cons.prems by auto
qed auto

text \<open>What the table holds: a list of intervals that are apart.\<close>

definition holds :: "phys_mem \<Rightarrow> interval list \<Rightarrow> bool" where
  "holds s us \<longleftrightarrow> (\<exists>hs fs. linked s hs fs \<and> ivs s hs = us) \<and> apart us"

definition room :: "nat \<Rightarrow> nat \<Rightarrow> interval \<Rightarrow> bool" where
  "room n al i \<longleftrightarrow> n + gap al (fst i) \<le> snd i"

lemma fits_room: "al \<noteq> 0 \<Longrightarrow> unat n + unat al \<le> 2 ^ 64 \<Longrightarrow> fits s n al h \<longleftrightarrow> room (unat n) (unat al) (iv s h)"
proof -
  assume al: "al \<noteq> 0" "unat n + unat al \<le> 2 ^ 64"
  then have "unat n + unat (page_gap al (h_base (hole s h))) < 2 ^ 64" using page_gap_less [of al "h_base (hole s h)"] by linarith
  then show ?thesis using unat_page_gap [OF al(1)] by (simp add: fits_def room_def iv_def word_le_nat_alt unat_word_ariths)
qed

lemma cut_ok:
  assumes "apart (xs @ (b, m) # ys)" and "k \<le> m"
  shows "apart (xs @ cut k (b, m) @ ys)"
proof -
  have x: "apart xs" "\<forall>(c, l) \<in> set xs. c + l < b" "\<forall>(c, l) \<in> set xs. \<forall>(d, n) \<in> set ys. c + l < d" and y: "apart ((b, m) # ys)"
    using assms(1) by (simp_all add: apart_append case_prod_beta)
  have "\<forall>(c, l) \<in> set xs. c + l < b + k" using x(2) by fastforce
  moreover have "apart (cut k (b, m) @ ys)" using y assms(2) by (auto simp: cut_def apart_Cons)
  ultimately show ?thesis using x(1,3) by (subst apart_append) (simp add: cut_def case_prod_beta ball_Un)
qed

lemma alloc_pages_loop_ok:
  assumes h: "holds s us" and al: "al \<noteq> 0" "unat n + unat al \<le> 2 ^ 64"
  shows "(\<forall>i \<in> set us. \<not> room (unat n) (unat al) i) \<and> alloc_pages_loop (NR_HOLES + 1) n al None (hole_head s) s = Inr (0, s) \<or>
    (\<exists>xs b m ys a s'. us = xs @ (b, m) # ys \<and> (\<forall>i \<in> set xs. \<not> room (unat n) (unat al) i) \<and> room (unat n) (unat al) (b, m) \<and>
      alloc_pages_loop (NR_HOLES + 1) n al None (hole_head s) s = Inr (a, s') \<and> unat a = b + gap (unat al) b \<and>
      holds s' (xs @ cut (unat n + gap (unat al) b) (b, m) @ ys) \<and> mem_free s' = mem_free s - n)"
proof -
  obtain hs fs where l: "linked s hs fs" and us: "us = ivs s hs" "apart us" using h by (auto simp: holds_def)
  have q: "qpath (\<lambda>h. h_next (hole s h)) (hole_head s) hs" and len: "length hs \<le> NR_HOLES" using l by (auto simp: linked_def)
  show ?thesis
  proof (cases "\<exists>h \<in> set hs. fits s n al h")
    case False
    obtain y where "qpath (\<lambda>h. h_next (hole s h)) y []"
        "alloc_pages_loop (length hs + (NR_HOLES + 1 - length hs)) n al None (hole_head s) s =
         alloc_pages_loop (NR_HOLES + 1 - length hs) n al (if hs = [] then None else Some (last hs)) y s"
      using alloc_pages_skip [of s "hole_head s" hs "[]" n al "NR_HOLES + 1 - length hs" None] q False by auto
    moreover have "NR_HOLES + 1 - length hs = Suc (NR_HOLES - length hs)" using len by simp
    ultimately have "alloc_pages_loop (NR_HOLES + 1) n al None (hole_head s) s = Inr (0, s)" using len by simp
    then show ?thesis using False fits_room [OF al] us by auto
  next
    case True
    then obtain as h bs where hs: "hs = as @ h # bs" and f: "fits s n al h" "\<forall>h \<in> set as. \<not> fits s n al h"
      using split_list_first_prop [of hs "fits s n al"] by blast
    define pv where "pv = (if as = [] then None else Some (last as))"
    obtain y where y: "qpath (\<lambda>h. h_next (hole s h)) y (h # bs)"
        "alloc_pages_loop (length as + Suc (NR_HOLES - length as)) n al None (hole_head s) s =
         alloc_pages_loop (Suc (NR_HOLES - length as)) n al pv y s"
      using alloc_pages_skip [of s "hole_head s" as "h # bs" n al "Suc (NR_HOLES - length as)" None] q f hs by (auto simp: pv_def)
    define g where "g = page_gap al (h_base (hole s h))"
    obtain s' hs' fs' where c: "alloc_pages_loop (Suc (NR_HOLES - length as)) n al pv (Some h) s = Inr (h_base (hole s h) + g, s')"
        "linked s' hs' fs'" "ivs s' hs' = ivs s as @ cut (unat n + unat g) (iv s h) @ ivs s bs" "mem_free s' = mem_free s - n"
      using take_from_hole [of s as h bs fs n al pv g "NR_HOLES - length as"] l us f(1) al unfolding hs pv_def g_def by blast
    obtain b m where iv: "iv s h = (b, m)" by force
    then have b: "unat (h_base (hole s h)) = b" by (simp add: iv_def)
    have g: "unat g = gap (unat al) b" using unat_page_gap [OF al(1)] b by (simp add: g_def)
    have r: "room (unat n) (unat al) (b, m)" using fits_room [OF al] f(1) iv by metis
    have usp: "us = ivs s as @ (b, m) # ivs s bs" using us hs iv by simp
    have "b + m < 2 ^ 64" using us(2) usp by (simp add: apart_append apart_Cons)
    then have a: "unat (h_base (hole s h) + g) = b + gap (unat al) b" using g b r by (simp add: unat_word_ariths room_def)
    have "apart (ivs s as @ cut (unat n + gap (unat al) b) (b, m) @ ivs s bs)" using cut_ok us(2) usp r by (simp add: room_def)
    then have "holds s' (ivs s as @ cut (unat n + gap (unat al) b) (b, m) @ ivs s bs)" using c(2,3) g iv by (auto simp: holds_def)
    moreover have "y = Some h" "length as + Suc (NR_HOLES - length as) = NR_HOLES + 1" using y(1) len hs by auto
    then have "alloc_pages_loop (NR_HOLES + 1) n al None (hole_head s) s = Inr (h_base (hole s h) + g, s')"
      using y(2) c(1) by (simp only:)
    moreover have "\<forall>i \<in> set (ivs s as). \<not> room (unat n) (unat al) i" using f(2) fits_room [OF al] by auto
    ultimately show ?thesis using usp r a c(4) by blast
  qed
qed

section \<open>Allocating and freeing\<close>

lemma free_mem_holds:
  assumes h: "holds s us" and len: "len \<noteq> 0" "unat b + unat len < 2 ^ 64" and r: "length us < NR_HOLES"
    and dj: "{unat b..<unat b + unat len} \<inter> bytes us = {}"
  shows "\<exists>s'. free_mem b len s = Inr (0, s') \<and> holds s' (free_list (unat b) (unat len) us) \<and> mem_free s' = mem_free s + len"
proof -
  obtain hs fs where l: "linked s hs fs" and us: "us = ivs s hs" "apart us" using h by (auto simp: holds_def)
  then obtain f fs' where fs: "fs = f # fs'" using r by (cases fs) (auto simp: linked_def)
  have "in_space (ivs s hs)" using us by (auto simp: in_space_def apart_def)
  moreover have "0 < unat len" using len(1) by (simp add: unat_gt_0)
  then have "apart (free_list (unat b) (unat len) us)" using free_list_ok(1) [OF us(2) _ len(2) dj] by simp
  ultimately show ?thesis using free_mem_list [OF l [unfolded fs] _ len] us(1) unfolding holds_def by blast
qed

lemma takeWhile_split:
  "\<forall>x \<in> set xs. P x \<Longrightarrow> zs = [] \<or> \<not> P (hd zs) \<Longrightarrow> takeWhile P (xs @ zs) = xs \<and> dropWhile P (xs @ zs) = zs"
  by (cases zs) (simp_all add: takeWhile_append2 dropWhile_append2)

lemma first_unique:
  assumes "xs @ x # ys = xs' @ x' # ys'" and "\<forall>z \<in> set xs. \<not> P z" and "P x" and "\<forall>z \<in> set xs'. \<not> P z" and "P x'"
  shows "xs = xs' \<and> x = x' \<and> ys = ys'"
proof -
  have "takeWhile (\<lambda>z. \<not> P z) (xs @ x # ys) = xs" "takeWhile (\<lambda>z. \<not> P z) (xs' @ x' # ys') = xs'"
    using assms(2-) by (simp_all add: takeWhile_append2)
  then show ?thesis using assms(1) by simp
qed

lemma free_list_undo:
  assumes us: "apart (xs @ (b, m) # ys)" and n: "0 < n" "n \<le> m"
  shows "free_list b n (xs @ cut n (b, m) @ ys) = xs @ (b, m) # ys"
proof -
  have x: "\<forall>(c, k) \<in> set xs. c + k < b" and y: "\<forall>(c, k) \<in> set ys. b + m < c" and ys: "apart ys" using us by (auto simp: apart_append apart_Cons)
  have "\<forall>i \<in> set xs. case i of (c, k) \<Rightarrow> c < b" using x by fastforce
  moreover have "cut n (b, m) @ ys = [] \<or> \<not> (case hd (cut n (b, m) @ ys) of (c, k) \<Rightarrow> c < b)" using y by (cases ys) (auto simp: cut_def)
  ultimately have w: "takeWhile (\<lambda>(c, k). c < b) (xs @ cut n (b, m) @ ys) = xs \<and> dropWhile (\<lambda>(c, k). c < b) (xs @ cut n (b, m) @ ys) = cut n (b, m) @ ys"
    by (rule takeWhile_split)
  have g: "glue (b, n) (cut n (b, m) @ ys) = (b, m) # ys" using y n glue_apart [of ys b m] by (auto simp: cut_def)
  have "apart (cut n (b, m) @ ys)" using cut_ok [OF us n(2)] by (simp add: apart_append)
  then have g2: "glue2 (b, n) (cut n (b, m) @ ys) = (b, m) # ys" using glue2_front g by simp
  show ?thesis
  proof (cases xs rule: rev_cases)
    case Nil
    then show ?thesis using w g2 by (simp add: free_list_def Let_def)
  next
    case (snoc as x)
    obtain p q where px: "x = (p, q)" by force
    then have "p + q < b" using x snoc by auto
    then have "glue2 x ((b, n) # cut n (b, m) @ ys) = x # (b, m) # ys" using g px by simp
    then show ?thesis using w snoc by (simp add: free_list_def Let_def)
  qed
qed

lemma find_first: "\<forall>i \<in> set xs. \<not> P i \<Longrightarrow> P x \<Longrightarrow> find P (xs @ x # ys) = Some x"
  by (induction xs) auto

lemma bytes_cut:
  assumes "apart (xs @ (b, m) # ys)" and "k \<le> m"
  shows "bytes (xs @ cut k (b, m) @ ys) = bytes (xs @ (b, m) # ys) - {b..<b + k}"
proof -
  have "\<forall>(c, l) \<in> set xs. c + l < b" "\<forall>(c, l) \<in> set ys. b + m < c" using assms(1) by (auto simp: apart_append apart_Cons)
  then have "bytes xs \<inter> {b..<b + k} = {}" "bytes ys \<inter> {b..<b + k} = {}" using assms(2) by (fastforce simp: bytes_def)+
  moreover have "bytes (cut k (b, m)) = {b..<b + m} - {b..<b + k}" using assms(2) by (auto simp: cut_def)
  ultimately show ?thesis by auto
qed

lemma alloc_mem_ok:
  assumes "holds s us"
  shows "(\<forall>(c, k) \<in> set us. k < unat n) \<and> alloc_mem n s = Inr (0, s) \<or>
    (\<exists>xs b m ys a s'. us = xs @ (b, m) # ys \<and> (\<forall>(c, k) \<in> set xs. k < unat n) \<and> unat n \<le> m \<and> alloc_mem n s = Inr (a, s') \<and>
      unat a = b \<and> holds s' (xs @ cut (unat n) (b, m) @ ys) \<and> mem_free s' = mem_free s - n)"
proof -
  have "unat n + unat (1 :: u64) \<le> 2 ^ 64" using unsigned_less [of n, where 'a = nat] by simp
  note l = alloc_pages_loop_ok [OF assms _ this, unfolded alloc_mem_loop_pages [symmetric] alloc_mem_def [symmetric]]
  have "(\<forall>i \<in> set zs. \<not> room (unat n) (unat (1 :: u64)) i) \<longleftrightarrow> (\<forall>(c, k) \<in> set zs. k < unat n)" for zs
    by (auto simp: room_def gap_def not_le case_prod_beta)
  moreover have "room (unat n) (unat (1 :: u64)) (c, k) \<longleftrightarrow> unat n \<le> k" "gap (unat (1 :: u64)) c = 0" for c k
    by (simp_all add: room_def gap_def)
  ultimately show ?thesis using l [OF one_neq_zero] by (simp only: add_0_right)
qed

lemma free_slots_path: "j \<le> k \<Longrightarrow> (\<And>i. j \<le> i \<Longrightarrow> i < k \<Longrightarrow> n i = (if i = k - 1 then None else Some (i + 1))) \<Longrightarrow>
    qpath n (if j = k then None else Some j) [j..<k]"
proof (induction "k - j" arbitrary: j)
  case (Suc d)
  then have j: "j < k" by simp
  have "qpath n (if Suc j = k then None else Some (Suc j)) [Suc j..<k]" using Suc j by (intro Suc.hyps(1)) auto
  moreover have "n j = (if Suc j = k then None else Some (Suc j))" using Suc.prems(2) [of j] j by auto
  ultimately show ?case using j by (simp add: upt_conv_Cons)
qed simp

lemma mem_init_holds:
  assumes "sz \<noteq> 0" and "unat start + unat sz < 2 ^ 64"
  shows "\<exists>s'. mem_init start sz s = Inr (0, s') \<and> holds s' [(unat start, unat sz)] \<and> mem_free s' = mem_free s + sz"
proof -
  define s0 where "s0 = s\<lparr>hole := (\<lambda>i. if i < NR_HOLES then \<lparr>h_next = if i = NR_HOLES - 1 then None else Some (i + 1), h_base = 0, h_len = 0\<rparr>
      else hole s i), hole_head := None, free_slots := Some 0\<rparr>"
  have "qpath (\<lambda>h. h_next (hole s0 h)) (if 0 = NR_HOLES then None else Some 0) [0..<NR_HOLES]"
    by (rule free_slots_path) (simp_all add: s0_def)
  then have "linked s0 [] [0..<NR_HOLES]" by (simp add: linked_def s0_def)
  then have h: "holds s0 []" unfolding holds_def by (auto simp: apart_def)
  have "mem_init start sz s = free_mem start sz s0" by (simp only: mem_init_def s0_def)
  then show ?thesis using free_mem_holds [OF h assms] by (simp add: free_list_def s0_def)
qed

section \<open>Properties\<close>

text \<open>
  C23: a block of memory allocated by \<open>alloc_mem\<close> is the front of the first hole that is large enough, and no other
  memory is taken; freeing it again restores every hole as it was, and the count of free memory, as long as the
  table of holes was not full.
\<close>

theorem alloc_free_roundtrip:
  assumes h: "holds s us" and r: "length us < NR_HOLES" and n: "memsize \<noteq> 0"
    and us: "us = xs @ (b, m) # ys" and fit: "unat memsize \<le> m" and first: "\<forall>(c, k) \<in> set xs. k < unat memsize"
  shows "\<exists>a s1 us1 s2. alloc_mem memsize s = Inr (a, s1) \<and> unat a = b \<and> holds s1 us1 \<and> bytes us1 = bytes us - {b..<b + unat memsize} \<and>
    free_mem a memsize s1 = Inr (0, s2) \<and> holds s2 us \<and> mem_free s2 = mem_free s"
proof -
  have "xs' = xs \<and> b' = b \<and> m' = m \<and> ys' = ys"
    if "us = xs' @ (b', m') # ys'" "\<forall>(c, k) \<in> set xs'. k < unat memsize" "unat memsize \<le> m'" for xs' b' m' ys'
    using first_unique [of xs' "(b', m')" ys' xs "(b, m)" ys "\<lambda>i. unat memsize \<le> snd i"] that us fit first by fastforce
  note same = this
  have "(b, m) \<in> set us" using us by simp
  then have "\<not> (\<forall>(c, k) \<in> set us. k < unat memsize)" using fit by fastforce
  then obtain xs' b' m' ys' a s1 where "us = xs' @ (b', m') # ys'" "\<forall>(c, k) \<in> set xs'. k < unat memsize" "unat memsize \<le> m'"
      and "alloc_mem memsize s = Inr (a, s1)" "unat a = b'" "holds s1 (xs' @ cut (unat memsize) (b', m') @ ys')"
      "mem_free s1 = mem_free s - memsize"
    using alloc_mem_ok [OF h, of memsize] by blast
  then have a: "alloc_mem memsize s = Inr (a, s1)" "unat a = b" "holds s1 (xs @ cut (unat memsize) (b, m) @ ys)"
      "mem_free s1 = mem_free s - memsize" using same by blast+
  have ap: "apart (xs @ (b, m) # ys)" using h us by (simp add: holds_def)
  have rest: "bytes (xs @ cut (unat memsize) (b, m) @ ys) = bytes us - {b..<b + unat memsize}" using bytes_cut [OF ap fit] us by simp
  have "b + unat memsize < 2 ^ 64" "0 < unat memsize" using ap fit n by (auto simp: apart_append apart_Cons unat_gt_0)
  moreover have "length (xs @ cut (unat memsize) (b, m) @ ys) < NR_HOLES" using r us by (simp add: cut_def)
  moreover have "{b..<b + unat memsize} \<inter> bytes (xs @ cut (unat memsize) (b, m) @ ys) = {}" unfolding rest by blast
  ultimately obtain s2 where "free_mem a memsize s1 = Inr (0, s2)" "holds s2 us" "mem_free s2 = mem_free s1 + memsize"
    using free_mem_holds [OF a(3) n, of a] free_list_undo [OF ap _ fit] a(2) us by auto
  then show ?thesis using a rest by force
qed

abbreviation no_mem :: phys_mem where
  "no_mem \<equiv> \<lparr>hole = \<lambda>_. \<lparr>h_next = None, h_base = 0, h_len = 0\<rparr>, hole_head = None, free_slots = None, mem_free = 0\<rparr>"

theorem alloc_free_roundtrip_witness:
  "\<exists>s. mem_init 0x1000 0x10000 no_mem = Inr (0, s) \<and>
     (\<exists>a s1 us1 s2. alloc_mem 0x300 s = Inr (a, s1) \<and> unat a = 0x1000 \<and> holds s1 us1 \<and>
        bytes us1 = bytes [(0x1000, 0x10000)] - {0x1000..<0x1000 + unat (0x300 :: u64)} \<and>
        free_mem a 0x300 s1 = Inr (0, s2) \<and> holds s2 [(0x1000, 0x10000)] \<and> mem_free s2 = mem_free s)"
proof -
  obtain s where "mem_init 0x1000 0x10000 no_mem = Inr (0, s)" "holds s [(0x1000, 0x10000)]"
    using mem_init_holds [of "0x10000" "0x1000" no_mem] by auto
  then show ?thesis using alloc_free_roundtrip [of s "[(0x1000, 0x10000)]" "0x300" "[]" "0x1000" "0x10000" "[]"] by auto
qed

text \<open>
  C24: freeing a block that is in use adds exactly its bytes to the free memory, and joins it with the holes next to
  it: the holes stay sorted, with memory in use between any two of them.
\<close>

theorem free_mem_joins:
  assumes h: "holds s us" and "length us < NR_HOLES" and n: "len \<noteq> 0" and sp: "unat b + unat len < 2 ^ 64"
    and dj: "{unat b..<unat b + unat len} \<inter> bytes us = {}"
  shows "\<exists>s' us'. free_mem b len s = Inr (0, s') \<and> holds s' us' \<and> apart us' \<and> bytes us' = {unat b..<unat b + unat len} \<union> bytes us \<and>
    mem_free s' = mem_free s + len"
proof -
  have "apart us" "0 < unat len" using h n by (simp_all add: holds_def unat_gt_0)
  then show ?thesis using free_mem_holds [OF h n sp assms(2) dj] free_list_ok [of us "unat len" "unat b"] sp dj by blast
qed

theorem free_mem_joins_witness:
  "\<exists>s s' us'. mem_init 0x1000 0x10000 no_mem = Inr (0, s) \<and> free_mem 0x11000 0x2000 s = Inr (0, s') \<and> holds s' us' \<and> apart us' \<and>
     bytes us' = {unat (0x11000 :: u64)..<unat (0x11000 :: u64) + unat (0x2000 :: u64)} \<union> bytes [(0x1000, 0x10000)] \<and> mem_free s' = mem_free s + 0x2000"
proof -
  obtain s where "mem_init 0x1000 0x10000 no_mem = Inr (0, s)" "holds s [(0x1000, 0x10000)]"
    using mem_init_holds [of "0x10000" "0x1000" no_mem] by auto
  then show ?thesis using free_mem_joins [of s "[(0x1000, 0x10000)]" "0x2000" "0x11000"] by auto
qed

text \<open>
  C25: \<open>alloc_pages\<close> fails without a change when no hole has room for the aligned block; otherwise it returns an
  aligned block from the first hole that has.  The bytes in front of the block in that hole are lost with it, and
  \<open>mem_free\<close> counts them as free.
\<close>

theorem alloc_pages_aligned:
  assumes h: "holds s us" and n: "0 < nr_pages" "nr_pages < 2 ^ 31" and al: "al = (if align16k then 0x4000 else 0x1000)"
  shows "case find (room (nat nr_pages * 4096) al) us of
      None \<Rightarrow> alloc_pages nr_pages align16k s = Inr (0, s)
    | Some (b, m) \<Rightarrow> \<exists>a s' us'. alloc_pages nr_pages align16k s = Inr (a, s') \<and> unat a mod al = 0 \<and> b \<le> unat a \<and>
        unat a + nat nr_pages * 4096 \<le> b + m \<and> holds s' us' \<and> bytes us' = bytes us - {b..<unat a + nat nr_pages * 4096} \<and>
        mem_free s' = mem_free s - of_int nr_pages * 4096"
proof -
  define w :: u64 where "w = (if align16k then 0x4000 else ARCH_PG_SIZE)"
  define k :: u64 where "k = of_int nr_pages * ARCH_PG_SIZE"
  have w: "w \<noteq> 0" "unat w = al" "al \<noteq> 0" by (auto simp: w_def al)
  have np: "nat nr_pages < 2 ^ 31" using n by simp
  have "k = of_nat (nat nr_pages * 4096)" using n(1) by (simp add: k_def)
  moreover have "unat (of_nat (nat nr_pages * 4096) :: u64) = nat nr_pages * 4096" using np unfolding unat_of_nat by (intro mod_less) simp
  ultimately have k: "unat k = nat nr_pages * 4096" by metis
  have kw: "unat k + unat w \<le> 2 ^ 64" using np unfolding k by (simp add: w_def)
  have run: "alloc_pages nr_pages align16k s = alloc_pages_loop (NR_HOLES + 1) k w None (hole_head s) s"
    by (simp only: alloc_pages_def k_def w_def)
  show ?thesis
  proof (cases "find (room (nat nr_pages * 4096) al) us")
    case None
    then have "\<forall>i \<in> set us. \<not> room (nat nr_pages * 4096) al i" by (auto simp: find_None_iff)
    then show ?thesis using alloc_pages_loop_ok [OF h w(1) kw, unfolded k w(2)] run None by auto
  next
    case (Some i)
    then have "\<not> (\<forall>i \<in> set us. \<not> room (nat nr_pages * 4096) al i)" by (auto simp: find_Some_iff)
    then obtain xs b m ys a s' where f: "us = xs @ (b, m) # ys" "\<forall>i \<in> set xs. \<not> room (nat nr_pages * 4096) al i" "room (nat nr_pages * 4096) al (b, m)"
        and a: "alloc_pages nr_pages align16k s = Inr (a, s')" "unat a = b + gap al b"
        "holds s' (xs @ cut (nat nr_pages * 4096 + gap al b) (b, m) @ ys)" "mem_free s' = mem_free s - k"
      using alloc_pages_loop_ok [OF h w(1) kw, unfolded k w(2)] run by metis
    have "find (room (nat nr_pages * 4096) al) us = Some (b, m)" using f find_first by metis
    moreover have "(b + gap al b) mod al = 0" using w(3) gap_aligned by simp
    moreover have "bytes (xs @ cut (nat nr_pages * 4096 + gap al b) (b, m) @ ys) = bytes us - {b..<b + (nat nr_pages * 4096 + gap al b)}"
      using bytes_cut [of xs b m ys] h f by (simp add: holds_def room_def)
    ultimately show ?thesis using a f(3) by (auto simp: k_def room_def algebra_simps)
  qed
qed

theorem alloc_pages_aligned_witness:
  "\<exists>s. mem_init 0x1000 0x10000 no_mem = Inr (0, s) \<and>
     (case find (room (nat 2 * 4096) 0x4000) [(0x1000, 0x10000)] of
        None \<Rightarrow> alloc_pages 2 True s = Inr (0, s)
      | Some (b, m) \<Rightarrow> \<exists>a s' us'. alloc_pages 2 True s = Inr (a, s') \<and> unat a mod 0x4000 = 0 \<and> b \<le> unat a \<and> unat a + nat 2 * 4096 \<le> b + m \<and>
          holds s' us' \<and> bytes us' = bytes [(0x1000, 0x10000)] - {b..<unat a + nat 2 * 4096} \<and> mem_free s' = mem_free s - of_int 2 * 4096)"
proof -
  obtain s where "mem_init 0x1000 0x10000 no_mem = Inr (0, s)" "holds s [(0x1000, 0x10000)]"
    using mem_init_holds [of "0x10000" "0x1000" no_mem] by auto
  moreover note alloc_pages_aligned [of s "[(0x1000, 0x10000)]" 2 "0x4000" True]
  ultimately show ?thesis by (intro exI [of _ s]) simp
qed

end
