(* ===== verification/Coro.thy ===== *)
theory Coro
  imports Lyos_Prelude
begin

text \<open>
  The coroutines of the servers (\<open>lib/libcoro/\<close>): control blocks linked into queues, the scheduler, mutexes,
  condition variables and read-write locks.  A coroutine gives up the processor only inside the library;
  what is left of its call then is a list of frames.
\<close>

section \<open>State\<close>

abbreviation MAIN_THREAD :: int where "MAIN_THREAD \<equiv> - 1"
abbreviation NO_THREAD :: int where "NO_THREAD \<equiv> - 2"
abbreviation NR_THREADS :: int where "NR_THREADS \<equiv> 4"
abbreviation MAX_THREADS :: int where "MAX_THREADS \<equiv> 1024"

text \<open>
  The addresses of mutexes, condition variables and queues: those of the client, those inside the read-write
  lock \<open>r\<close>, and those inside the control block of thread \<open>t\<close>.
\<close>

datatype mref = Mutex nat | ReaderQueue nat | RwMutex nat | ExitM int
datatype cref = Cond nat | WriterQueue nat | Exited int
datatype qref = RunQueue | FreeThreads | MutexWait mref | CondWait cref

datatype coro_state = CR_DEAD | CR_BLOCKED | CR_RUNNABLE | CR_EXITING

text \<open>
  A control block without its machine context and stack and without the function that the thread runs.
\<close>

record coro_tcb =
  tid :: int
  tstate :: coro_state
  tresult :: nat
  next_tcb :: "int option"

record coro_queue =
  qhead :: "int option"
  qtail :: "int option"

text \<open>
  A control block is named by the number of its thread.  The mutex at \<open>m\<close> is its owner and its queue
  \<open>MutexWait m\<close>, a condition variable is its queue.
\<close>

record coro =
  tcb :: "int \<Rightarrow> coro_tcb"
  current_thread :: int
  nr_threads :: int
  initialized :: bool
  queues :: "qref \<Rightarrow> coro_queue"
  owner :: "mref \<Rightarrow> int"
  readers :: "nat \<Rightarrow> nat"
  writer :: "nat \<Rightarrow> int"

definition upd_tcb :: "int \<Rightarrow> (coro_tcb \<Rightarrow> coro_tcb) \<Rightarrow> coro \<Rightarrow> coro" where
  "upd_tcb t f s = s\<lparr>tcb := (tcb s)(t := f (tcb s t))\<rparr>"

definition is_valid_id :: "coro \<Rightarrow> int \<Rightarrow> bool" where
  "is_valid_id s t \<longleftrightarrow> t = MAIN_THREAD \<or> 0 \<le> t \<and> t < nr_threads s"

definition coro_find_tcb :: "int \<Rightarrow> coro \<Rightarrow> int res" where
  "coro_find_tcb t s = (if is_valid_id s t then Inr t else Inl Panic)"

section \<open>Queues\<close>

definition coro_queue_init :: "qref \<Rightarrow> coro \<Rightarrow> coro" where
  "coro_queue_init q s = s\<lparr>queues := (queues s)(q := \<lparr>qhead = None, qtail = None\<rparr>)\<rparr>"

definition coro_queue_empty :: "qref \<Rightarrow> coro \<Rightarrow> bool" where
  "coro_queue_empty q s \<longleftrightarrow> qhead (queues s q) = None"

definition coro_queue_enqueue :: "qref \<Rightarrow> int \<Rightarrow> coro \<Rightarrow> coro res" where
  "coro_queue_enqueue q thread s =
     bind_res (coro_find_tcb thread s) (\<lambda>p.
       if coro_queue_empty q s then Inr (s\<lparr>queues := (queues s)(q := \<lparr>qhead = Some p, qtail = Some p\<rparr>)\<rparr>)
       else case qtail (queues s q) of
              None \<Rightarrow> Inl NullDeref
            | Some l \<Rightarrow>
                let s = upd_tcb l (next_tcb_update (\<lambda>_. Some p)) s
                in Inr (s\<lparr>queues := (queues s)(q := (queues s q)\<lparr>qtail := Some p\<rparr>)\<rparr>))"

definition coro_queue_dequeue :: "qref \<Rightarrow> coro \<Rightarrow> int \<times> coro" where
  "coro_queue_dequeue q s =
     (case qhead (queues s q) of
        None \<Rightarrow> (NO_THREAD, s)
      | Some p \<Rightarrow>
          let thread = (if p = MAIN_THREAD then MAIN_THREAD else tid (tcb s p));
              s = (if thread \<noteq> NO_THREAD then
                     if qhead (queues s q) = qtail (queues s q)
                     then s\<lparr>queues := (queues s)(q := \<lparr>qhead = None, qtail = None\<rparr>)\<rparr>
                     else s\<lparr>queues := (queues s)(q := (queues s q)\<lparr>qhead := next_tcb (tcb s p)\<rparr>)\<rparr>
                   else s)
          in (thread, upd_tcb p (next_tcb_update (\<lambda>_. None)) s))"

section \<open>The scheduler\<close>

text \<open>Whether \<open>coro_schedule\<close> switched to another context; \<open>swapcontext\<close> does not fail.\<close>

definition coro_schedule :: "coro \<Rightarrow> (bool \<times> coro) res" where
  "coro_schedule s =
     (let old_thread = current_thread s in
      if coro_queue_empty RunQueue s \<and> old_thread = MAIN_THREAD then Inr (False, s)
      else
        let s = (if coro_queue_empty RunQueue s then s\<lparr>current_thread := MAIN_THREAD\<rparr>
                 else let (t, s) = coro_queue_dequeue RunQueue s in s\<lparr>current_thread := t\<rparr>)
        in bind_res (coro_find_tcb (current_thread s) s) (\<lambda>_. bind_res (coro_find_tcb old_thread s) (\<lambda>_. Inr (True, s))))"

text \<open>
  What a call comes to: a return value, or the frames that are left of it when its thread is switched out.
  Each frame is the rest of a function after a call that blocked.
\<close>

datatype coro_frame = Relock mref | Rdlock nat | WrLocked nat | WrMutex nat | WrWaited nat | SignalWriter nat |
  JoinLocked int | JoinWaited int | YieldAll

datatype outcome = Ret int | Susp "coro_frame list"

type_synonym call = "(outcome \<times> coro) res"

definition and_then :: "call \<Rightarrow> coro_frame \<Rightarrow> (int \<Rightarrow> coro \<Rightarrow> call) \<Rightarrow> call" where
  "and_then c f k = bind_res c (\<lambda>(out, s). case out of Ret v \<Rightarrow> k v s | Susp fs \<Rightarrow> Inr (Susp (fs @ [f]), s))"

definition coro_suspend :: "coro_state \<Rightarrow> coro \<Rightarrow> call" where
  "coro_suspend st s =
     bind_res (coro_find_tcb (current_thread s) s) (\<lambda>p.
     bind_res (coro_schedule (upd_tcb p (tstate_update (\<lambda>_. st)) s)) (\<lambda>(switched, s).
       Inr (if switched then Susp [] else Ret 0, s)))"

definition coro_unsuspend :: "int \<Rightarrow> coro \<Rightarrow> coro res" where
  "coro_unsuspend thread s =
     bind_res (coro_find_tcb thread s) (\<lambda>p.
       coro_queue_enqueue RunQueue thread (upd_tcb p (tstate_update (\<lambda>_. CR_RUNNABLE)) s))"

definition coro_scheduler_init :: "coro \<Rightarrow> coro" where
  "coro_scheduler_init s = coro_queue_init RunQueue s"

definition coro_yield :: "coro \<Rightarrow> call" where
  "coro_yield s =
     (if coro_queue_empty RunQueue s \<or> current_thread s = NO_THREAD then Inr (Ret (- 1), s)
      else bind_res (coro_queue_enqueue RunQueue (current_thread s) s) (coro_suspend CR_RUNNABLE))"

text \<open>The loop goes on when the thread is resumed; a \<open>coro_yield\<close> that returns at once would be called for ever.\<close>

definition coro_yield_all :: "coro \<Rightarrow> call" where
  "coro_yield_all s =
     (if coro_queue_empty RunQueue s then Inr (Ret 0, s) else and_then (coro_yield s) YieldAll (\<lambda>_ _. Inl Diverge))"

section \<open>Mutexes and condition variables\<close>

definition coro_mutex_init :: "mref option \<Rightarrow> coro \<Rightarrow> int \<times> coro" where
  "coro_mutex_init mutex s =
     (case mutex of
        None \<Rightarrow> (EINVAL, s)
      | Some m \<Rightarrow> let s = coro_queue_init (MutexWait m) s in (0, s\<lparr>owner := (owner s)(m := NO_THREAD)\<rparr>))"

definition coro_mutex_trylock :: "mref option \<Rightarrow> coro \<Rightarrow> int \<times> coro" where
  "coro_mutex_trylock mutex s =
     (case mutex of
        None \<Rightarrow> (EINVAL, s)
      | Some m \<Rightarrow>
          if owner s m = current_thread s then (EDEADLK, s)
          else if owner s m = NO_THREAD then (0, s\<lparr>owner := (owner s)(m := current_thread s)\<rparr>)
          else (EBUSY, s))"

definition coro_mutex_lock :: "mref option \<Rightarrow> coro \<Rightarrow> call" where
  "coro_mutex_lock mutex s =
     (let (retval, s) = coro_mutex_trylock mutex s in
      case mutex of
        Some m \<Rightarrow>
          if retval = EBUSY then bind_res (coro_queue_enqueue (MutexWait m) (current_thread s) s) (coro_suspend CR_BLOCKED)
          else Inr (Ret retval, s)
      | None \<Rightarrow> Inr (Ret retval, s))"

definition coro_mutex_unlock :: "mref option \<Rightarrow> coro \<Rightarrow> (int \<times> coro) res" where
  "coro_mutex_unlock mutex s =
     (case mutex of
        None \<Rightarrow> Inr (EINVAL, s)
      | Some m \<Rightarrow>
          if owner s m \<noteq> current_thread s then Inr (EPERM, s)
          else
            let (t, s) = coro_queue_dequeue (MutexWait m) s;
                s = s\<lparr>owner := (owner s)(m := t)\<rparr>
            in bind_res (if t \<noteq> NO_THREAD then coro_unsuspend t s else Inr s) (\<lambda>s. Inr (0, s)))"

definition coro_cond_init :: "cref option \<Rightarrow> coro \<Rightarrow> int \<times> coro" where
  "coro_cond_init cond s = (case cond of None \<Rightarrow> (EINVAL, s) | Some c \<Rightarrow> (0, coro_queue_init (CondWait c) s))"

definition coro_cond_signal :: "cref option \<Rightarrow> coro \<Rightarrow> (int \<times> coro) res" where
  "coro_cond_signal cond s =
     (case cond of
        None \<Rightarrow> Inr (EINVAL, s)
      | Some c \<Rightarrow>
          let (t, s) = coro_queue_dequeue (CondWait c) s
          in bind_res (if t \<noteq> NO_THREAD then coro_unsuspend t s else Inr s) (\<lambda>s. Inr (0, s)))"

fun broadcast_loop :: "nat \<Rightarrow> cref \<Rightarrow> coro \<Rightarrow> coro res" where
  "broadcast_loop 0 c s = Inl Diverge"
| "broadcast_loop (Suc fuel) c s =
     (if coro_queue_empty (CondWait c) s then Inr s
      else let (t, s) = coro_queue_dequeue (CondWait c) s
           in bind_res (if t \<noteq> NO_THREAD then coro_unsuspend t s else Inr s) (broadcast_loop fuel c))"

definition coro_cond_broadcast :: "cref option \<Rightarrow> coro \<Rightarrow> (int \<times> coro) res" where
  "coro_cond_broadcast cond s =
     (case cond of
        None \<Rightarrow> Inr (EINVAL, s)
      | Some c \<Rightarrow> bind_res (broadcast_loop (nat MAX_THREADS + 2) c s) (\<lambda>s. Inr (0, s)))"

definition coro_cond_wait :: "cref option \<Rightarrow> mref option \<Rightarrow> coro \<Rightarrow> call" where
  "coro_cond_wait cond mutex s =
     (case (cond, mutex) of
        (Some c, Some m) \<Rightarrow>
          bind_res (coro_mutex_unlock (Some m) s) (\<lambda>(retval, s).
            if retval \<noteq> 0 then Inr (Ret retval, s)
            else bind_res (coro_queue_enqueue (CondWait c) (current_thread s) s) (\<lambda>s.
              and_then (coro_suspend CR_BLOCKED s) (Relock m) (\<lambda>_ s. coro_mutex_lock (Some m) s)))
      | _ \<Rightarrow> Inr (Ret EINVAL, s))"

section \<open>Read-write locks\<close>

definition coro_rwlock_init :: "nat option \<Rightarrow> coro \<Rightarrow> int \<times> coro" where
  "coro_rwlock_init rwlock s =
     (case rwlock of
        None \<Rightarrow> (EINVAL, s)
      | Some r \<Rightarrow>
          let s = s\<lparr>writer := (writer s)(r := NO_THREAD), readers := (readers s)(r := 0)\<rparr>;
              (retval, s) = coro_mutex_init (Some (ReaderQueue r)) s
          in if retval \<noteq> 0 then (retval, s)
             else let (retval, s) = coro_cond_init (Some (WriterQueue r)) s
                  in if retval \<noteq> 0 then (retval, s) else coro_mutex_init (Some (RwMutex r)) s)"

definition rdlock_locked :: "nat \<Rightarrow> int \<Rightarrow> coro \<Rightarrow> call" where
  "rdlock_locked r retval s =
     (if retval \<noteq> 0 then Inr (Ret retval, s)
      else bind_res (coro_mutex_unlock (Some (ReaderQueue r)) s) (\<lambda>(retval, s).
        if retval \<noteq> 0 then Inr (Ret retval, s)
        else Inr (Ret 0, s\<lparr>readers := (readers s)(r := readers s r + 1)\<rparr>)))"

definition coro_rwlock_rdlock :: "nat option \<Rightarrow> coro \<Rightarrow> call" where
  "coro_rwlock_rdlock rwlock s =
     (case rwlock of
        None \<Rightarrow> Inr (Ret EINVAL, s)
      | Some r \<Rightarrow> and_then (coro_mutex_lock (Some (ReaderQueue r)) s) (Rdlock r) (rdlock_locked r))"

definition wrlock_waited :: "nat \<Rightarrow> int \<Rightarrow> coro \<Rightarrow> call" where
  "wrlock_waited r retval s =
     bind_res (coro_mutex_unlock (Some (RwMutex r)) s) (\<lambda>(unlocked, s). Inr (Ret (if retval \<noteq> 0 then retval else unlocked), s))"

definition wrlock_mutex :: "nat \<Rightarrow> int \<Rightarrow> coro \<Rightarrow> call" where
  "wrlock_mutex r retval s =
     (if retval \<noteq> 0 then Inr (Ret retval, s)
      else and_then (coro_cond_wait (Some (WriterQueue r)) (Some (RwMutex r)) s) (WrWaited r) (wrlock_waited r))"

definition wrlock_locked :: "nat \<Rightarrow> int \<Rightarrow> coro \<Rightarrow> call" where
  "wrlock_locked r retval s =
     (if retval \<noteq> 0 then Inr (Ret retval, s)
      else
        let s = s\<lparr>writer := (writer s)(r := current_thread s)\<rparr>
        in if readers s r > 0 then and_then (coro_mutex_lock (Some (RwMutex r)) s) (WrMutex r) (wrlock_mutex r)
           else Inr (Ret 0, s))"

definition coro_rwlock_wrlock :: "nat option \<Rightarrow> coro \<Rightarrow> call" where
  "coro_rwlock_wrlock rwlock s =
     (case rwlock of
        None \<Rightarrow> Inr (Ret EINVAL, s)
      | Some r \<Rightarrow> and_then (coro_mutex_lock (Some (ReaderQueue r)) s) (WrLocked r) (wrlock_locked r))"

definition signal_writer :: "nat \<Rightarrow> int \<Rightarrow> coro \<Rightarrow> call" where
  "signal_writer r retval s =
     (if retval \<noteq> 0 then Inr (Ret retval, s)
      else bind_res (coro_cond_signal (Some (WriterQueue r)) s) (\<lambda>(retval, s).
        bind_res (coro_mutex_unlock (Some (RwMutex r)) s) (\<lambda>(unlocked, s). Inr (Ret (if retval \<noteq> 0 then retval else unlocked), s))))"

definition coro_rwlock_unlock :: "nat option \<Rightarrow> coro \<Rightarrow> call" where
  "coro_rwlock_unlock rwlock s =
     (case rwlock of
        None \<Rightarrow> Inr (Ret EINVAL, s)
      | Some r \<Rightarrow>
          if writer s r = current_thread s then
            bind_res (coro_mutex_unlock (Some (ReaderQueue r)) (s\<lparr>writer := (writer s)(r := NO_THREAD)\<rparr>)) (\<lambda>(retval, s). Inr (Ret retval, s))
          else if readers s r = 0 \<and> writer s r \<noteq> NO_THREAD \<and> writer s r \<noteq> current_thread s then Inr (Ret EPERM, s)
          else if readers s r = 0 then Inr (Ret EPERM, s)
          else
            let s = s\<lparr>readers := (readers s)(r := readers s r - 1)\<rparr>
            in if readers s r = 0 \<and> writer s r \<noteq> NO_THREAD
               then and_then (coro_mutex_lock (Some (RwMutex r)) s) (SignalWriter r) (signal_writer r)
               else Inr (Ret 0, s))"

section \<open>Threads\<close>

definition coro_thread_reset :: "int \<Rightarrow> coro \<Rightarrow> coro res" where
  "coro_thread_reset thread s =
     bind_res (coro_find_tcb thread s) (\<lambda>p.
       Inr (upd_tcb p (\<lambda>b. b\<lparr>tid := thread, next_tcb := None, tstate := CR_DEAD, tresult := 0\<rparr>) s))"

definition coro_init :: "coro \<Rightarrow> coro res" where
  "coro_init s =
     (if initialized s then Inr s
      else bind_res (coro_thread_reset MAIN_THREAD s) (\<lambda>s.
        let s = coro_queue_init FreeThreads (s\<lparr>nr_threads := 0, current_thread := MAIN_THREAD\<rparr>)
        in Inr ((coro_scheduler_init s)\<lparr>initialized := True\<rparr>)))"

text \<open>
  What the allocations of memory come to: of the table of threads, of the control block of a thread, of the
  shrunken table after a failure, and of a stack.
\<close>

record coro_mem =
  pool_mem :: bool
  tcb_mem :: "int \<Rightarrow> bool"
  shrink_mem :: bool
  stack_mem :: bool

text \<open>Stacks are not part of the model; a stack that cannot be mapped is a panic.\<close>

definition coro_thread_init :: "coro_mem \<Rightarrow> int \<Rightarrow> coro \<Rightarrow> coro res" where
  "coro_thread_init mem thread s =
     bind_res (coro_find_tcb thread s) (\<lambda>p.
       let s = upd_tcb p (\<lambda>b. b\<lparr>next_tcb := None, tstate := CR_DEAD\<rparr>) s;
           (retval, s) = coro_cond_init (Some (Exited p)) s
       in if retval \<noteq> 0 then Inl Panic
          else let (retval, s) = coro_mutex_init (Some (ExitM p)) s
               in if retval \<noteq> 0 then Inl Panic else if \<not> stack_mem mem then Inl Panic else coro_unsuspend thread s)"

fun pool_loop :: "nat \<Rightarrow> int \<Rightarrow> coro \<Rightarrow> coro res" where
  "pool_loop 0 i s = Inr s"
| "pool_loop (Suc n) i s =
     bind_res (coro_queue_enqueue FreeThreads i s) (\<lambda>s. bind_res (coro_thread_reset i s) (pool_loop n (i + 1)))"

text \<open>New control blocks are zeroed.\<close>

definition new_tcbs :: "int \<Rightarrow> int \<Rightarrow> coro \<Rightarrow> coro" where
  "new_tcbs old new s =
     s\<lparr>tcb := (\<lambda>p. if old \<le> p \<and> p < new then \<lparr>tid = 0, tstate = CR_DEAD, tresult = 0, next_tcb = None\<rparr> else tcb s p),
       owner := (\<lambda>m. case m of ExitM p \<Rightarrow> if old \<le> p \<and> p < new then 0 else owner s m | _ \<Rightarrow> owner s m),
       queues := (\<lambda>q. case q of
           MutexWait (ExitM p) \<Rightarrow> if old \<le> p \<and> p < new then \<lparr>qhead = None, qtail = None\<rparr> else queues s q
         | CondWait (Exited p) \<Rightarrow> if old \<le> p \<and> p < new then \<lparr>qhead = None, qtail = None\<rparr> else queues s q
         | _ \<Rightarrow> queues s q)\<rparr>"

definition realloc_thread_pool :: "coro_mem \<Rightarrow> coro \<Rightarrow> (int \<times> coro) res" where
  "realloc_thread_pool mem s =
     (let old = nr_threads s;
          new = (if old = 0 then NR_THREADS else old * 2)
      in if new \<ge> MAX_THREADS then Inr (- 1, s)
         else if \<not> pool_mem mem then Inl NullDeref
         else if \<exists>i \<in> set [old..new - 1]. \<not> tcb_mem mem i then
           if old \<noteq> 0 \<and> \<not> shrink_mem mem then Inl Panic else Inr (- 1, s)
         else bind_res (pool_loop (nat (new - old)) old ((new_tcbs old new s)\<lparr>nr_threads := new\<rparr>)) (\<lambda>s. Inr (0, s)))"

text \<open>The recursion of \<open>coro_thread_create\<close>: the second call finds a free thread.  The result is the new thread.\<close>

fun thread_create :: "nat \<Rightarrow> coro_mem \<Rightarrow> coro \<Rightarrow> (int \<times> int option \<times> coro) res" where
  "thread_create 0 mem s = Inl Diverge"
| "thread_create (Suc fuel) mem s =
     (if \<not> coro_queue_empty FreeThreads s then
        let (t, s) = coro_queue_dequeue FreeThreads s
        in bind_res (coro_thread_init mem t s) (\<lambda>s. Inr (0, Some t, s))
      else bind_res (realloc_thread_pool mem s) (\<lambda>(retval, s).
        if retval = - 1 then Inr (EAGAIN, None, s) else thread_create fuel mem s))"

definition coro_thread_create :: "coro_mem \<Rightarrow> nat \<Rightarrow> coro \<Rightarrow> (int \<times> int option \<times> coro) res" where
  "coro_thread_create mem proc s = (if proc = 0 then Inr (EINVAL, None, s) else thread_create 2 mem s)"

definition coro_thread_stop :: "int \<Rightarrow> coro \<Rightarrow> coro res" where
  "coro_thread_stop thread s =
     bind_res (coro_find_tcb thread s) (\<lambda>p.
       if tstate (tcb s p) = CR_DEAD then Inr s
       else if thread \<noteq> current_thread s
         then bind_res (coro_thread_reset thread s) (coro_queue_enqueue FreeThreads thread)
         else Inr s)"

definition coro_exit :: "nat \<Rightarrow> coro \<Rightarrow> call" where
  "coro_exit res s =
     bind_res (coro_find_tcb (current_thread s) s) (\<lambda>p.
       if tstate (tcb s p) = CR_EXITING then Inr (Ret 0, s)
       else bind_res (coro_cond_signal (Some (Exited p)) (upd_tcb p (\<lambda>b. b\<lparr>tresult := res, tstate := CR_EXITING\<rparr>) s)) (\<lambda>(retval, s).
         if retval \<noteq> 0 then Inl Panic
         else bind_res (coro_schedule s) (\<lambda>(switched, s). Inr (if switched then Susp [] else Ret 0, s))))"

text \<open>\<open>coro_join\<close>; the pointer through which it passes on the result of the thread is not modelled.\<close>

definition join_done :: "int \<Rightarrow> coro \<Rightarrow> call" where
  "join_done thread s = bind_res (coro_thread_stop thread s) (\<lambda>s. Inr (Ret 0, s))"

definition join_waited :: "int \<Rightarrow> int \<Rightarrow> coro \<Rightarrow> call" where
  "join_waited thread retval s =
     (if retval \<noteq> 0 then Inr (Ret retval, s)
      else bind_res (coro_mutex_unlock (Some (ExitM thread)) s) (\<lambda>(retval, s).
        if retval \<noteq> 0 then Inr (Ret retval, s) else join_done thread s))"

definition join_locked :: "int \<Rightarrow> int \<Rightarrow> coro \<Rightarrow> call" where
  "join_locked thread retval s =
     (if retval \<noteq> 0 then Inr (Ret retval, s)
      else and_then (coro_cond_wait (Some (Exited thread)) (Some (ExitM thread)) s) (JoinWaited thread) (join_waited thread))"

definition coro_join :: "int \<Rightarrow> coro \<Rightarrow> call" where
  "coro_join thread s =
     (if \<not> is_valid_id s thread then Inr (Ret EINVAL, s)
      else if thread = current_thread s then Inr (Ret EDEADLK, s)
      else if tstate (tcb s thread) = CR_DEAD then Inr (Ret ESRCH, s)
      else if tstate (tcb s thread) \<noteq> CR_EXITING
        then and_then (coro_mutex_lock (Some (ExitM thread)) s) (JoinLocked thread) (join_locked thread)
      else join_done thread s)"

text \<open>What a thread does when it is switched in again.\<close>

fun run_frame :: "coro_frame \<Rightarrow> int \<Rightarrow> coro \<Rightarrow> call" where
  "run_frame (Relock m) v s = coro_mutex_lock (Some m) s"
| "run_frame (Rdlock r) v s = rdlock_locked r v s"
| "run_frame (WrLocked r) v s = wrlock_locked r v s"
| "run_frame (WrMutex r) v s = wrlock_mutex r v s"
| "run_frame (WrWaited r) v s = wrlock_waited r v s"
| "run_frame (SignalWriter r) v s = signal_writer r v s"
| "run_frame (JoinLocked t) v s = join_locked t v s"
| "run_frame (JoinWaited t) v s = join_waited t v s"
| "run_frame YieldAll v s = coro_yield_all s"

fun resume :: "coro_frame list \<Rightarrow> int \<Rightarrow> coro \<Rightarrow> call" where
  "resume [] v s = Inr (Ret v, s)"
| "resume (f # fs) v s =
     bind_res (run_frame f v s) (\<lambda>(out, s).
       case out of Ret v \<Rightarrow> resume fs v s | Susp gs \<Rightarrow> Inr (Susp (gs @ fs), s))"

end
