(* ===== verification/Coro_Queues.thy ===== *)
theory Coro_Queues
  imports Coro
begin

text \<open>
  The queues of coroutines are sequences of threads, and a thread is in one of them at most; what the scheduler,
  mutexes and condition variables do to these sequences.
\<close>

section \<open>Queues as sequences\<close>

definition queue_of :: "coro \<Rightarrow> qref \<Rightarrow> int list \<Rightarrow> bool" where
  "queue_of s q xs \<longleftrightarrow>
     qpath (\<lambda>t. next_tcb (tcb s t)) (qhead (queues s q)) xs \<and> qtail (queues s q) = (if xs = [] then None else Some (last xs))"

definition queued :: "(qref \<Rightarrow> int list) \<Rightarrow> int set" where
  "queued qs = (\<Union>q. set (qs q))"

definition coro_queues_ok :: "coro \<Rightarrow> (qref \<Rightarrow> int list) \<Rightarrow> bool" where
  "coro_queues_ok s qs \<longleftrightarrow>
     (\<forall>q. queue_of s q (qs q) \<and> distinct (qs q)) \<and> (\<forall>q q'. q \<noteq> q' \<longrightarrow> set (qs q) \<inter> set (qs q') = {}) \<and>
     (\<forall>t. is_valid_id s t \<longrightarrow> tid (tcb s t) = t \<and> (t \<notin> queued qs \<longrightarrow> next_tcb (tcb s t) = None)) \<and>
     (\<forall>t \<in> queued qs. is_valid_id s t)"

text \<open>What queue operations leave alone.\<close>

definition same_core :: "coro \<Rightarrow> coro \<Rightarrow> bool" where
  "same_core s s' \<longleftrightarrow> current_thread s' = current_thread s \<and> nr_threads s' = nr_threads s \<and> readers s' = readers s \<and> writer s' = writer s"

lemma upd_tcb_simps [simp]:
  "tcb (upd_tcb t f s) = (tcb s)(t := f (tcb s t))" "current_thread (upd_tcb t f s) = current_thread s"
  "nr_threads (upd_tcb t f s) = nr_threads s" "queues (upd_tcb t f s) = queues s" "owner (upd_tcb t f s) = owner s"
  "readers (upd_tcb t f s) = readers s" "writer (upd_tcb t f s) = writer s"
  by (simp_all add: upd_tcb_def)

lemma valid_cong: "nr_threads s' = nr_threads s \<Longrightarrow> is_valid_id s' t = is_valid_id s t"
  by (simp add: is_valid_id_def)

lemma not_valid_none [simp]: "\<not> is_valid_id s NO_THREAD"
  by (simp add: is_valid_id_def)

lemma queuesD:
  assumes "coro_queues_ok s qs"
  shows "queue_of s q (qs q)" "distinct (qs q)" "q \<noteq> q' \<Longrightarrow> t \<in> set (qs q) \<Longrightarrow> t \<notin> set (qs q')"
    "t \<in> set (qs q) \<Longrightarrow> is_valid_id s t" "is_valid_id s t \<Longrightarrow> tid (tcb s t) = t"
    "is_valid_id s t \<Longrightarrow> t \<notin> queued qs \<Longrightarrow> next_tcb (tcb s t) = None"
  using assms by (auto simp: coro_queues_ok_def queued_def)

lemma coro_queues_okI:
  assumes "\<And>q. queue_of s q (qs q)" and "\<And>q. distinct (qs q)" and "\<And>q q'. q \<noteq> q' \<Longrightarrow> set (qs q) \<inter> set (qs q') = {}"
    and "\<And>t. is_valid_id s t \<Longrightarrow> tid (tcb s t) = t" and "\<And>t. is_valid_id s t \<Longrightarrow> t \<notin> queued qs \<Longrightarrow> next_tcb (tcb s t) = None"
    and "\<And>t. t \<in> queued qs \<Longrightarrow> is_valid_id s t"
  shows "coro_queues_ok s qs"
  using assms by (simp add: coro_queues_ok_def)

lemma queue_empty: "coro_queues_ok s qs \<Longrightarrow> coro_queue_empty q s \<longleftrightarrow> qs q = []"
  using queuesD(1) [of s qs q] by (cases "qs q") (auto simp: queue_of_def coro_queue_empty_def)

lemma coro_queues_ok_cong:
  assumes "queues s' = queues s" and "nr_threads s' = nr_threads s" and "\<And>u. next_tcb (tcb s' u) = next_tcb (tcb s u)"
    and "\<And>u. tid (tcb s' u) = tid (tcb s u)"
  shows "coro_queues_ok s' qs = coro_queues_ok s qs"
  using assms by (simp add: coro_queues_ok_def queue_of_def is_valid_id_def)

lemma coro_queues_ok_upd [simp]:
  "coro_queues_ok (upd_tcb t (tstate_update f) s) qs = coro_queues_ok s qs" "coro_queues_ok (s\<lparr>current_thread := c\<rparr>) qs = coro_queues_ok s qs"
  "coro_queues_ok (s\<lparr>owner := ow\<rparr>) qs = coro_queues_ok s qs" "coro_queues_ok (s\<lparr>readers := rs\<rparr>) qs = coro_queues_ok s qs"
  "coro_queues_ok (s\<lparr>writer := w\<rparr>) qs = coro_queues_ok s qs"
  by (rule coro_queues_ok_cong; simp)+

lemma queued_upd: "queued (qs(q := xs)) = set xs \<union> (\<Union>q' \<in> - {q}. set (qs q'))"
  by (auto simp: queued_def split: if_splits)

lemma enqueue_ok:
  assumes ok: "coro_queues_ok s qs" and v: "is_valid_id s t" and fresh: "t \<notin> queued qs"
  shows "\<exists>s'. coro_queue_enqueue q t s = Inr s' \<and> coro_queues_ok s' (qs(q := qs q @ [t])) \<and> same_core s s' \<and> owner s' = owner s \<and>
    (\<forall>u. tstate (tcb s' u) = tstate (tcb s u))"
proof -
  let ?n = "\<lambda>u. next_tcb (tcb s u)"
  have qo: "qpath ?n (qhead (queues s q)) (qs q)" "qtail (queues s q) = (if qs q = [] then None else Some (last (qs q)))"
    using queuesD(1) [OF ok, of q] by (auto simp: queue_of_def)
  have tn: "?n t = None" using queuesD(6) [OF ok v fresh] .
  have nt: "t \<notin> set (qs q')" for q' using fresh by (auto simp: queued_def)
  have all: "queued (qs(q := qs q @ [t])) = insert t (queued qs)" by (auto simp: queued_def split: if_splits)
  show ?thesis
  proof (cases "qs q = []")
    case True
    define s' where "s' = s\<lparr>queues := (queues s)(q := \<lparr>qhead = Some t, qtail = Some t\<rparr>)\<rparr>"
    have run: "coro_queue_enqueue q t s = Inr s'"
      using v True queue_empty [OF ok, of q] by (simp add: coro_queue_enqueue_def coro_find_tcb_def s'_def)
    have "queue_of s' q' ((qs(q := qs q @ [t])) q')" for q'
      using queuesD(1) [OF ok, of q'] True tn by (auto simp: queue_of_def s'_def)
    then have "coro_queues_ok s' (qs(q := qs q @ [t]))"
      unfolding coro_queues_ok_def all using ok nt v True by (auto simp: coro_queues_ok_def s'_def is_valid_id_def)
    then show ?thesis using run by (auto simp: same_core_def s'_def)
  next
    case False
    let ?l = "last (qs q)"
    define s' where "s' = (upd_tcb ?l (next_tcb_update (\<lambda>_. Some t)) s)\<lparr>queues := (queues s)(q := (queues s q)\<lparr>qtail := Some t\<rparr>)\<rparr>"
    have l: "?l \<in> set (qs q)" using False by simp
    then have lt: "?l \<noteq> t" using nt by metis
    have run: "coro_queue_enqueue q t s = Inr s'"
      using v False qo(2) queue_empty [OF ok, of q] by (simp add: coro_queue_enqueue_def coro_find_tcb_def s'_def Let_def)
    have nx: "(\<lambda>u. next_tcb (tcb s' u)) = ?n(?l := Some t)" by (auto simp: s'_def)
    have "?n(?l := Some t) = ?n(?l := Some t, t := None)" using tn lt by auto
    then have "qpath (?n(?l := Some t)) (qhead (queues s q)) (qs q @ [t])"
      using qpath_snoc [OF qo(1) False queuesD(2) [OF ok] nt] by simp
    moreover have "qpath (?n(?l := Some t)) x (qs q') = qpath ?n x (qs q')" if "q' \<noteq> q" for q' x
      using queuesD(3) [OF ok, of q q' ?l] l that by (intro qpath_upd_other) auto
    ultimately have "queue_of s' q' ((qs(q := qs q @ [t])) q')" for q'
      using queuesD(1) [OF ok, of q'] unfolding queue_of_def nx by (auto simp: s'_def)
    moreover have "next_tcb (tcb s' u) = next_tcb (tcb s u)" if "u \<notin> queued qs" for u
      using that l by (auto simp: s'_def queued_def)
    ultimately have "coro_queues_ok s' (qs(q := qs q @ [t]))"
      unfolding coro_queues_ok_def all using ok nt v by (auto simp: coro_queues_ok_def s'_def is_valid_id_def)
    then show ?thesis using run by (auto simp: same_core_def s'_def)
  qed
qed

lemma dequeue_empty: "coro_queues_ok s qs \<Longrightarrow> qs q = [] \<Longrightarrow> coro_queue_dequeue q s = (NO_THREAD, s)"
  using queuesD(1) [of s qs q] by (auto simp: queue_of_def coro_queue_dequeue_def)

lemma dequeue_ok:
  assumes ok: "coro_queues_ok s qs" and q: "qs q = t # ts"
  shows "\<exists>s'. coro_queue_dequeue q s = (t, s') \<and> coro_queues_ok s' (qs(q := ts)) \<and> same_core s s' \<and> owner s' = owner s \<and>
    (\<forall>u. tstate (tcb s' u) = tstate (tcb s u))"
proof -
  let ?n = "\<lambda>u. next_tcb (tcb s u)"
  have qo: "qhead (queues s q) = Some t" "qpath ?n (?n t) ts" "qtail (queues s q) = Some (last (t # ts))"
    using queuesD(1) [OF ok, of q] q by (auto simp: queue_of_def)
  have d: "t \<notin> set ts" "distinct ts" using queuesD(2) [OF ok, of q] q by auto
  have v: "is_valid_id s t" and id: "tid (tcb s t) = t" using queuesD(4,5) [OF ok, of t] q by (metis list.set_intros(1))+
  have nt: "t \<noteq> NO_THREAD" using v not_valid_none by metis
  have hd: "t = last (t # ts) \<longleftrightarrow> ts = []" using d(1) last_in_set [of ts] by auto
  have no: "t \<notin> set (qs q')" if "q' \<noteq> q" for q' using queuesD(3) [OF ok, of q q' t] q that by auto
  define s' where "s' = (upd_tcb t (next_tcb_update (\<lambda>_. None)) s)\<lparr>queues := (queues s)(q :=
    if ts = [] then \<lparr>qhead = None, qtail = None\<rparr> else (queues s q)\<lparr>qhead := ?n t\<rparr>)\<rparr>"
  have run: "coro_queue_dequeue q s = (t, s')"
    unfolding coro_queue_dequeue_def qo(1,3) option.case option.inject hd using id nt
    by (cases "ts = []") (auto simp: s'_def Let_def upd_tcb_def)
  have nx: "(\<lambda>u. next_tcb (tcb s' u)) = ?n(t := None)" by (auto simp: s'_def)
  have qd: "queued (qs(q := ts)) = queued qs - {t}" using d(1) no q by (auto simp: queued_def split: if_splits) (metis set_ConsD)
  have val: "is_valid_id s' u = is_valid_id s u" for u by (simp add: s'_def is_valid_id_def)
  have "coro_queues_ok s' (qs(q := ts))"
  proof (rule coro_queues_okI)
    show "queue_of s' q' ((qs(q := ts)) q')" for q'
      using queuesD(1) [OF ok, of q'] qo d no [of q'] unfolding queue_of_def nx by (auto simp: s'_def qpath_upd_other)
    show "distinct ((qs(q := ts)) q')" for q' using queuesD(2) [OF ok] d by simp
    have "set ((qs(q := ts)) q') \<subseteq> set (qs q')" for q' using q by auto
    then show "q1 \<noteq> q2 \<Longrightarrow> set ((qs(q := ts)) q1) \<inter> set ((qs(q := ts)) q2) = {}" for q1 q2
      using queuesD(3) [OF ok, of q1 q2] by blast
    show "tid (tcb s' u) = u" if "is_valid_id s' u" for u using that queuesD(5) [OF ok, of u] unfolding val by (auto simp: s'_def)
    show "next_tcb (tcb s' u) = None" if "is_valid_id s' u" "u \<notin> queued (qs(q := ts))" for u
      using that queuesD(6) [OF ok, of u] unfolding val qd by (auto simp: s'_def)
    show "is_valid_id s' u" if "u \<in> queued (qs(q := ts))" for u
      using that queuesD(4) [OF ok] unfolding val qd by (auto simp: queued_def)
  qed
  then show ?thesis using run by (auto simp: same_core_def s'_def)
qed

lemma unsuspend_ok:
  assumes ok: "coro_queues_ok s qs" and v: "is_valid_id s t" and fresh: "t \<notin> queued qs"
  shows "\<exists>s'. coro_unsuspend t s = Inr s' \<and> coro_queues_ok s' (qs(RunQueue := qs RunQueue @ [t])) \<and> same_core s s' \<and> owner s' = owner s \<and>
    (\<forall>u. tstate (tcb s' u) = (if u = t then CR_RUNNABLE else tstate (tcb s u)))"
proof -
  let ?s = "upd_tcb t (tstate_update (\<lambda>_. CR_RUNNABLE)) s"
  have "coro_queues_ok ?s qs" "is_valid_id ?s t" using ok v by (simp_all add: is_valid_id_def)
  from enqueue_ok [OF this fresh, of RunQueue] show ?thesis
    using v by (auto simp: coro_unsuspend_def coro_find_tcb_def same_core_def)
qed

text \<open>
  Waking the first thread of a wait queue: what \<open>coro_mutex_unlock\<close> and \<open>coro_cond_signal\<close> share.
\<close>

definition woken :: "qref \<Rightarrow> (qref \<Rightarrow> int list) \<Rightarrow> qref \<Rightarrow> int list" where
  "woken q qs = (case qs q of [] \<Rightarrow> qs | t # ts \<Rightarrow> qs(q := ts, RunQueue := qs RunQueue @ [t]))"

definition first_of :: "qref \<Rightarrow> (qref \<Rightarrow> int list) \<Rightarrow> int" where
  "first_of q qs = (case qs q of [] \<Rightarrow> NO_THREAD | t # ts \<Rightarrow> t)"

lemma not_queued_twice:
  assumes ok: "coro_queues_ok s qs" and q: "qs q = t # ts"
  shows "t \<notin> queued (qs(q := ts))"
  using queuesD(2,3) [OF ok, of q] q by (auto simp: queued_def split: if_splits)

lemma wake_ok:
  assumes ok: "coro_queues_ok s qs" and q: "q \<noteq> RunQueue" and d: "coro_queue_dequeue q s = (t, s1)"
  shows "t = first_of q qs \<and> owner s1 = owner s \<and>
    (\<exists>s'. (if t \<noteq> NO_THREAD then coro_unsuspend t (s1\<lparr>owner := ow\<rparr>) else Inr (s1\<lparr>owner := ow\<rparr>)) = Inr s' \<and> coro_queues_ok s' (woken q qs) \<and>
      same_core s s' \<and> owner s' = ow \<and> (\<forall>u. tstate (tcb s' u) = (if u = first_of q qs \<and> qs q \<noteq> [] then CR_RUNNABLE else tstate (tcb s u))))"
proof (cases "qs q")
    case Nil
    then show ?thesis using dequeue_empty [OF ok Nil] d ok by (auto simp: first_of_def woken_def same_core_def)
  next
    case (Cons a ts)
    obtain s2 where s2: "coro_queue_dequeue q s = (a, s2)" "coro_queues_ok s2 (qs(q := ts))" "same_core s s2" "owner s2 = owner s"
        "\<forall>u. tstate (tcb s2 u) = tstate (tcb s u)"
      using dequeue_ok [OF ok Cons] by blast
    then have t: "t = a" "s1 = s2" using d by auto
    have v: "is_valid_id s a" using queuesD(4) [OF ok, of a q] Cons by simp
    then have na: "a \<noteq> NO_THREAD" using not_valid_none by metis
    have "is_valid_id (s2\<lparr>owner := ow\<rparr>) a" using v s2(3) by (simp add: same_core_def is_valid_id_def)
    from unsuspend_ok [OF _ this not_queued_twice [OF ok Cons]] s2(2)
    obtain s' where "coro_unsuspend a (s2\<lparr>owner := ow\<rparr>) = Inr s'" "coro_queues_ok s' ((qs(q := ts))(RunQueue := qs RunQueue @ [a]))"
        "same_core s2 s'" "owner s' = ow" "\<forall>u. tstate (tcb s' u) = (if u = a then CR_RUNNABLE else tstate (tcb s2 u))"
      using q by (auto simp: same_core_def)
    then show ?thesis using t na s2 Cons by (auto simp: first_of_def woken_def same_core_def)
qed

lemma mutex_unlock_ok:
  assumes ok: "coro_queues_ok s qs"
  shows "\<exists>s'. coro_mutex_unlock (Some m) s = Inr (if owner s m = current_thread s then 0 else EPERM, s') \<and>
    (owner s m \<noteq> current_thread s \<longrightarrow> s' = s) \<and>
    (owner s m = current_thread s \<longrightarrow> coro_queues_ok s' (woken (MutexWait m) qs) \<and> same_core s s' \<and>
      owner s' = (owner s)(m := first_of (MutexWait m) qs) \<and>
      (\<forall>u. tstate (tcb s' u) = (if u = first_of (MutexWait m) qs \<and> qs (MutexWait m) \<noteq> [] then CR_RUNNABLE else tstate (tcb s u))))"
proof (cases "owner s m = current_thread s")
  case True
  obtain t s1 where d: "coro_queue_dequeue (MutexWait m) s = (t, s1)" by force
  then obtain s' where "t = first_of (MutexWait m) qs" "owner s1 = owner s"
      "(if t \<noteq> NO_THREAD then coro_unsuspend t (s1\<lparr>owner := (owner s1)(m := t)\<rparr>) else Inr (s1\<lparr>owner := (owner s1)(m := t)\<rparr>)) = Inr s'"
      "coro_queues_ok s' (woken (MutexWait m) qs)" "same_core s s'" "owner s' = (owner s1)(m := t)"
      "\<forall>u. tstate (tcb s' u) = (if u = first_of (MutexWait m) qs \<and> qs (MutexWait m) \<noteq> [] then CR_RUNNABLE else tstate (tcb s u))"
    using wake_ok [OF ok _ d, of "(owner s1)(m := t)"] by blast
  then show ?thesis using True d by (auto simp: coro_mutex_unlock_def Let_def)
qed (simp add: coro_mutex_unlock_def)

lemma cond_signal_ok:
  assumes ok: "coro_queues_ok s qs"
  shows "\<exists>s'. coro_cond_signal (Some c) s = Inr (0, s') \<and> coro_queues_ok s' (woken (CondWait c) qs) \<and> same_core s s' \<and> owner s' = owner s \<and>
      (\<forall>u. tstate (tcb s' u) = (if u = first_of (CondWait c) qs \<and> qs (CondWait c) \<noteq> [] then CR_RUNNABLE else tstate (tcb s u)))"
proof -
  obtain t s1 where d: "coro_queue_dequeue (CondWait c) s = (t, s1)" by force
  have id: "s1\<lparr>owner := owner s1\<rparr> = s1" by simp
  show ?thesis using wake_ok [OF ok _ d, of "owner s1", unfolded id] d by (auto simp: coro_cond_signal_def Let_def)
qed

text \<open>
  The current thread gives up the processor to the first thread of the run queue.
\<close>

definition switched :: "coro \<Rightarrow> coro \<Rightarrow> int \<Rightarrow> bool" where
  "switched s s' t \<longleftrightarrow> current_thread s' = t \<and> nr_threads s' = nr_threads s \<and> readers s' = readers s \<and> writer s' = writer s \<and> owner s' = owner s"

lemma schedule_ok:
  assumes ok: "coro_queues_ok s qs" and v: "is_valid_id s (current_thread s)" and q: "qs RunQueue = t # ts"
  shows "\<exists>s'. coro_schedule s = Inr (True, s') \<and> coro_queues_ok s' (qs(RunQueue := ts)) \<and> switched s s' t \<and>
    (\<forall>u. tstate (tcb s' u) = tstate (tcb s u))"
proof -
  obtain s1 where s1: "coro_queue_dequeue RunQueue s = (t, s1)" "coro_queues_ok s1 (qs(RunQueue := ts))" "same_core s s1" "owner s1 = owner s"
      "\<forall>u. tstate (tcb s1 u) = tstate (tcb s u)"
    using dequeue_ok [OF ok q] by blast
  have "is_valid_id (s1\<lparr>current_thread := t\<rparr>) t" "is_valid_id (s1\<lparr>current_thread := t\<rparr>) (current_thread s)"
    using queuesD(4) [OF ok, of t RunQueue] v q s1(3) by (auto simp: same_core_def is_valid_id_def)
  then show ?thesis using s1 queue_empty [OF ok, of RunQueue] q
    by (auto simp: coro_schedule_def Let_def coro_find_tcb_def switched_def same_core_def)
qed

lemma suspend_ok:
  assumes ok: "coro_queues_ok s qs" and v: "is_valid_id s (current_thread s)" and q: "qs RunQueue = t # ts"
  shows "\<exists>s'. coro_suspend st s = Inr (Susp [], s') \<and> coro_queues_ok s' (qs(RunQueue := ts)) \<and> switched s s' t \<and>
    (\<forall>u. tstate (tcb s' u) = (if u = current_thread s then st else tstate (tcb s u)))"
proof -
  let ?s = "upd_tcb (current_thread s) (tstate_update (\<lambda>_. st)) s"
  have "coro_queues_ok ?s qs" "is_valid_id ?s (current_thread ?s)" using ok v by (simp_all add: is_valid_id_def)
  from schedule_ok [OF this q] show ?thesis using v by (auto simp: coro_suspend_def coro_find_tcb_def switched_def)
qed

lemma block_ok:
  assumes ok: "coro_queues_ok s qs" and v: "is_valid_id s (current_thread s)" and fresh: "current_thread s \<notin> queued qs" and r: "qs RunQueue = t # ts"
    and q: "q \<noteq> RunQueue"
  shows "\<exists>s'. bind_res (coro_queue_enqueue q (current_thread s) s) (coro_suspend st) = Inr (Susp [], s') \<and>
    coro_queues_ok s' (qs(q := qs q @ [current_thread s], RunQueue := ts)) \<and> switched s s' t \<and>
    (\<forall>u. tstate (tcb s' u) = (if u = current_thread s then st else tstate (tcb s u)))"
proof -
  obtain s1 where s1: "coro_queue_enqueue q (current_thread s) s = Inr s1" "coro_queues_ok s1 (qs(q := qs q @ [current_thread s]))" "same_core s s1"
      "owner s1 = owner s" "\<forall>u. tstate (tcb s1 u) = tstate (tcb s u)"
    using enqueue_ok [OF ok v fresh] by blast
  moreover have "is_valid_id s1 (current_thread s1)" "(qs(q := qs q @ [current_thread s])) RunQueue = t # ts"
    using v s1(3) r q by (auto simp: same_core_def is_valid_id_def)
  ultimately show ?thesis using suspend_ok [of s1 "qs(q := qs q @ [current_thread s])" t ts st]
    by (auto simp: switched_def same_core_def)
qed

lemma yield_ok:
  assumes ok: "coro_queues_ok s qs" and v: "is_valid_id s (current_thread s)" and fresh: "current_thread s \<notin> queued qs"
  shows "if qs RunQueue = [] then coro_yield s = Inr (Ret (- 1), s)
    else \<exists>s'. coro_yield s = Inr (Susp [], s') \<and> coro_queues_ok s' (qs(RunQueue := tl (qs RunQueue) @ [current_thread s])) \<and>
      switched s s' (hd (qs RunQueue)) \<and> (\<forall>u. tstate (tcb s' u) = (if u = current_thread s then CR_RUNNABLE else tstate (tcb s u)))"
proof (cases "qs RunQueue")
  case Nil
  then show ?thesis using queue_empty [OF ok, of RunQueue] by (simp add: coro_yield_def)
next
  case (Cons t ts)
  have nn: "current_thread s \<noteq> NO_THREAD" using v not_valid_none by metis
  obtain s1 where s1: "coro_queue_enqueue RunQueue (current_thread s) s = Inr s1" "coro_queues_ok s1 (qs(RunQueue := qs RunQueue @ [current_thread s]))"
      "same_core s s1" "owner s1 = owner s" "\<forall>u. tstate (tcb s1 u) = tstate (tcb s u)"
    using enqueue_ok [OF ok v fresh] by blast
  moreover have "is_valid_id s1 (current_thread s1)" using v s1(3) by (auto simp: same_core_def is_valid_id_def)
  ultimately show ?thesis
    using suspend_ok [of s1 "qs(RunQueue := qs RunQueue @ [current_thread s])" t "ts @ [current_thread s]" CR_RUNNABLE]
      Cons queue_empty [OF ok, of RunQueue] nn
    by (auto simp: coro_yield_def switched_def same_core_def)
qed

lemma mutex_lock_ok:
  assumes ok: "coro_queues_ok s qs" and v: "is_valid_id s (current_thread s)" and fresh: "current_thread s \<notin> queued qs"
  shows "owner s m = current_thread s \<Longrightarrow> coro_mutex_lock (Some m) s = Inr (Ret EDEADLK, s)"
    "owner s m = NO_THREAD \<Longrightarrow> coro_mutex_lock (Some m) s = Inr (Ret 0, s\<lparr>owner := (owner s)(m := current_thread s)\<rparr>)"
    "owner s m \<noteq> current_thread s \<Longrightarrow> owner s m \<noteq> NO_THREAD \<Longrightarrow> qs RunQueue = t # ts \<Longrightarrow>
      \<exists>s'. coro_mutex_lock (Some m) s = Inr (Susp [], s') \<and>
        coro_queues_ok s' (qs(MutexWait m := qs (MutexWait m) @ [current_thread s], RunQueue := ts)) \<and> switched s s' t"
proof -
  have "current_thread s \<noteq> NO_THREAD" using v not_valid_none by metis
  then show "owner s m = current_thread s \<Longrightarrow> coro_mutex_lock (Some m) s = Inr (Ret EDEADLK, s)"
    "owner s m = NO_THREAD \<Longrightarrow> coro_mutex_lock (Some m) s = Inr (Ret 0, s\<lparr>owner := (owner s)(m := current_thread s)\<rparr>)"
    by (auto simp: coro_mutex_lock_def coro_mutex_trylock_def)
  show "owner s m \<noteq> current_thread s \<Longrightarrow> owner s m \<noteq> NO_THREAD \<Longrightarrow> qs RunQueue = t # ts \<Longrightarrow>
      \<exists>s'. coro_mutex_lock (Some m) s = Inr (Susp [], s') \<and>
        coro_queues_ok s' (qs(MutexWait m := qs (MutexWait m) @ [current_thread s], RunQueue := ts)) \<and> switched s s' t"
    using block_ok [OF ok v fresh, of t ts "MutexWait m" CR_BLOCKED] by (auto simp: coro_mutex_lock_def coro_mutex_trylock_def)
qed

lemma woken_free: "q \<noteq> FreeThreads \<Longrightarrow> woken q qs FreeThreads = qs FreeThreads"
  by (auto simp: woken_def split: list.split)

text \<open>A queue has at most as many threads as there are.\<close>

lemma queue_length:
  assumes ok: "coro_queues_ok s qs" and n: "nr_threads s < MAX_THREADS"
  shows "length (qs q) < nat MAX_THREADS + 2"
proof -
  have "set (qs q) \<subseteq> {- 1..<MAX_THREADS}" using queuesD(4) [OF ok, of _ q] n by (force simp: is_valid_id_def)
  then have "card (set (qs q)) \<le> card {- 1..<MAX_THREADS}" by (intro card_mono) auto
  then show ?thesis using distinct_card [OF queuesD(2) [OF ok, of q]] by simp
qed

section \<open>New threads\<close>

lemma enqueue_reset:
  assumes "is_valid_id s t" and "qtail (queues s q) \<noteq> Some t"
  shows "bind_res (coro_queue_enqueue q t s) (coro_thread_reset t) = bind_res (coro_thread_reset t s) (coro_queue_enqueue q t)"
  using assms
  by (auto simp: coro_queue_enqueue_def coro_thread_reset_def coro_find_tcb_def coro_queue_empty_def is_valid_id_def Let_def upd_tcb_def
      fun_upd_twist split: option.split)

lemma enqueue_more:
  assumes "is_valid_id s t" and "is_valid_id (s\<lparr>nr_threads := k\<rparr>) t"
  shows "coro_queue_enqueue q t s = bind_res (coro_queue_enqueue q t (s\<lparr>nr_threads := k\<rparr>)) (\<lambda>s'. Inr (s'\<lparr>nr_threads := nr_threads s\<rparr>))"
  using assms by (auto simp: coro_queue_enqueue_def coro_find_tcb_def coro_queue_empty_def Let_def upd_tcb_def split: option.split)

lemma pool_loop_ok:
  assumes "coro_queues_ok (s\<lparr>nr_threads := i\<rparr>) qs" and "0 \<le> i" and "i + int n = nr_threads s"
  shows "\<exists>s'. pool_loop n i s = Inr s' \<and> coro_queues_ok s' (qs(FreeThreads := qs FreeThreads @ [i..nr_threads s - 1])) \<and>
    same_core s s' \<and> owner s' = owner s"
  using assms
proof (induction n arbitrary: i s qs)
  case 0
  then have "s\<lparr>nr_threads := i\<rparr> = s" by simp
  then show ?case using 0 by (auto simp: same_core_def fun_upd_idem)
next
  case (Suc n)
  let ?r = "upd_tcb i (\<lambda>b. b\<lparr>tid := i, next_tcb := None, tstate := CR_DEAD, tresult := 0\<rparr>) s"
  note ok = Suc.prems(1)
  have iq: "i \<notin> queued qs" using queuesD(4) [OF ok] Suc.prems(2) by (force simp: queued_def is_valid_id_def)
  have v: "is_valid_id s i" "is_valid_id (?r\<lparr>nr_threads := i + 1\<rparr>) i" using Suc.prems(2,3) by (auto simp: is_valid_id_def)
  have "i \<notin> set (qs FreeThreads)" using iq by (auto simp: queued_def)
  then have "qtail (queues s FreeThreads) \<noteq> Some i"
    using queuesD(1) [OF ok, of FreeThreads] last_in_set [of "qs FreeThreads"] by (auto simp: queue_of_def split: if_splits)
  note comm = enqueue_reset [OF v(1) this]
  have "queue_of (?r\<lparr>nr_threads := i + 1\<rparr>) q (qs q)" for q
    using queuesD(1) [OF ok, of q] iq qpath_upd_other [of i "qs q" "\<lambda>t. next_tcb (tcb s t)" None "qhead (queues s q)"]
    by (auto simp: queue_of_def queued_def fun_upd_def if_distrib [of next_tcb] cong: if_cong)
  then have ok1: "coro_queues_ok (?r\<lparr>nr_threads := i + 1\<rparr>) qs"
    using ok by (auto simp: coro_queues_ok_def is_valid_id_def)
  obtain s2 where s2: "coro_queue_enqueue FreeThreads i (?r\<lparr>nr_threads := i + 1\<rparr>) = Inr s2"
      "coro_queues_ok s2 (qs(FreeThreads := qs FreeThreads @ [i]))" "same_core (?r\<lparr>nr_threads := i + 1\<rparr>) s2" "owner s2 = owner s"
    using enqueue_ok [OF ok1 v(2) iq, of FreeThreads] by auto
  define s3 where "s3 = s2\<lparr>nr_threads := nr_threads s\<rparr>"
  have "s3\<lparr>nr_threads := i + 1\<rparr> = s2" using s2(3) by (simp add: s3_def same_core_def)
  then have p: "coro_queues_ok (s3\<lparr>nr_threads := i + 1\<rparr>) (qs(FreeThreads := qs FreeThreads @ [i]))" using s2(2) by (simp only:)
  have "0 \<le> i + 1" "i + 1 + int n = nr_threads s3" using Suc.prems(2,3) by (auto simp: s3_def)
  from Suc.IH [OF p this] obtain s' where s': "pool_loop n (i + 1) s3 = Inr s'" "same_core s3 s'" "owner s' = owner s3"
      "coro_queues_ok s' (qs(FreeThreads := (qs FreeThreads @ [i]) @ [i + 1..nr_threads s3 - 1]))"
    by (simp only: fun_upd_same fun_upd_upd) blast
  have "coro_queue_enqueue FreeThreads i ?r = Inr s3"
    using enqueue_more [of ?r i "i + 1" FreeThreads] v s2(1) by (simp add: is_valid_id_def s3_def)
  then have "bind_res (coro_queue_enqueue FreeThreads i s) (coro_thread_reset i) = Inr s3"
    unfolding comm using v(1) by (simp add: coro_thread_reset_def coro_find_tcb_def)
  then have "pool_loop (Suc n) i s = pool_loop n (i + 1) s3" by (auto simp: bind_res_Inr_conv)
  moreover have "[i..nr_threads s - 1] = i # [i + 1..nr_threads s3 - 1]" using Suc.prems(3) by (simp add: upto_rec1 s3_def)
  moreover have "same_core s s'" "owner s' = owner s" using s'(2,3) s2(3,4) by (simp_all add: s3_def same_core_def)
  ultimately show ?case using s'(1,4) by (intro exI [of _ s']) (simp only: append_assoc append_Cons append_Nil simp_thms)
qed

definition idle_exits :: "(qref \<Rightarrow> int list) \<Rightarrow> bool" where
  "idle_exits qs \<longleftrightarrow> (\<forall>p. qs (MutexWait (ExitM p)) = [] \<and> qs (CondWait (Exited p)) = [])"

text \<open>What creating a thread leaves alone: everything but the mutexes and queues in control blocks.\<close>

definition same_rest :: "coro \<Rightarrow> coro \<Rightarrow> bool" where
  "same_rest s s' \<longleftrightarrow> current_thread s' = current_thread s \<and> readers s' = readers s \<and> writer s' = writer s \<and>
     nr_threads s \<le> nr_threads s' \<and> (\<forall>m. (\<forall>p. m \<noteq> ExitM p) \<longrightarrow> owner s' m = owner s m)"

lemma new_tcbs_ok:
  assumes ok: "coro_queues_ok s qs" and idle: "idle_exits qs" and old: "old = nr_threads s" "0 \<le> old"
  shows "coro_queues_ok ((new_tcbs old new s)\<lparr>nr_threads := old\<rparr>) qs"
proof (rule coro_queues_okI)
  let ?s = "(new_tcbs old new s)\<lparr>nr_threads := old\<rparr>"
  have val: "is_valid_id ?s u = is_valid_id s u" for u by (simp add: is_valid_id_def old)
  have same: "tcb ?s u = tcb s u" if "is_valid_id s u" for u using that old by (auto simp: new_tcbs_def is_valid_id_def)
  show "queue_of ?s q (qs q)" for q
  proof -
    have "qpath (\<lambda>t. next_tcb (tcb ?s t)) x (qs q) = qpath (\<lambda>t. next_tcb (tcb s t)) x (qs q)" for x
      using queuesD(4) [OF ok] same by (intro qpath_cong) simp
    then show ?thesis using queuesD(1) [OF ok, of q] idle unfolding queue_of_def
      by (auto simp: new_tcbs_def idle_exits_def split: qref.split mref.split cref.split)
  qed
  show "tid (tcb ?s u) = u" "u \<notin> queued qs \<Longrightarrow> next_tcb (tcb ?s u) = None" if "is_valid_id ?s u" for u
    using that queuesD(5,6) [OF ok, of u] same [of u] val by auto
  show "is_valid_id ?s u" if "u \<in> queued qs" for u using that queuesD(4) [OF ok] val by (auto simp: queued_def)
qed (use queuesD(2,3) [OF ok] in auto)

lemma realloc_ok:
  assumes ok: "coro_queues_ok s qs" and idle: "idle_exits qs" and f: "qs FreeThreads = []" and n: "0 \<le> nr_threads s" "nr_threads s < MAX_THREADS"
    and mem: "pool_mem mem" "shrink_mem mem"
  shows "realloc_thread_pool mem s = Inr (- 1, s) \<or>
    (\<exists>s' t ts. realloc_thread_pool mem s = Inr (0, s') \<and> coro_queues_ok s' (qs(FreeThreads := t # ts)) \<and> same_rest s s' \<and>
       nr_threads s' < MAX_THREADS \<and> (\<forall>u \<in> set (t # ts). nr_threads s \<le> u))"
proof -
  define new where "new = (if nr_threads s = 0 then NR_THREADS else nr_threads s * 2)"
  define s1 where "s1 = (new_tcbs (nr_threads s) new s)\<lparr>nr_threads := new\<rparr>"
  have less: "nr_threads s < new" using n by (auto simp: new_def)
  have r: "realloc_thread_pool mem s = (if new \<ge> MAX_THREADS then Inr (- 1, s)
      else if \<exists>i \<in> set [nr_threads s..new - 1]. \<not> tcb_mem mem i then Inr (- 1, s)
      else bind_res (pool_loop (nat (new - nr_threads s)) (nr_threads s) s1) (\<lambda>s. Inr (0, s)))"
    using mem by (simp add: realloc_thread_pool_def new_def s1_def Let_def)
  have "s1\<lparr>nr_threads := nr_threads s\<rparr> = (new_tcbs (nr_threads s) new s)\<lparr>nr_threads := nr_threads s\<rparr>" by (simp add: s1_def)
  then have "coro_queues_ok (s1\<lparr>nr_threads := nr_threads s\<rparr>) qs" using new_tcbs_ok [OF ok idle refl n(1)] by (simp only:)
  from pool_loop_ok [OF this n(1), of "nat (new - nr_threads s)"] less obtain s' where
    s': "pool_loop (nat (new - nr_threads s)) (nr_threads s) s1 = Inr s'" "coro_queues_ok s' (qs(FreeThreads := [nr_threads s..new - 1]))"
      "same_core s1 s'" "owner s' = owner s1"
    using f by (auto simp: s1_def)
  have "[nr_threads s..new - 1] = nr_threads s # [nr_threads s + 1..new - 1]" using less by (simp add: upto_rec1)
  moreover have "same_rest s s'" "nr_threads s' = new"
    using s'(3,4) less by (auto simp: same_rest_def same_core_def s1_def new_tcbs_def split: mref.split)
  moreover have "\<forall>u \<in> set [nr_threads s..new - 1]. nr_threads s \<le> u" by simp
  ultimately show ?thesis using r s'(1,2)
    by (cases "new \<ge> MAX_THREADS \<or> (\<exists>i \<in> set [nr_threads s..new - 1]. \<not> tcb_mem mem i)")
      (auto simp del: set_upto intro!: exI [of _ s'])
qed

lemma queue_init_ok: "coro_queues_ok s qs \<Longrightarrow> qs q = [] \<Longrightarrow> coro_queues_ok (coro_queue_init q s) qs"
proof -
  assume ok: "coro_queues_ok s qs" and q: "qs q = []"
  have "queue_of (coro_queue_init q s) q' (qs q')" for q' using queuesD(1) [OF ok, of q'] q by (auto simp: queue_of_def coro_queue_init_def)
  moreover have "is_valid_id (coro_queue_init q s) u = is_valid_id s u" "tcb (coro_queue_init q s) = tcb s" for u
    by (simp_all add: is_valid_id_def coro_queue_init_def)
  ultimately show ?thesis using ok unfolding coro_queues_ok_def by simp
qed

lemma thread_init_ok:
  assumes ok: "coro_queues_ok s qs" and v: "is_valid_id s t" and fresh: "t \<notin> queued qs" and idle: "idle_exits qs" and mem: "stack_mem mem"
  shows "\<exists>s'. coro_thread_init mem t s = Inr s' \<and> coro_queues_ok s' (qs(RunQueue := qs RunQueue @ [t])) \<and> same_rest s s' \<and>
    nr_threads s' = nr_threads s"
proof -
  define s1 where "s1 = upd_tcb t (\<lambda>b. b\<lparr>next_tcb := None, tstate := CR_DEAD\<rparr>) s"
  define s2 where "s2 = (coro_queue_init (MutexWait (ExitM t)) (coro_queue_init (CondWait (Exited t)) s1))\<lparr>owner := (owner s)(ExitM t := NO_THREAD)\<rparr>"
  have "coro_queues_ok s1 qs" using queuesD(6) [OF ok v fresh] ok by (subst coro_queues_ok_cong [of s1 s]) (auto simp: s1_def)
  then have "coro_queues_ok s2 qs" using idle by (simp add: s2_def queue_init_ok idle_exits_def)
  moreover have "is_valid_id s2 t" using v by (simp add: s2_def s1_def is_valid_id_def coro_queue_init_def)
  ultimately obtain s' where s': "coro_unsuspend t s2 = Inr s'" "coro_queues_ok s' (qs(RunQueue := qs RunQueue @ [t]))" "same_core s2 s'" "owner s' = owner s2"
    using unsuspend_ok [OF _ _ fresh] by blast
  have "coro_thread_init mem t s = coro_unsuspend t s2"
    using v mem by (simp add: coro_thread_init_def coro_find_tcb_def coro_cond_init_def coro_mutex_init_def Let_def s1_def s2_def coro_queue_init_def)
  moreover have "same_rest s s'" "nr_threads s' = nr_threads s"
    using s'(3,4) by (auto simp: same_rest_def same_core_def s1_def s2_def coro_queue_init_def)
  ultimately show ?thesis using s'(1,2) by auto
qed

lemma create_from_free:
  assumes ok: "coro_queues_ok s qs" and f: "qs FreeThreads = t # ts" and idle: "idle_exits qs" and mem: "stack_mem mem"
  shows "\<exists>s'. thread_create (Suc fuel) mem s = Inr (0, Some t, s') \<and>
    coro_queues_ok s' (qs(FreeThreads := ts, RunQueue := qs RunQueue @ [t])) \<and> same_rest s s' \<and> nr_threads s' = nr_threads s"
proof -
  obtain s1 where s1: "coro_queue_dequeue FreeThreads s = (t, s1)" "coro_queues_ok s1 (qs(FreeThreads := ts))" "same_core s s1" "owner s1 = owner s"
    using dequeue_ok [OF ok f] by blast
  have v: "is_valid_id s1 t" using queuesD(4) [OF ok, of t FreeThreads] f s1(3) by (simp add: same_core_def is_valid_id_def)
  have "idle_exits (qs(FreeThreads := ts))" using idle by (simp add: idle_exits_def)
  from thread_init_ok [OF s1(2) v not_queued_twice [OF ok f] this mem] obtain s' where
    "coro_thread_init mem t s1 = Inr s'" "coro_queues_ok s' (qs(FreeThreads := ts, RunQueue := qs RunQueue @ [t]))" "same_rest s1 s'" "nr_threads s' = nr_threads s1"
    by auto
  then show ?thesis using s1 queue_empty [OF ok, of FreeThreads] f by (auto simp: same_rest_def same_core_def)
qed

text \<open>
  A new thread is put into the run queue.  It was free before, or there was no control block for it.
\<close>

lemma create_ok:
  assumes ok: "coro_queues_ok s qs" and idle: "idle_exits qs" and n: "0 \<le> nr_threads s" "nr_threads s < MAX_THREADS"
    and mem: "pool_mem mem" "shrink_mem mem" "stack_mem mem"
  shows "(\<exists>r. coro_thread_create mem proc s = Inr (r, None, s)) \<or>
    (\<exists>t ts s'. coro_thread_create mem proc s = Inr (0, Some t, s') \<and> coro_queues_ok s' (qs(FreeThreads := ts, RunQueue := qs RunQueue @ [t])) \<and>
       same_rest s s' \<and> nr_threads s' < MAX_THREADS \<and> (\<forall>u \<in> set (t # ts). u \<in> set (qs FreeThreads) \<or> nr_threads s \<le> u))"
proof (cases "proc = 0")
  case False
  have two: "coro_thread_create mem proc s = thread_create (Suc (Suc 0)) mem s" using False by (simp only: coro_thread_create_def if_False numeral_2_eq_2)
  show ?thesis
  proof (cases "qs FreeThreads")
    case (Cons t ts)
    obtain s' where "coro_thread_create mem proc s = Inr (0, Some t, s')" "coro_queues_ok s' (qs(FreeThreads := ts, RunQueue := qs RunQueue @ [t]))"
        "same_rest s s'" "nr_threads s' = nr_threads s"
      using create_from_free [OF ok Cons idle mem(3), of "Suc 0"] unfolding two by blast
    moreover have "\<forall>u \<in> set (t # ts). u \<in> set (qs FreeThreads)" using Cons by simp
    ultimately show ?thesis using n(2) by (metis (no_types))
  next
    case Nil
    have run: "thread_create (Suc (Suc 0)) mem s = bind_res (realloc_thread_pool mem s) (\<lambda>(retval, s).
        if retval = - 1 then Inr (EAGAIN, None, s) else thread_create (Suc 0) mem s)"
      using queue_empty [OF ok, of FreeThreads] Nil by simp
    from realloc_ok [OF ok idle Nil n mem(1,2)] consider "realloc_thread_pool mem s = Inr (- 1, s)"
      | (new) s1 t ts where "realloc_thread_pool mem s = Inr (0, s1)" "coro_queues_ok s1 (qs(FreeThreads := t # ts))" "same_rest s s1"
          "nr_threads s1 < MAX_THREADS" "\<forall>u \<in> set (t # ts). nr_threads s \<le> u"
      by blast
    then show ?thesis
    proof cases
      case 1
      then show ?thesis using run two by auto
    next
      case new
      have "idle_exits (qs(FreeThreads := t # ts))" using idle by (simp add: idle_exits_def)
      from create_from_free [OF new(2) _ this mem(3)] obtain s' where s': "thread_create (Suc 0) mem s1 = Inr (0, Some t, s')"
          "coro_queues_ok s' (qs(FreeThreads := ts, RunQueue := qs RunQueue @ [t]))" "same_rest s1 s'" "nr_threads s' = nr_threads s1"
        by (auto simp del: thread_create.simps)
      have "coro_thread_create mem proc s = Inr (0, Some t, s')" unfolding two run new(1) using s'(1) by (simp del: thread_create.simps)
      moreover have "same_rest s s'" using new(3) s'(3) by (auto simp: same_rest_def)
      ultimately show ?thesis using new s' by metis
    qed
  qed
qed (simp add: coro_thread_create_def)

end
