(* ===== verification/Coro_Run.thy ===== *)
theory Coro_Run
  imports Coro_Queues
begin

text \<open>
  Coroutines as clients see them: threads that call the library in any order, and what the locks guarantee
  in every such run.
\<close>

section \<open>Runs of coroutines\<close>

datatype op = Lock nat | Trylock nat | Unlock nat | Wait nat nat | Signal nat | Broadcast nat | Rd nat | Wr nat | RwUnlock nat |
  Yield | YieldEach | Exit nat

fun perform :: "op \<Rightarrow> coro \<Rightarrow> call" where
  "perform (Lock m) s = coro_mutex_lock (Some (Mutex m)) s"
| "perform (Trylock m) s = (case coro_mutex_trylock (Some (Mutex m)) s of (v, s) \<Rightarrow> Inr (Ret v, s))"
| "perform (Unlock m) s = bind_res (coro_mutex_unlock (Some (Mutex m)) s) (\<lambda>(v, s). Inr (Ret v, s))"
| "perform (Wait c m) s = coro_cond_wait (Some (Cond c)) (Some (Mutex m)) s"
| "perform (Signal c) s = bind_res (coro_cond_signal (Some (Cond c)) s) (\<lambda>(v, s). Inr (Ret v, s))"
| "perform (Broadcast c) s = bind_res (coro_cond_broadcast (Some (Cond c)) s) (\<lambda>(v, s). Inr (Ret v, s))"
| "perform (Rd r) s = coro_rwlock_rdlock (Some r) s"
| "perform (Wr r) s = coro_rwlock_wrlock (Some r) s"
| "perform (RwUnlock r) s = coro_rwlock_unlock (Some r) s"
| "perform Yield s = coro_yield s"
| "perform YieldEach s = coro_yield_all s"
| "perform (Exit v) s = coro_exit v s"

text \<open>
  The library with its clients: the call each thread is in the middle of, if any, with the frames left of it,
  and the locks each thread has been given and has not given back.
\<close>

datatype hold = HoldM nat | HoldR nat | HoldW nat

record world =
  lib :: coro
  pend :: "int \<Rightarrow> (op \<times> coro_frame list) option"
  holds :: "int \<Rightarrow> hold set"

fun given :: "op \<Rightarrow> hold set" where
  "given (Lock m) = {HoldM m}"
| "given (Trylock m) = {HoldM m}"
| "given (Wait c m) = {HoldM m}"
| "given (Rd r) = {HoldR r}"
| "given (Wr r) = {HoldW r}"
| "given _ = {}"

fun taken :: "op \<Rightarrow> hold set" where
  "taken (Unlock m) = {HoldM m}"
| "taken (Wait c m) = {HoldM m}"
| "taken (RwUnlock r) = {HoldR r, HoldW r}"
| "taken _ = {}"

definition settle :: "int \<Rightarrow> op \<Rightarrow> outcome \<Rightarrow> world \<Rightarrow> world" where
  "settle t oper out w =
     (case out of
        Ret v \<Rightarrow> w\<lparr>pend := (pend w)(t := None), holds := (if v = 0 then (holds w)(t := holds w t \<union> given oper) else holds w)\<rparr>
      | Susp fs \<Rightarrow> w\<lparr>pend := (pend w)(t := Some (oper, fs))\<rparr>)"

datatype coro_event = Call op | Resume | Create coro_mem nat

definition step :: "coro_event \<Rightarrow> world \<Rightarrow> world res" where
  "step e w =
     (let s = lib w; t = current_thread s in
      case e of
        Call oper \<Rightarrow> bind_res (perform oper s) (\<lambda>(out, s). Inr (settle t oper out (w\<lparr>lib := s, holds := (holds w)(t := holds w t - taken oper)\<rparr>)))
      | Resume \<Rightarrow>
          (case pend w t of
             None \<Rightarrow> Inl Undefined
           | Some (oper, fs) \<Rightarrow> bind_res (resume fs 0 s) (\<lambda>(out, s). Inr (settle t oper out (w\<lparr>lib := s\<rparr>))))
      | Create mem proc \<Rightarrow>
          bind_res (coro_thread_create mem proc s) (\<lambda>(v, new, s).
            Inr (case new of None \<Rightarrow> w\<lparr>lib := s\<rparr> | Some u \<Rightarrow> w\<lparr>lib := s, pend := (pend w)(u := None)\<rparr>)))"

text \<open>
  The calls that are covered.  A thread releases a read-write lock only if it has it, and does not ask twice for
  reading: the library does not record who reads, so it cannot refuse either.  The main thread, which the
  scheduler runs whenever nothing else can, does not exit and makes no call that would have to wait
  (when nothing else can run, such a call comes back to it before its turn).  The allocations whose failure the library does not
  survive succeed when a thread is created: the new table of threads is used unchecked, and a stack or a shrunken
  table that cannot be had is a panic.  Joining a thread is not covered.
\<close>

fun main_may :: "op \<Rightarrow> coro \<Rightarrow> bool" where
  "main_may (Lock m) s \<longleftrightarrow> owner s (Mutex m) \<in> {NO_THREAD, MAIN_THREAD}"
| "main_may (Wait c m) s \<longleftrightarrow> owner s (Mutex m) \<noteq> MAIN_THREAD"
| "main_may (Rd r) s \<longleftrightarrow> owner s (ReaderQueue r) \<in> {NO_THREAD, MAIN_THREAD}"
| "main_may (Wr r) s \<longleftrightarrow> owner s (ReaderQueue r) \<in> {NO_THREAD, MAIN_THREAD} \<and> (owner s (ReaderQueue r) = NO_THREAD \<longrightarrow> readers s r = 0)"
| "main_may (Exit v) s \<longleftrightarrow> False"
| "main_may _ s \<longleftrightarrow> True"

fun client_may :: "op \<Rightarrow> hold set \<Rightarrow> bool" where
  "client_may (Rd r) H \<longleftrightarrow> HoldR r \<notin> H"
| "client_may (RwUnlock r) H \<longleftrightarrow> HoldR r \<in> H \<or> HoldW r \<in> H"
| "client_may _ H \<longleftrightarrow> True"

definition allowed :: "coro_event \<Rightarrow> world \<Rightarrow> bool" where
  "allowed e w \<longleftrightarrow>
     (let s = lib w; t = current_thread s in
      case e of
        Call oper \<Rightarrow> pend w t = None \<and> client_may oper (holds w t) \<and> (t = MAIN_THREAD \<longrightarrow> main_may oper s)
      | Resume \<Rightarrow> pend w t \<noteq> None
      | Create mem proc \<Rightarrow> pend w t = None \<and> pool_mem mem \<and> shrink_mem mem \<and> stack_mem mem)"

section \<open>The invariant\<close>

text \<open>The queue in which a suspended call waits, for the shapes a suspended call can have.\<close>

fun waits :: "op \<Rightarrow> coro_frame list \<Rightarrow> qref option" where
  "waits (Lock m) [] = Some (MutexWait (Mutex m))"
| "waits (Wait c m) fs = (if fs = [Relock (Mutex m)] then Some (CondWait (Cond c)) else if fs = [] then Some (MutexWait (Mutex m)) else None)"
| "waits (Rd r) fs = (if fs = [Rdlock r] then Some (MutexWait (ReaderQueue r)) else None)"
| "waits (Wr r) fs = (if fs = [WrLocked r] then Some (MutexWait (ReaderQueue r))
     else if fs = [Relock (RwMutex r), WrWaited r] then Some (CondWait (WriterQueue r)) else None)"
| "waits Yield [] = Some RunQueue"
| "waits YieldEach fs = (if fs = [YieldAll] then Some RunQueue else None)"
| "waits (Exit v) [] = Some FreeThreads"
| "waits _ _ = None"

abbreviation writing :: "nat \<Rightarrow> op \<times> coro_frame list" where
  "writing r \<equiv> (Wr r, [Relock (RwMutex r), WrWaited r])"

text \<open>
  \<open>R\<close> are the threads that run or can run, \<open>qs\<close> the queues, \<open>ow\<close> the owners of the mutexes.
\<close>

definition wait_queue :: "qref \<Rightarrow> bool" where
  "wait_queue q \<longleftrightarrow> q \<noteq> RunQueue \<and> q \<noteq> FreeThreads"

definition pend_ok :: "int set \<Rightarrow> (qref \<Rightarrow> int list) \<Rightarrow> (mref \<Rightarrow> int) \<Rightarrow> (int \<Rightarrow> (op \<times> coro_frame list) option) \<Rightarrow> bool" where
  "pend_ok R qs ow pd \<longleftrightarrow>
     (\<forall>t oper fs. pd t = Some (oper, fs) \<longrightarrow> waits oper fs \<noteq> None) \<and>
     (\<forall>q t. wait_queue q \<and> t \<in> set (qs q) \<longrightarrow> (\<exists>oper fs. pd t = Some (oper, fs) \<and> waits oper fs = Some q)) \<and>
     (\<forall>t oper fs m. t \<in> R \<and> pd t = Some (oper, fs) \<and> waits oper fs = Some (MutexWait m) \<longrightarrow> ow m = t) \<and>
     (\<forall>m. ow m = NO_THREAD \<longrightarrow> qs (MutexWait m) = []) \<and>
     (\<forall>oper fs. pd MAIN_THREAD = Some (oper, fs) \<longrightarrow> waits oper fs = Some RunQueue)"

definition hold_ok :: "(mref \<Rightarrow> int) \<Rightarrow> (int \<Rightarrow> hold set) \<Rightarrow> bool" where
  "hold_ok ow H \<longleftrightarrow> H NO_THREAD = {} \<and> (\<forall>t m. HoldM m \<in> H t \<longrightarrow> ow (Mutex m) = t)"

definition rw_ok :: "int set \<Rightarrow> (qref \<Rightarrow> int list) \<Rightarrow> (mref \<Rightarrow> int) \<Rightarrow> (nat \<Rightarrow> nat) \<Rightarrow> (nat \<Rightarrow> int) \<Rightarrow>
    (int \<Rightarrow> (op \<times> coro_frame list) option) \<Rightarrow> (int \<Rightarrow> hold set) \<Rightarrow> nat \<Rightarrow> bool" where
  "rw_ok R qs ow rd wr pd H r \<longleftrightarrow>
     ow (RwMutex r) = NO_THREAD \<and>
     finite {t. HoldR r \<in> H t} \<and> rd r = card {t. HoldR r \<in> H t} \<and>
     (wr r \<noteq> NO_THREAD \<longrightarrow> ow (ReaderQueue r) = wr r \<and> (HoldW r \<in> H (wr r) \<or> pd (wr r) = Some (writing r))) \<and>
     (\<forall>t. HoldW r \<in> H t \<longrightarrow> wr r = t \<and> rd r = 0) \<and>
     (\<forall>t \<in> set (qs (CondWait (WriterQueue r))). wr r = t \<and> 0 < rd r) \<and>
     (\<forall>t \<in> R. pd t = Some (writing r) \<longrightarrow> wr r = t \<and> rd r = 0) \<and>
     (\<forall>t oper fs. pd t = Some (oper, fs) \<and> waits oper fs = Some (MutexWait (ReaderQueue r)) \<longrightarrow>
        HoldW r \<notin> H t \<and> (oper = Rd r \<longrightarrow> HoldR r \<notin> H t))"

abbreviation ready :: "coro \<Rightarrow> (qref \<Rightarrow> int list) \<Rightarrow> int set" where
  "ready s qs \<equiv> insert (current_thread s) (set (qs RunQueue))"

definition lib_ok :: "coro \<Rightarrow> (qref \<Rightarrow> int list) \<Rightarrow> bool" where
  "lib_ok s qs \<longleftrightarrow> coro_queues_ok s qs \<and> is_valid_id s (current_thread s) \<and> current_thread s \<notin> queued qs \<and>
     MAIN_THREAD \<in> ready s qs \<and> idle_exits qs \<and> 0 \<le> nr_threads s \<and> nr_threads s < MAX_THREADS"

text \<open>A thread that was never started is not in a call.\<close>

definition fresh_ok :: "coro \<Rightarrow> (qref \<Rightarrow> int list) \<Rightarrow> (int \<Rightarrow> (op \<times> coro_frame list) option) \<Rightarrow> bool" where
  "fresh_ok s qs pd \<longleftrightarrow> (\<forall>t. t \<in> set (qs FreeThreads) \<or> nr_threads s \<le> t \<longrightarrow> pd t = None)"

definition coro_inv :: "coro \<Rightarrow> (qref \<Rightarrow> int list) \<Rightarrow> (int \<Rightarrow> (op \<times> coro_frame list) option) \<Rightarrow> (int \<Rightarrow> hold set) \<Rightarrow> bool" where
  "coro_inv s qs pd H \<longleftrightarrow>
     lib_ok s qs \<and> pend_ok (ready s qs) qs (owner s) pd \<and> hold_ok (owner s) H \<and> fresh_ok s qs pd \<and>
     (\<forall>r. rw_ok (ready s qs) qs (owner s) (readers s) (writer s) pd H r)"

definition world_ok :: "world \<Rightarrow> bool" where
  "world_ok w \<longleftrightarrow> (\<exists>qs. coro_inv (lib w) qs (pend w) (holds w))"

section \<open>What the steps do to the library\<close>

lemma lib_okD:
  assumes "lib_ok s qs"
  shows "coro_queues_ok s qs" "is_valid_id s (current_thread s)" "current_thread s \<notin> queued qs" "current_thread s \<noteq> NO_THREAD"
    "MAIN_THREAD \<in> ready s qs" "idle_exits qs" "0 \<le> nr_threads s" "nr_threads s < MAX_THREADS"
  using assms not_valid_none [of s] by (auto simp: lib_ok_def simp del: not_valid_none)

lemma lib_ok_upd [simp]:
  "lib_ok (s\<lparr>owner := ow\<rparr>) qs = lib_ok s qs" "lib_ok (s\<lparr>readers := rd\<rparr>) qs = lib_ok s qs" "lib_ok (s\<lparr>writer := wr\<rparr>) qs = lib_ok s qs"
  by (simp_all add: lib_ok_def is_valid_id_def)

lemma other_runs: "lib_ok s qs \<Longrightarrow> current_thread s \<noteq> MAIN_THREAD \<Longrightarrow> \<exists>t ts. qs RunQueue = t # ts"
  using lib_okD(5) [of s qs] by (cases "qs RunQueue") auto

lemma not_ready: "lib_ok s qs \<Longrightarrow> q \<noteq> RunQueue \<Longrightarrow> t \<in> set (qs q) \<Longrightarrow> t \<notin> ready s qs"
  using queuesD(3) [OF lib_okD(1)] lib_okD(3) by (fastforce simp: queued_def)

lemma lib_block:
  assumes ok: "lib_ok s qs" and c: "current_thread s \<noteq> MAIN_THREAD" and q: "wait_queue q" "\<forall>p. q \<noteq> MutexWait (ExitM p) \<and> q \<noteq> CondWait (Exited p)"
    and r: "qs RunQueue = t # ts" and s': "coro_queues_ok s' (qs(q := qs q @ [current_thread s], RunQueue := ts))" "switched s s' t"
  shows "lib_ok s' (qs(q := qs q @ [current_thread s], RunQueue := ts))"
    "ready s' (qs(q := qs q @ [current_thread s], RunQueue := ts)) = ready s qs - {current_thread s}"
proof -
  let ?qs = "qs(q := qs q @ [current_thread s], RunQueue := ts)"
  have cq: "current_thread s \<notin> set (qs q')" for q' using lib_okD(3) [OF ok] by (auto simp: queued_def)
  have t: "t \<in> set (qs RunQueue)" "t \<notin> set ts" using queuesD(2) [OF lib_okD(1) [OF ok], of RunQueue] r by auto
  have "t \<notin> set (?qs q')" for q'
    using queuesD(3) [OF lib_okD(1) [OF ok], of RunQueue q' t] t cq [of RunQueue] q by (auto simp: wait_queue_def split: if_splits)
  then have "t \<notin> queued ?qs" by (auto simp: queued_def)
  moreover have "is_valid_id s' t" using queuesD(4) [OF lib_okD(1) [OF ok] t(1)] s'(2) by (simp add: switched_def is_valid_id_def)
  moreover have rd: "ready s' ?qs = ready s qs - {current_thread s}" using s'(2) r cq [of RunQueue] by (auto simp: switched_def)
  moreover have "idle_exits ?qs" using lib_okD(6) [OF ok] q by (auto simp: idle_exits_def wait_queue_def)
  ultimately show "lib_ok s' ?qs" using s' lib_okD(5,7,8) [OF ok] c unfolding lib_ok_def by (auto simp: switched_def)
  show "ready s' ?qs = ready s qs - {current_thread s}" by (rule rd)
qed

lemma queued_woken: "q \<noteq> RunQueue \<Longrightarrow> queued (woken q qs) = queued qs"
proof (cases "qs q")
  case (Cons t ts)
  assume "q \<noteq> RunQueue"
  have sub: "set (qs q') \<subseteq> queued qs" for q' by (auto simp: queued_def)
  have "set (woken q qs q') \<subseteq> queued qs" for q' using Cons sub [of q] sub [of q'] sub [of RunQueue] by (auto simp: woken_def split: if_splits)
  moreover have "set (qs q') \<subseteq> queued (woken q qs)" for q'
  proof -
    have "set (woken q qs RunQueue) \<subseteq> queued (woken q qs)" "set (woken q qs q') \<subseteq> queued (woken q qs)" by (auto simp: queued_def)
    then show ?thesis using Cons \<open>q \<noteq> RunQueue\<close> by (cases "q' = q"; cases "q' = RunQueue") (auto simp: woken_def)
  qed
  ultimately show ?thesis unfolding queued_def by blast
qed (simp add: woken_def)

lemma lib_wake:
  assumes ok: "lib_ok s qs" and q: "wait_queue q" and s': "coro_queues_ok s' (woken q qs)" "same_core s s'"
  shows "lib_ok s' (woken q qs)" "ready s' (woken q qs) = (case qs q of [] \<Rightarrow> ready s qs | t # ts \<Rightarrow> insert t (ready s qs))"
proof -
  have "idle_exits (woken q qs)" using lib_okD(6) [OF ok] by (auto simp: idle_exits_def woken_def split: list.split)
  moreover show "ready s' (woken q qs) = (case qs q of [] \<Rightarrow> ready s qs | t # ts \<Rightarrow> insert t (ready s qs))"
    using s'(2) q by (auto simp: woken_def same_core_def wait_queue_def split: list.split)
  ultimately show "lib_ok s' (woken q qs)"
    using s' q lib_okD [OF ok] queued_woken [of q qs] unfolding lib_ok_def by (auto simp: same_core_def is_valid_id_def wait_queue_def split: list.splits)
qed

section \<open>Suspended calls\<close>

lemma pend_okD:
  assumes "pend_ok R qs ow pd"
  shows "pd t = Some (oper, fs) \<Longrightarrow> waits oper fs \<noteq> None"
    "wait_queue q \<Longrightarrow> t \<in> set (qs q) \<Longrightarrow> \<exists>oper fs. pd t = Some (oper, fs) \<and> waits oper fs = Some q"
    "t \<in> R \<Longrightarrow> pd t = Some (oper, fs) \<Longrightarrow> waits oper fs = Some (MutexWait m) \<Longrightarrow> ow m = t"
    "ow m = NO_THREAD \<Longrightarrow> qs (MutexWait m) = []"
    "pd MAIN_THREAD = Some (oper, fs) \<Longrightarrow> waits oper fs = Some RunQueue"
  using assms by (auto simp: pend_ok_def)

lemma pend_okI:
  assumes "\<And>t oper fs. pd t = Some (oper, fs) \<Longrightarrow> waits oper fs \<noteq> None"
    "\<And>q t. wait_queue q \<Longrightarrow> t \<in> set (qs q) \<Longrightarrow> \<exists>oper fs. pd t = Some (oper, fs) \<and> waits oper fs = Some q"
    "\<And>t oper fs m. t \<in> R \<Longrightarrow> pd t = Some (oper, fs) \<Longrightarrow> waits oper fs = Some (MutexWait m) \<Longrightarrow> ow m = t"
    "\<And>m. ow m = NO_THREAD \<Longrightarrow> qs (MutexWait m) = []"
    "\<And>oper fs. pd MAIN_THREAD = Some (oper, fs) \<Longrightarrow> waits oper fs = Some RunQueue"
  shows "pend_ok R qs ow pd"
  using assms by (simp add: pend_ok_def)

lemma wait_queue_simps [simp]: "wait_queue (MutexWait m)" "wait_queue (CondWait k)" "\<not> wait_queue RunQueue" "\<not> wait_queue FreeThreads"
  by (simp_all add: wait_queue_def)

text \<open>A thread that runs ends its call, or suspends it in a queue, or leaves the processor otherwise.\<close>

lemma pend_done:
  assumes "pend_ok R qs ow pd" and "\<forall>q. c \<notin> set (qs q)"
  shows "pend_ok R qs ow (pd(c := None))"
proof (rule pend_okI)
  show "\<exists>oper fs. (pd(c := None)) t = Some (oper, fs) \<and> waits oper fs = Some q" if "wait_queue q" "t \<in> set (qs q)" for q t
    using pend_okD(2) [OF assms(1) that] that(2) assms(2) by (cases "t = c") auto
qed (use pend_okD [OF assms(1)] in \<open>auto split: if_splits\<close>)

lemma pend_block:
  assumes p: "pend_ok R qs ow pd" and c: "\<forall>q. c \<notin> set (qs q)" "c \<noteq> MAIN_THREAD" and w: "waits oper fs = Some q" "wait_queue q"
    and m: "\<forall>m. q = MutexWait m \<longrightarrow> ow m \<noteq> NO_THREAD"
  shows "pend_ok (R - {c}) (qs(q := qs q @ [c], RunQueue := ts)) ow (pd(c := Some (oper, fs)))"
proof (rule pend_okI)
  show "\<exists>oper' fs'. (pd(c := Some (oper, fs))) t = Some (oper', fs') \<and> waits oper' fs' = Some q'"
    if "wait_queue q'" "t \<in> set ((qs(q := qs q @ [c], RunQueue := ts)) q')" for q' t
    using that pend_okD(2) [OF p, of q' t] c(1) w by (auto split: if_splits)
qed (use pend_okD [OF p] c w m in \<open>auto split: if_splits\<close>)

lemma pend_other:
  assumes p: "pend_ok R qs ow pd" and c: "\<forall>q. c \<notin> set (qs q)" and w: "waits oper fs = Some q" "\<not> wait_queue q" "c = MAIN_THREAD \<longrightarrow> q = RunQueue"
    and R: "R' \<subseteq> R" and qs: "\<And>q. wait_queue q \<Longrightarrow> qs' q = qs q"
  shows "pend_ok R' qs' ow (pd(c := Some (oper, fs)))"
proof (rule pend_okI)
  show "\<exists>oper' fs'. (pd(c := Some (oper, fs))) t = Some (oper', fs') \<and> waits oper' fs' = Some q'"
    if "wait_queue q'" "t \<in> set (qs' q')" for q' t
    using that pend_okD(2) [OF p, of q' t] c(1) qs by (auto split: if_splits)
  show "ow m = t" if "t \<in> R'" "(pd(c := Some (oper, fs))) t = Some (oper', fs')" "waits oper' fs' = Some (MutexWait m)" for t oper' fs' m
    using that w R pend_okD(3) [OF p, of t oper' fs' m] by (auto split: if_splits)
qed (use pend_okD [OF p] w qs in \<open>auto split: if_splits\<close>)

lemma pend_own:
  assumes p: "pend_ok R qs ow pd" and c: "pd c = None" "c \<noteq> NO_THREAD" and m: "ow m = NO_THREAD" and n: "NO_THREAD \<notin> R"
  shows "pend_ok R qs (ow(m := c)) pd"
proof (rule pend_okI)
  show "(ow(m := c)) m' = t" if "t \<in> R" "pd t = Some (oper, fs)" "waits oper fs = Some (MutexWait m')" for t oper fs m'
    using pend_okD(3) [OF p that] m n that(1) by auto
qed (use pend_okD [OF p] c in \<open>auto split: if_splits\<close>)

text \<open>The owner of a mutex releases it: to the first thread that waits for it.\<close>

lemma pend_release:
  assumes p: "pend_ok R qs ow pd" and c: "ow m = c" "pd c = None" and d: "distinct (qs (MutexWait m))" "NO_THREAD \<notin> set (qs (MutexWait m))"
    and R: "R' = (case qs (MutexWait m) of [] \<Rightarrow> R | t # ts \<Rightarrow> insert t R)"
  shows "pend_ok R' (woken (MutexWait m) qs) (ow(m := first_of (MutexWait m) qs)) pd"
proof (rule pend_okI)
  show "\<exists>oper fs. pd t = Some (oper, fs) \<and> waits oper fs = Some q" if "wait_queue q" "t \<in> set (woken (MutexWait m) qs q)" for q t
    using that pend_okD(2) [OF p, of q t] by (auto simp: woken_def split: list.splits if_splits)
  show "(ow(m := first_of (MutexWait m) qs)) m' = t" if inR: "t \<in> R'" and pt: "pd t = Some (oper, fs)" "waits oper fs = Some (MutexWait m')" for t oper fs m'
  proof (cases "t \<in> R")
    case True
    then have "ow m' = t" using pend_okD(3) [OF p True pt] by simp
    then show ?thesis using c pt(1) by auto
  next
    case False
    then obtain ts where q: "qs (MutexWait m) = t # ts" using inR R by (auto split: list.splits)
    then have "waits oper fs = Some (MutexWait m)" using pend_okD(2) [OF p, of "MutexWait m" t] pt(1) by auto
    then show ?thesis using q pt(2) by (simp add: first_of_def)
  qed
  show "woken (MutexWait m) qs (MutexWait m') = []" if "(ow(m := first_of (MutexWait m) qs)) m' = NO_THREAD" for m'
    using that pend_okD(4) [OF p, of m'] d by (auto simp: woken_def first_of_def split: list.splits if_splits)
qed (use pend_okD [OF p] in auto)

lemma pend_signal:
  assumes p: "pend_ok R qs ow pd" and R: "R' = (case qs (CondWait k) of [] \<Rightarrow> R | t # ts \<Rightarrow> insert t R)"
  shows "pend_ok R' (woken (CondWait k) qs) ow pd"
proof (rule pend_okI)
  show "\<exists>oper fs. pd t = Some (oper, fs) \<and> waits oper fs = Some q" if "wait_queue q" "t \<in> set (woken (CondWait k) qs q)" for q t
    using that pend_okD(2) [OF p, of q t] by (auto simp: woken_def split: list.splits if_splits)
  show "ow m = t" if inR: "t \<in> R'" and pt: "pd t = Some (oper, fs)" "waits oper fs = Some (MutexWait m)" for t oper fs m
  proof (cases "t \<in> R")
    case False
    then obtain ts where q: "qs (CondWait k) = t # ts" using inR R by (auto split: list.splits)
    then have "waits oper fs = Some (CondWait k)" using pend_okD(2) [OF p, of "CondWait k" t] pt(1) by auto
    then show ?thesis using pt(2) by simp
  qed (use pend_okD(3) [OF p _ pt] in simp)
  show "woken (CondWait k) qs (MutexWait m) = []" if "ow m = NO_THREAD" for m
    using that pend_okD(4) [OF p, of m] by (auto simp: woken_def split: list.splits)
qed (use pend_okD [OF p] in auto)

section \<open>Read-write locks that are not involved\<close>

lemma rw_okD:
  assumes "rw_ok R qs ow rd wr pd H r"
  shows "ow (RwMutex r) = NO_THREAD" "finite {t. HoldR r \<in> H t}" "rd r = card {t. HoldR r \<in> H t}"
    "wr r \<noteq> NO_THREAD \<Longrightarrow> ow (ReaderQueue r) = wr r" "wr r \<noteq> NO_THREAD \<Longrightarrow> HoldW r \<in> H (wr r) \<or> pd (wr r) = Some (writing r)"
    "HoldW r \<in> H t \<Longrightarrow> wr r = t" "HoldW r \<in> H t \<Longrightarrow> rd r = 0"
    "t \<in> set (qs (CondWait (WriterQueue r))) \<Longrightarrow> wr r = t" "t \<in> set (qs (CondWait (WriterQueue r))) \<Longrightarrow> 0 < rd r"
    "t \<in> R \<Longrightarrow> pd t = Some (writing r) \<Longrightarrow> wr r = t" "t \<in> R \<Longrightarrow> pd t = Some (writing r) \<Longrightarrow> rd r = 0"
    "pd t = Some (oper, fs) \<Longrightarrow> waits oper fs = Some (MutexWait (ReaderQueue r)) \<Longrightarrow> HoldW r \<notin> H t"
    "pd t = Some (Rd r, fs) \<Longrightarrow> waits (Rd r) fs = Some (MutexWait (ReaderQueue r)) \<Longrightarrow> HoldR r \<notin> H t"
  using assms unfolding rw_ok_def by blast+

lemma rw_okI:
  assumes "ow (RwMutex r) = NO_THREAD" "finite {t. HoldR r \<in> H t}" "rd r = card {t. HoldR r \<in> H t}"
    "wr r \<noteq> NO_THREAD \<Longrightarrow> ow (ReaderQueue r) = wr r" "wr r \<noteq> NO_THREAD \<Longrightarrow> HoldW r \<in> H (wr r) \<or> pd (wr r) = Some (writing r)"
    "\<And>t. HoldW r \<in> H t \<Longrightarrow> wr r = t \<and> rd r = 0"
    "\<And>t. t \<in> set (qs (CondWait (WriterQueue r))) \<Longrightarrow> wr r = t \<and> 0 < rd r"
    "\<And>t. t \<in> R \<Longrightarrow> pd t = Some (writing r) \<Longrightarrow> wr r = t \<and> rd r = 0"
    "\<And>t oper fs. pd t = Some (oper, fs) \<Longrightarrow> waits oper fs = Some (MutexWait (ReaderQueue r)) \<Longrightarrow> HoldW r \<notin> H t \<and> (oper = Rd r \<longrightarrow> HoldR r \<notin> H t)"
  shows "rw_ok R qs ow rd wr pd H r"
  using assms unfolding rw_ok_def by blast

lemma rw_frame:
  assumes rw: "rw_ok R qs ow rd wr pd H r" and ow: "ow' (ReaderQueue r) = ow (ReaderQueue r)" "ow' (RwMutex r) = ow (RwMutex r)"
    and rd: "rd' r = rd r" and wr: "wr' r = wr r"
    and qs: "set (qs' (CondWait (WriterQueue r))) \<subseteq> set (qs (CondWait (WriterQueue r)))"
    and H: "\<And>t. HoldR r \<in> H' t \<longleftrightarrow> HoldR r \<in> H t" "\<And>t. HoldW r \<in> H' t \<longleftrightarrow> HoldW r \<in> H t"
    and pd: "\<And>t. pd t = Some (writing r) \<Longrightarrow> pd' t = Some (writing r)"
    and R: "\<And>t. t \<in> R' \<Longrightarrow> pd' t = Some (writing r) \<Longrightarrow> t \<in> R \<and> pd t = Some (writing r)"
    and q: "\<And>t oper fs. pd' t = Some (oper, fs) \<Longrightarrow> waits oper fs = Some (MutexWait (ReaderQueue r)) \<Longrightarrow> pd t = Some (oper, fs)"
  shows "rw_ok R' qs' ow' rd' wr' pd' H' r"
proof (rule rw_okI)
  note D = rw_okD [OF rw]
  show "ow' (RwMutex r) = NO_THREAD" "finite {t. HoldR r \<in> H' t}" "rd' r = card {t. HoldR r \<in> H' t}"
    using D(1-3) ow(2) rd H(1) by simp_all
  show "ow' (ReaderQueue r) = wr' r" "HoldW r \<in> H' (wr' r) \<or> pd' (wr' r) = Some (writing r)" if "wr' r \<noteq> NO_THREAD"
    using that D(4,5) ow(1) wr H(2) pd by auto
  show "wr' r = t \<and> rd' r = 0" if "HoldW r \<in> H' t" for t using that D(6,7) rd wr H(2) by simp
  show "wr' r = t \<and> 0 < rd' r" if "t \<in> set (qs' (CondWait (WriterQueue r)))" for t using that D(8,9) [of t] qs rd wr by auto
  show "wr' r = t \<and> rd' r = 0" if "t \<in> R'" "pd' t = Some (writing r)" for t using R [OF that] D(10,11) [of t] rd wr by simp
  show "HoldW r \<notin> H' t \<and> (oper = Rd r \<longrightarrow> HoldR r \<notin> H' t)"
    if "pd' t = Some (oper, fs)" "waits oper fs = Some (MutexWait (ReaderQueue r))" for t oper fs
    using q [OF that] D(12) [OF _ that(2)] D(13) [of t fs] that(2) H by auto
qed

lemma coro_invD:
  assumes "coro_inv s qs pd H"
  shows "lib_ok s qs" "pend_ok (ready s qs) qs (owner s) pd" "hold_ok (owner s) H"
    "rw_ok (ready s qs) qs (owner s) (readers s) (writer s) pd H r" "fresh_ok s qs pd"
  using assms by (auto simp: coro_inv_def)

lemma coro_invI:
  assumes "lib_ok s qs" "pend_ok (ready s qs) qs (owner s) pd" "hold_ok (owner s) H" "fresh_ok s qs pd"
    "\<And>r. rw_ok (ready s qs) qs (owner s) (readers s) (writer s) pd H r"
  shows "coro_inv s qs pd H"
  using assms by (auto simp: coro_inv_def)

lemma cur_free:
  assumes "coro_inv s qs pd H"
  shows "\<forall>q. current_thread s \<notin> set (qs q)" "NO_THREAD \<notin> ready s qs" "NO_THREAD \<notin> set (qs q)"
  using lib_okD(1,3,4) [OF coro_invD(1) [OF assms]] queuesD(4) [OF lib_okD(1) [OF coro_invD(1) [OF assms]], of NO_THREAD]
  by (auto simp: queued_def)

lemma fresh_step:
  assumes i: "coro_inv s qs pd H" and n: "nr_threads s' = nr_threads s" and q: "qs' FreeThreads = qs FreeThreads"
    and pd: "\<And>t. t \<noteq> current_thread s \<Longrightarrow> pd' t = pd t"
  shows "fresh_ok s' qs' pd'"
proof -
  have "current_thread s \<notin> set (qs FreeThreads)" "current_thread s < nr_threads s"
    using cur_free(1) [OF i] lib_okD(2,7) [OF coro_invD(1) [OF i]] by (auto simp: is_valid_id_def)
  then show ?thesis using coro_invD(5) [OF i] n q pd unfolding fresh_ok_def by (metis linorder_not_less)
qed

section \<open>Mutexes of the clients\<close>

lemma inv_clear:
  assumes i: "coro_inv s qs pd H" and c: "\<forall>r. pd (current_thread s) \<noteq> Some (writing r)"
  shows "coro_inv s qs (pd(current_thread s := None)) H"
proof (rule coro_invI)
  show "pend_ok (ready s qs) qs (owner s) (pd(current_thread s := None))" using pend_done [OF coro_invD(2) [OF i]] cur_free(1) [OF i] .
  show "rw_ok (ready s qs) qs (owner s) (readers s) (writer s) (pd(current_thread s := None)) H r" for r
    by (rule rw_frame [OF coro_invD(4) [OF i]]) (use c in \<open>auto split: if_splits\<close>)
  show "fresh_ok s qs (pd(current_thread s := None))" by (rule fresh_step [OF i]) auto
qed (use coro_invD [OF i] in auto)

lemma wait_thread:
  assumes i: "coro_inv s qs pd H" and q: "wait_queue q" "qs q = t # ts" and pt: "pd t = Some (oper, fs)"
  shows "waits oper fs = Some q"
  using pend_okD(2) [OF coro_invD(2) [OF i] q(1), of t] q(2) pt by auto

text \<open>The thread that runs suspends its call in the queue of a client mutex or condition variable.\<close>

lemma inv_block:
  assumes i: "coro_inv s qs pd H" and c: "current_thread s \<noteq> MAIN_THREAD" "pd (current_thread s) = None"
    and q: "q = MutexWait (Mutex k) \<and> owner s (Mutex k) \<noteq> NO_THREAD \<or> q = CondWait (Cond k)" and w: "waits oper fs = Some q"
    and r: "qs RunQueue = t # ts" and s': "coro_queues_ok s' (qs(q := qs q @ [current_thread s], RunQueue := ts))" "switched s s' t"
  shows "\<exists>qs'. coro_inv s' qs' (pd(current_thread s := Some (oper, fs))) H"
proof -
  let ?qs = "qs(q := qs q @ [current_thread s], RunQueue := ts)"
  have wq: "wait_queue q" "\<forall>p. q \<noteq> MutexWait (ExitM p) \<and> q \<noteq> CondWait (Exited p)" using q by auto
  note l = lib_block [OF coro_invD(1) [OF i] c(1) wq r s']
  have ow: "owner s' = owner s" "readers s' = readers s" "writer s' = writer s" using s'(2) by (auto simp: switched_def)
  have "pend_ok (ready s' ?qs) ?qs (owner s') (pd(current_thread s := Some (oper, fs)))"
    unfolding l(2) ow using pend_block [OF coro_invD(2) [OF i] cur_free(1) [OF i] c(1) w wq(1)] q by auto
  moreover have "rw_ok (ready s' ?qs) ?qs (owner s') (readers s') (writer s') (pd(current_thread s := Some (oper, fs))) H r" for r
    unfolding l(2) ow by (rule rw_frame [OF coro_invD(4) [OF i]]) (use c w q in \<open>auto split: if_splits\<close>)
  moreover have "fresh_ok s' ?qs (pd(current_thread s := Some (oper, fs)))"
    by (rule fresh_step [OF i]) (use s'(2) wq(1) in \<open>auto simp: switched_def\<close>)
  ultimately have "coro_inv s' ?qs (pd(current_thread s := Some (oper, fs))) H"
    using l(1) coro_invD(3) [OF i] by (intro coro_invI) (simp_all only: ow)
  then show ?thesis by blast
qed

text \<open>What a step has to come to: a state that is well-formed once its outcome is recorded.\<close>

definition settles :: "int \<Rightarrow> op \<Rightarrow> (int \<Rightarrow> (op \<times> coro_frame list) option) \<Rightarrow> (int \<Rightarrow> hold set) \<Rightarrow> call \<Rightarrow> bool" where
  "settles c oper pd H r \<longleftrightarrow>
     (\<exists>out s qs. r = Inr (out, s) \<and>
        (case out of
           Ret v \<Rightarrow> coro_inv s qs (pd(c := None)) (if v = 0 then H(c := H c \<union> given oper) else H)
         | Susp fs \<Rightarrow> coro_inv s qs (pd(c := Some (oper, fs))) H))"

lemma settles_Ret:
  "coro_inv s qs (pd(c := None)) (if v = 0 then H(c := H c \<union> given oper) else H) \<Longrightarrow> settles c oper pd H (Inr (Ret v, s))"
  unfolding settles_def by (intro exI [of _ "Ret v"] exI [of _ s] exI [of _ qs]) simp

lemma settles_Susp: "coro_inv s qs (pd(c := Some (oper, fs))) H \<Longrightarrow> settles c oper pd H (Inr (Susp fs, s))"
  unfolding settles_def by (intro exI [of _ "Susp fs"] exI [of _ s] exI [of _ qs]) simp

lemma inv_own:
  assumes i: "coro_inv s qs pd H" and c: "pd (current_thread s) = None" and m: "owner s (Mutex k) = NO_THREAD"
  shows "coro_inv (s\<lparr>owner := (owner s)(Mutex k := current_thread s)\<rparr>) qs pd (H(current_thread s := insert (HoldM k) (H (current_thread s))))"
proof (rule coro_invI)
  let ?s = "s\<lparr>owner := (owner s)(Mutex k := current_thread s)\<rparr>"
  show "lib_ok ?s qs" using coro_invD(1) [OF i] by simp
  show "pend_ok (ready ?s qs) qs (owner ?s) pd"
    using pend_own [OF coro_invD(2) [OF i] c lib_okD(4) [OF coro_invD(1) [OF i]] m cur_free(2) [OF i]] by simp
  show "hold_ok (owner ?s) (H(current_thread s := insert (HoldM k) (H (current_thread s))))"
    using coro_invD(3) [OF i] m lib_okD(4) [OF coro_invD(1) [OF i]] by (auto simp: hold_ok_def)
  show "rw_ok (ready ?s qs) qs (owner ?s) (readers ?s) (writer ?s) pd (H(current_thread s := insert (HoldM k) (H (current_thread s)))) r" for r
    by (rule rw_frame [OF coro_invD(4) [OF i]]) auto
  show "fresh_ok ?s qs pd" by (rule fresh_step [OF i]) auto
qed

lemma lock_settles:
  assumes i: "coro_inv s qs pd H" and c: "pd (current_thread s) = None" and mm: "current_thread s = MAIN_THREAD \<longrightarrow> owner s (Mutex k) \<in> {NO_THREAD, MAIN_THREAD}"
    and oper: "given oper = {HoldM k}" "waits oper [] = Some (MutexWait (Mutex k))"
  shows "settles (current_thread s) oper pd H (coro_mutex_lock (Some (Mutex k)) s)"
proof -
  note lib = coro_invD(1) [OF i]
  note lock = mutex_lock_ok [OF lib_okD(1-3) [OF lib], of "Mutex k"]
  have pd: "pd(current_thread s := None) = pd" using c by auto
  consider "owner s (Mutex k) = current_thread s" | "owner s (Mutex k) = NO_THREAD" |
    (busy) "owner s (Mutex k) \<noteq> current_thread s" "owner s (Mutex k) \<noteq> NO_THREAD" by blast
  then show ?thesis
  proof cases
    case 1
    show ?thesis unfolding lock(1) [OF 1] by (rule settles_Ret [of s qs]) (use i pd in simp)
  next
    case 2
    show ?thesis unfolding lock(2) [OF 2] by (rule settles_Ret [of _ qs]) (use inv_own [OF i c 2] oper(1) pd in simp)
  next
    case busy
    then have cm: "current_thread s \<noteq> MAIN_THREAD" using mm by auto
    obtain t ts where r: "qs RunQueue = t # ts" using other_runs [OF lib cm] by blast
    obtain s' where s': "coro_mutex_lock (Some (Mutex k)) s = Inr (Susp [], s')"
        "coro_queues_ok s' (qs(MutexWait (Mutex k) := qs (MutexWait (Mutex k)) @ [current_thread s], RunQueue := ts))" "switched s s' t"
      using lock(3) [OF busy r] by blast
    obtain qs' where "coro_inv s' qs' (pd(current_thread s := Some (oper, []))) H"
      using inv_block [OF i cm c _ oper(2) r s'(2,3), of k] busy(2) by blast
    then show ?thesis unfolding s'(1) by (rule settles_Susp)
  qed
qed

lemma trylock_settles:
  assumes i: "coro_inv s qs pd H" and c: "pd (current_thread s) = None"
  shows "settles (current_thread s) (Trylock k) pd H (perform (Trylock k) s)"
proof -
  have pd: "pd(current_thread s := None) = pd" using c by auto
  consider (free) "owner s (Mutex k) = NO_THREAD" "owner s (Mutex k) \<noteq> current_thread s"
    | v where "v \<noteq> 0" "coro_mutex_trylock (Some (Mutex k)) s = (v, s)"
    by (cases "owner s (Mutex k) = current_thread s"; cases "owner s (Mutex k) = NO_THREAD") (auto simp: coro_mutex_trylock_def)
  then show ?thesis
  proof cases
    case free
    then have "perform (Trylock k) s = Inr (Ret 0, s\<lparr>owner := (owner s)(Mutex k := current_thread s)\<rparr>)"
      by (simp add: coro_mutex_trylock_def)
    then show ?thesis using inv_own [OF i c free(1)] pd by (auto intro!: settles_Ret [of _ qs])
  next
    case 2
    then show ?thesis using i pd by (auto intro!: settles_Ret [of _ qs])
  qed
qed

text \<open>The client gives a mutex back.\<close>

lemma inv_release:
  assumes i: "coro_inv s qs pd H" and c: "pd (current_thread s) = None" and m: "owner s (Mutex k) = current_thread s"
    and s': "coro_queues_ok s' (woken (MutexWait (Mutex k)) qs)" "same_core s s'" "owner s' = (owner s)(Mutex k := first_of (MutexWait (Mutex k)) qs)"
  shows "coro_inv s' (woken (MutexWait (Mutex k)) qs) pd (H(current_thread s := H (current_thread s) - {HoldM k}))"
proof (rule coro_invI)
  let ?q = "MutexWait (Mutex k)"
  note lib = coro_invD(1) [OF i]
  note w = lib_wake [OF lib wait_queue_simps(1) s'(1,2)]
  have co: "readers s' = readers s" "writer s' = writer s" using s'(2) by (auto simp: same_core_def)
  show "lib_ok s' (woken ?q qs)" by (rule w(1))
  show "pend_ok (ready s' (woken ?q qs)) (woken ?q qs) (owner s') pd"
    unfolding s'(3) using pend_release [OF coro_invD(2) [OF i] m c queuesD(2) [OF lib_okD(1) [OF lib]] cur_free(3) [OF i] w(2)] .
  show "hold_ok (owner s') (H(current_thread s := H (current_thread s) - {HoldM k}))"
    using coro_invD(3) [OF i] m lib_okD(4) [OF lib] unfolding s'(3) by (auto simp: hold_ok_def)
  show "rw_ok (ready s' (woken ?q qs)) (woken ?q qs) (owner s') (readers s') (writer s') pd (H(current_thread s := H (current_thread s) - {HoldM k})) r" for r
    unfolding co
  proof (rule rw_frame [OF coro_invD(4) [OF i]])
    show "t \<in> ready s qs \<and> pd t = Some (writing r)" if "t \<in> ready s' (woken ?q qs)" "pd t = Some (writing r)" for t
    proof (cases "qs ?q")
      case (Cons u us)
      then have "t \<noteq> u" using wait_thread [OF i wait_queue_simps(1) Cons] that(2) by auto
      then show ?thesis using that Cons unfolding w(2) by auto
    qed (use that w(2) in auto)
  qed (auto simp: s'(3) woken_def split: list.split)
  show "fresh_ok s' (woken ?q qs) pd" by (rule fresh_step [OF i]) (use s'(2) in \<open>auto simp: same_core_def woken_free\<close>)
qed

lemma unlock_settles:
  assumes i: "coro_inv s qs pd H" and c: "pd (current_thread s) = None"
  shows "settles (current_thread s) (Unlock k) pd (H(current_thread s := H (current_thread s) - {HoldM k})) (perform (Unlock k) s)"
proof -
  have pd: "pd(current_thread s := None) = pd" using c by auto
  obtain s' where u: "coro_mutex_unlock (Some (Mutex k)) s = Inr (if owner s (Mutex k) = current_thread s then 0 else EPERM, s')"
      "owner s (Mutex k) \<noteq> current_thread s \<longrightarrow> s' = s"
      "owner s (Mutex k) = current_thread s \<longrightarrow> coro_queues_ok s' (woken (MutexWait (Mutex k)) qs) \<and> same_core s s' \<and>
        owner s' = (owner s)(Mutex k := first_of (MutexWait (Mutex k)) qs)"
    using mutex_unlock_ok [OF lib_okD(1) [OF coro_invD(1) [OF i]], of "Mutex k"] by blast
  show ?thesis
  proof (cases "owner s (Mutex k) = current_thread s")
    case True
    then have "coro_inv s' (woken (MutexWait (Mutex k)) qs) pd (H(current_thread s := H (current_thread s) - {HoldM k}))"
      using u(3) inv_release [OF i c True] by blast
    moreover have "perform (Unlock k) s = Inr (Ret 0, s')" using u(1) True by simp
    ultimately show ?thesis using pd settles_Ret [of s' _ pd "current_thread s" 0 _ "Unlock k"] by simp
  next
    case False
    then have "HoldM k \<notin> H (current_thread s)" using coro_invD(3) [OF i] by (auto simp: hold_ok_def)
    then have "H(current_thread s := H (current_thread s) - {HoldM k}) = H" by (simp add: fun_upd_idem)
    moreover have "perform (Unlock k) s = Inr (Ret EPERM, s)" using u(1,2) False by simp
    ultimately show ?thesis using pd i settles_Ret [of s qs pd "current_thread s" EPERM H "Unlock k"] by simp
  qed
qed

lemma resume_one: "resume [f] v s = run_frame f v s"
  by (cases "run_frame f v s") (auto split: outcome.split)

lemma settles_upd [simp]: "settles c oper (pd(c := x)) H r = settles c oper pd H r"
  by (simp only: settles_def fun_upd_upd)

lemma wait_settles:
  assumes i: "coro_inv s qs pd H" and c: "pd (current_thread s) = None" and mm: "current_thread s = MAIN_THREAD \<longrightarrow> owner s (Mutex k) \<noteq> MAIN_THREAD"
  shows "settles (current_thread s) (Wait d k) pd (H(current_thread s := H (current_thread s) - {HoldM k})) (coro_cond_wait (Some (Cond d)) (Some (Mutex k)) s)"
proof -
  let ?c = "current_thread s"
  have pd: "pd(?c := None) = pd" using c by auto
  obtain s1 where u: "coro_mutex_unlock (Some (Mutex k)) s = Inr (if owner s (Mutex k) = ?c then 0 else EPERM, s1)"
      "owner s (Mutex k) \<noteq> ?c \<longrightarrow> s1 = s"
      "owner s (Mutex k) = ?c \<longrightarrow> coro_queues_ok s1 (woken (MutexWait (Mutex k)) qs) \<and> same_core s s1 \<and>
        owner s1 = (owner s)(Mutex k := first_of (MutexWait (Mutex k)) qs)"
    using mutex_unlock_ok [OF lib_okD(1) [OF coro_invD(1) [OF i]], of "Mutex k"] by blast
  show ?thesis
  proof (cases "owner s (Mutex k) = ?c")
    case True
    let ?qs = "woken (MutexWait (Mutex k)) qs" and ?H = "H(?c := H ?c - {HoldM k})"
    have i1: "coro_inv s1 ?qs pd ?H" using u(3) inv_release [OF i c True] True by blast
    have c1: "current_thread s1 = ?c" using u(3) True by (simp add: same_core_def)
    have cm: "current_thread s1 \<noteq> MAIN_THREAD" using mm True c1 by auto
    note lib1 = coro_invD(1) [OF i1]
    obtain t ts where r: "?qs RunQueue = t # ts" using other_runs [OF lib1 cm] by blast
    obtain s' where s': "bind_res (coro_queue_enqueue (CondWait (Cond d)) (current_thread s1) s1) (coro_suspend CR_BLOCKED) = Inr (Susp [], s')"
        "coro_queues_ok s' (?qs(CondWait (Cond d) := ?qs (CondWait (Cond d)) @ [current_thread s1], RunQueue := ts))" "switched s1 s' t"
      using block_ok [OF lib_okD(1-3) [OF lib1] r, of "CondWait (Cond d)" CR_BLOCKED] by auto
    obtain qs' where "coro_inv s' qs' (pd(current_thread s1 := Some (Wait d k, [Relock (Mutex k)]))) ?H"
      using inv_block [OF i1 cm _ _ _ r s'(2,3), of d "Wait d k" "[Relock (Mutex k)]"] c c1 by auto
    moreover have "coro_cond_wait (Some (Cond d)) (Some (Mutex k)) s = Inr (Susp [Relock (Mutex k)], s')"
      using u(1) True s'(1) by (auto simp: coro_cond_wait_def and_then_def bind_res_Inr_conv)
    ultimately show ?thesis using c1 settles_Susp by simp
  next
    case False
    then have "HoldM k \<notin> H ?c" using coro_invD(3) [OF i] by (auto simp: hold_ok_def)
    then have "H(?c := H ?c - {HoldM k}) = H" by (simp add: fun_upd_idem)
    moreover have "coro_cond_wait (Some (Cond d)) (Some (Mutex k)) s = Inr (Ret EPERM, s)" using u(1,2) False by (simp add: coro_cond_wait_def)
    ultimately show ?thesis using pd i settles_Ret [of s qs pd ?c EPERM H "Wait d k"] by simp
  qed
qed

text \<open>A thread that was handed a mutex while it waited for it.\<close>

lemma handed_settles:
  assumes i: "coro_inv s qs pd H" and pc: "pd (current_thread s) = Some (oper, [])" and oper: "given oper = {HoldM k}" "waits oper [] = Some (MutexWait (Mutex k))"
  shows "settles (current_thread s) oper pd H (resume [] 0 s)"
proof -
  have "owner s (Mutex k) = current_thread s" using pend_okD(3) [OF coro_invD(2) [OF i] _ pc oper(2)] by simp
  then have h: "hold_ok (owner s) (H(current_thread s := H (current_thread s) \<union> {HoldM k}))"
    using coro_invD(3) [OF i] lib_okD(4) [OF coro_invD(1) [OF i]] by (auto simp: hold_ok_def)
  have i1: "coro_inv s qs (pd(current_thread s := None)) H" using inv_clear [OF i] pc by simp
  have "coro_inv s qs (pd(current_thread s := None)) (H(current_thread s := H (current_thread s) \<union> {HoldM k}))"
  proof (rule coro_invI)
    show "rw_ok (ready s qs) qs (owner s) (readers s) (writer s) (pd(current_thread s := None)) (H(current_thread s := H (current_thread s) \<union> {HoldM k})) r" for r
      by (rule rw_frame [OF coro_invD(4) [OF i1]]) auto
  qed (use coro_invD [OF i1] h in auto)
  then show ?thesis using oper(1) settles_Ret [of s qs pd "current_thread s" 0 H oper] by simp
qed

lemma relock_settles:
  assumes i: "coro_inv s qs pd H" and pc: "pd (current_thread s) = Some (Wait d k, [Relock (Mutex k)])"
  shows "settles (current_thread s) (Wait d k) pd H (resume [Relock (Mutex k)] 0 s)"
proof -
  have i1: "coro_inv s qs (pd(current_thread s := None)) H" using inv_clear [OF i] pc by simp
  have "current_thread s \<noteq> MAIN_THREAD" using pend_okD(5) [OF coro_invD(2) [OF i]] pc by auto
  then show ?thesis using lock_settles [OF i1, of k "Wait d k"] by (simp add: resume_one del: resume.simps)
qed

section \<open>Signals, yielding, threads\<close>

lemma inv_signal:
  assumes i: "coro_inv s qs pd H" and s': "coro_queues_ok s' (woken (CondWait (Cond d)) qs)" "same_core s s'" "owner s' = owner s"
  shows "coro_inv s' (woken (CondWait (Cond d)) qs) pd H"
proof (rule coro_invI)
  let ?q = "CondWait (Cond d)"
  note w = lib_wake [OF coro_invD(1) [OF i] wait_queue_simps(2) s'(1,2)]
  have co: "readers s' = readers s" "writer s' = writer s" using s'(2) by (auto simp: same_core_def)
  show "lib_ok s' (woken ?q qs)" by (rule w(1))
  show "pend_ok (ready s' (woken ?q qs)) (woken ?q qs) (owner s') pd" unfolding s'(3) using pend_signal [OF coro_invD(2) [OF i] w(2)] .
  show "hold_ok (owner s') H" using coro_invD(3) [OF i] s'(3) by simp
  show "fresh_ok s' (woken ?q qs) pd" by (rule fresh_step [OF i]) (use s'(2) in \<open>auto simp: same_core_def woken_free\<close>)
  show "rw_ok (ready s' (woken ?q qs)) (woken ?q qs) (owner s') (readers s') (writer s') pd H r" for r
    unfolding co s'(3)
  proof (rule rw_frame [OF coro_invD(4) [OF i]])
    show "t \<in> ready s qs \<and> pd t = Some (writing r)" if "t \<in> ready s' (woken ?q qs)" "pd t = Some (writing r)" for t
    proof (cases "qs ?q")
      case (Cons u us)
      then have "t \<noteq> u" using wait_thread [OF i wait_queue_simps(2) Cons] that(2) by auto
      then show ?thesis using that Cons unfolding w(2) by auto
    qed (use that w(2) in auto)
  qed (auto simp: woken_def split: list.split)
qed

lemma signal_settles:
  assumes i: "coro_inv s qs pd H" and c: "pd (current_thread s) = None"
  shows "settles (current_thread s) (Signal d) pd H (perform (Signal d) s)"
proof -
  obtain s' where "coro_cond_signal (Some (Cond d)) s = Inr (0, s')" "coro_queues_ok s' (woken (CondWait (Cond d)) qs)" "same_core s s'" "owner s' = owner s"
    using cond_signal_ok [OF lib_okD(1) [OF coro_invD(1) [OF i]]] by blast
  moreover have "pd(current_thread s := None) = pd" using c by auto
  ultimately show ?thesis using inv_signal [OF i, of s' d] settles_Ret [of s' _ pd "current_thread s" 0 H "Signal d"] by simp
qed

lemma broadcast_inv:
  assumes "coro_inv s qs pd H" and "length (qs (CondWait (Cond d))) < fuel"
  shows "\<exists>s' qs'. broadcast_loop fuel (Cond d) s = Inr s' \<and> coro_inv s' qs' pd H"
  using assms
proof (induction fuel arbitrary: s qs)
  case (Suc fuel)
  let ?q = "CondWait (Cond d)"
  note ok = lib_okD(1) [OF coro_invD(1) [OF Suc.prems(1)]]
  show ?case
  proof (cases "qs ?q")
    case Nil
    then show ?thesis using Suc.prems queue_empty [OF ok, of ?q] by auto
  next
    case (Cons t ts)
    obtain a s1 where d: "coro_queue_dequeue ?q s = (a, s1)" by force
    have id: "s1\<lparr>owner := owner s1\<rparr> = s1" by simp
    obtain s2 where s2: "(if a \<noteq> NO_THREAD then coro_unsuspend a s1 else Inr s1) = Inr s2" "coro_queues_ok s2 (woken ?q qs)"
        "same_core s s2" "owner s2 = owner s"
      using wake_ok [OF ok _ d, of "owner s1", unfolded id] by auto
    have "broadcast_loop (Suc fuel) (Cond d) s = broadcast_loop fuel (Cond d) s2"
      using queue_empty [OF ok, of ?q] Cons d s2(1) by (auto simp: Let_def split: if_splits)
    moreover have "length (woken ?q qs ?q) < fuel" using Suc.prems(2) Cons by (simp add: woken_def)
    ultimately show ?thesis using Suc.IH [OF inv_signal [OF Suc.prems(1) s2(2-4)]] by metis
  qed
qed simp

lemma broadcast_settles:
  assumes i: "coro_inv s qs pd H" and c: "pd (current_thread s) = None"
  shows "settles (current_thread s) (Broadcast d) pd H (perform (Broadcast d) s)"
proof -
  note lib = coro_invD(1) [OF i]
  obtain s' qs' where "broadcast_loop (nat MAX_THREADS + 2) (Cond d) s = Inr s'" "coro_inv s' qs' pd H"
    using broadcast_inv [OF i queue_length [OF lib_okD(1,8) [OF lib]]] by blast
  moreover have "pd(current_thread s := None) = pd" using c by auto
  ultimately show ?thesis using settles_Ret [of s' qs' pd "current_thread s" 0 H "Broadcast d"]
    by (simp add: coro_cond_broadcast_def del: broadcast_loop.simps)
qed

lemma inv_yield:
  assumes i: "coro_inv s qs pd H" and w: "waits oper fs = Some RunQueue" and c: "\<forall>r. pd (current_thread s) \<noteq> Some (writing r)"
    and r: "qs RunQueue \<noteq> []" and s': "coro_queues_ok s' (qs(RunQueue := tl (qs RunQueue) @ [current_thread s]))" "switched s s' (hd (qs RunQueue))"
  shows "coro_inv s' (qs(RunQueue := tl (qs RunQueue) @ [current_thread s])) (pd(current_thread s := Some (oper, fs))) H"
proof (rule coro_invI)
  let ?c = "current_thread s" and ?qs = "qs(RunQueue := tl (qs RunQueue) @ [current_thread s])"
  note lib = coro_invD(1) [OF i]
  obtain t ts where q: "qs RunQueue = t # ts" using r by (cases "qs RunQueue") auto
  have ow: "owner s' = owner s" "readers s' = readers s" "writer s' = writer s" "nr_threads s' = nr_threads s" using s'(2) by (auto simp: switched_def)
  have rd: "ready s' ?qs = ready s qs" using s'(2) q by (auto simp: switched_def)
  have t: "t \<noteq> ?c" "t \<notin> set ts" "is_valid_id s t" "\<And>q. q \<noteq> RunQueue \<Longrightarrow> t \<notin> set (qs q)"
    using queuesD(2) [OF lib_okD(1) [OF lib], of RunQueue] queuesD(3) [OF lib_okD(1) [OF lib], of RunQueue _ t]
      queuesD(4) [OF lib_okD(1) [OF lib], of t RunQueue] spec [OF cur_free(1) [OF i], of RunQueue] q by auto
  then have "t \<notin> queued ?qs" using q by (auto simp: queued_def split: if_splits)
  then show "lib_ok s' ?qs" using s' t(3) lib_okD(5-8) [OF lib] rd q unfolding lib_ok_def
    by (auto simp: switched_def is_valid_id_def idle_exits_def)
  show "pend_ok (ready s' ?qs) ?qs (owner s') (pd(?c := Some (oper, fs)))"
    unfolding rd ow by (rule pend_other [OF coro_invD(2) [OF i] cur_free(1) [OF i] w]) auto
  show "hold_ok (owner s') H" using coro_invD(3) [OF i] ow by simp
  show "fresh_ok s' ?qs (pd(?c := Some (oper, fs)))" by (rule fresh_step [OF i]) (use ow in auto)
  show "rw_ok (ready s' ?qs) ?qs (owner s') (readers s') (writer s') (pd(?c := Some (oper, fs))) H r" for r
    unfolding rd ow by (rule rw_frame [OF coro_invD(4) [OF i]]) (use c w in \<open>auto split: if_splits\<close>)
qed

lemma yield_settles:
  assumes i: "coro_inv s qs pd H" and c: "pd (current_thread s) = None"
  shows "settles (current_thread s) Yield pd H (coro_yield s)"
    "settles (current_thread s) YieldEach pd H (coro_yield_all s)"
proof -
  note ok = lib_okD(1-3) [OF coro_invD(1) [OF i]]
  have pd: "pd(current_thread s := None) = pd" using c by auto
  have "settles (current_thread s) Yield pd H (coro_yield s) \<and> settles (current_thread s) YieldEach pd H (coro_yield_all s)"
  proof (cases "qs RunQueue = []")
    case True
    then show ?thesis using yield_ok [OF ok] queue_empty [OF ok(1), of RunQueue] i pd
        settles_Ret [of s qs pd "current_thread s" "- 1" H Yield] settles_Ret [of s qs pd "current_thread s" 0 H YieldEach]
      by (simp add: coro_yield_all_def)
  next
    case False
    then obtain s' where s': "coro_yield s = Inr (Susp [], s')" "coro_queues_ok s' (qs(RunQueue := tl (qs RunQueue) @ [current_thread s]))"
        "switched s s' (hd (qs RunQueue))"
      using yield_ok [OF ok] by auto
    then have "coro_yield_all s = Inr (Susp [YieldAll], s')"
      using False queue_empty [OF ok(1), of RunQueue] by (simp add: coro_yield_all_def and_then_def)
    then show ?thesis using s'(1) inv_yield [OF i _ _ False s'(2,3)] c
      by (auto intro!: settles_Susp [where qs = "qs(RunQueue := tl (qs RunQueue) @ [current_thread s])"])
  qed
  then show "settles (current_thread s) Yield pd H (coro_yield s)" "settles (current_thread s) YieldEach pd H (coro_yield_all s)" by auto
qed

lemma exit_settles:
  assumes i: "coro_inv s qs pd H" and c: "pd (current_thread s) = None" "current_thread s \<noteq> MAIN_THREAD"
  shows "settles (current_thread s) (Exit v) pd H (coro_exit v s)"
proof -
  let ?c = "current_thread s"
  note lib = coro_invD(1) [OF i]
  have pd: "pd(?c := None) = pd" using c by auto
  show ?thesis
  proof (cases "tstate (tcb s ?c) = CR_EXITING")
    case True
    then have "coro_exit v s = Inr (Ret 0, s)" using lib_okD(2) [OF lib] by (simp add: coro_exit_def coro_find_tcb_def)
    then show ?thesis using settles_Ret [of s qs pd ?c 0 H "Exit v"] i pd by simp
  next
    case False
    define s1 where "s1 = upd_tcb ?c (\<lambda>b. b\<lparr>tresult := v, tstate := CR_EXITING\<rparr>) s"
    obtain t ts where r: "qs RunQueue = t # ts" using other_runs [OF lib c(2)] by blast
    have ok1: "coro_queues_ok s1 qs" using lib_okD(1) [OF lib] by (subst coro_queues_ok_cong [of s1 s]) (auto simp: s1_def)
    have none: "woken (CondWait (Exited ?c)) qs = qs" using lib_okD(6) [OF lib] by (simp add: woken_def idle_exits_def)
    obtain s2 where s2: "coro_cond_signal (Some (Exited ?c)) s1 = Inr (0, s2)" "coro_queues_ok s2 qs" "same_core s1 s2" "owner s2 = owner s1"
      using cond_signal_ok [OF ok1, of "Exited ?c"] none by auto
    have "is_valid_id s2 (current_thread s2)" using lib_okD(2) [OF lib] s2(3) by (simp add: same_core_def s1_def is_valid_id_def)
    from schedule_ok [OF s2(2) this r] obtain s' where s': "coro_schedule s2 = Inr (True, s')" "coro_queues_ok s' (qs(RunQueue := ts))" "switched s2 s' t"
      by blast
    have ow: "owner s' = owner s" "readers s' = readers s" "writer s' = writer s" "nr_threads s' = nr_threads s" "current_thread s' = t"
      using s'(3) s2(3,4) by (auto simp: switched_def same_core_def s1_def)
    have run: "coro_exit v s = Inr (Susp [], s')"
      using False lib_okD(2) [OF lib] s2(1) s'(1) by (simp add: coro_exit_def coro_find_tcb_def s1_def)
    let ?qs = "qs(RunQueue := ts)"
    have rd: "ready s' ?qs = ready s qs - {?c}" using r ow(5) spec [OF cur_free(1) [OF i], of RunQueue] by auto
    have t: "t \<notin> set ts" "is_valid_id s t" "\<And>q. q \<noteq> RunQueue \<Longrightarrow> t \<notin> set (qs q)"
      using queuesD(2) [OF lib_okD(1) [OF lib], of RunQueue] queuesD(3) [OF lib_okD(1) [OF lib], of RunQueue _ t]
        queuesD(4) [OF lib_okD(1) [OF lib], of t RunQueue] r by auto
    then have "t \<notin> queued ?qs" by (auto simp: queued_def split: if_splits)
    then have "lib_ok s' ?qs" using s'(2) t(2) lib_okD(5-8) [OF lib] rd ow c(2) unfolding lib_ok_def
      by (auto simp: is_valid_id_def idle_exits_def)
    moreover have "pend_ok (ready s' ?qs) ?qs (owner s') (pd(?c := Some (Exit v, [])))"
      unfolding rd ow(1-4) by (rule pend_other [OF coro_invD(2) [OF i] cur_free(1) [OF i], of _ _ FreeThreads]) (use c(2) in auto)
    moreover have "hold_ok (owner s') H" using coro_invD(3) [OF i] ow by simp
    moreover have "fresh_ok s' ?qs (pd(?c := Some (Exit v, [])))" by (rule fresh_step [OF i]) (use ow in auto)
    moreover have "rw_ok (ready s' ?qs) ?qs (owner s') (readers s') (writer s') (pd(?c := Some (Exit v, []))) H r" for r
      unfolding rd ow(1-4) by (rule rw_frame [OF coro_invD(4) [OF i]]) (use c in \<open>auto split: if_splits\<close>)
    ultimately have "coro_inv s' ?qs (pd(?c := Some (Exit v, []))) H" by (rule coro_invI)
    then show ?thesis unfolding run by (rule settles_Susp)
  qed
qed

lemma waits_not_exit: "waits oper fs = Some (MutexWait m) \<Longrightarrow> m \<noteq> ExitM p"
  by (cases "(oper, fs)" rule: waits.cases) (auto split: if_splits)

lemma create_inv:
  assumes i: "coro_inv s qs pd H" and mem: "pool_mem mem" "shrink_mem mem" "stack_mem mem"
  shows "(\<exists>v. coro_thread_create mem proc s = Inr (v, None, s)) \<or>
    (\<exists>t s' qs'. coro_thread_create mem proc s = Inr (0, Some t, s') \<and> coro_inv s' qs' (pd(t := None)) H)"
proof -
  note lib = coro_invD(1) [OF i]
  from create_ok [OF lib_okD(1,6,7,8) [OF lib] mem] consider "\<exists>v. coro_thread_create mem proc s = Inr (v, None, s)"
    | (new) t ts s' where "coro_thread_create mem proc s = Inr (0, Some t, s')" "coro_queues_ok s' (qs(FreeThreads := ts, RunQueue := qs RunQueue @ [t]))"
        "same_rest s s'" "nr_threads s' < MAX_THREADS" "\<forall>u \<in> set (t # ts). u \<in> set (qs FreeThreads) \<or> nr_threads s \<le> u"
    by blast
  then show ?thesis
  proof cases
    case new
    let ?qs = "qs(FreeThreads := ts, RunQueue := qs RunQueue @ [t])" and ?c = "current_thread s"
    have co: "current_thread s' = ?c" "readers s' = readers s" "writer s' = writer s" "nr_threads s \<le> nr_threads s'"
      and ow: "\<And>m. (\<forall>p. m \<noteq> ExitM p) \<Longrightarrow> owner s' m = owner s m" using new(3) by (auto simp: same_rest_def)
    have pt: "pd t = None" using coro_invD(5) [OF i] new(5) by (auto simp: fresh_ok_def)
    then have pd: "pd(t := None) = pd" by auto
    have tc: "t \<noteq> ?c" using new(5) spec [OF cur_free(1) [OF i], of FreeThreads] lib_okD(2,7) [OF lib] by (auto simp: is_valid_id_def)
    have rd: "ready s' ?qs = insert t (ready s qs)" using co(1) by auto
    have tq: "t \<notin> set (qs q)" if "wait_queue q" for q
      using queuesD(3) [OF new(2), of RunQueue q t] that by (auto simp: wait_queue_def)
    have cq: "?c \<notin> set ts" using new(5) spec [OF cur_free(1) [OF i], of FreeThreads] lib_okD(2,7) [OF lib] by (auto simp: is_valid_id_def)
    have "lib_ok s' ?qs" using new(2,4) lib_okD [OF lib] rd co tc cq unfolding lib_ok_def
      by (auto simp: is_valid_id_def idle_exits_def queued_def split: if_splits)
    moreover have "pend_ok (ready s' ?qs) ?qs (owner s') pd"
    proof (rule pend_okI)
      show "\<exists>oper fs. pd u = Some (oper, fs) \<and> waits oper fs = Some q" if "wait_queue q" "u \<in> set (?qs q)" for q u
        using that pend_okD(2) [OF coro_invD(2) [OF i], of q u] by (auto split: if_splits)
      show "owner s' m = u" if "u \<in> ready s' ?qs" "pd u = Some (oper, fs)" "waits oper fs = Some (MutexWait m)" for u oper fs m
        using that pend_okD(3) [OF coro_invD(2) [OF i], of u oper fs m] ow [of m] waits_not_exit [OF that(3)] pt unfolding rd by auto
      show "?qs (MutexWait m) = []" if "owner s' m = NO_THREAD" for m
        using that ow [of m] pend_okD(4) [OF coro_invD(2) [OF i], of m] lib_okD(6) [OF lib] by (cases m) (auto simp: idle_exits_def)
    qed (use pend_okD [OF coro_invD(2) [OF i]] in auto)
    moreover have "hold_ok (owner s') H" using coro_invD(3) [OF i] ow by (auto simp: hold_ok_def)
    moreover have "fresh_ok s' ?qs pd" using coro_invD(5) [OF i] new(5) co(4) by (auto simp: fresh_ok_def)
    moreover have "rw_ok (ready s' ?qs) ?qs (owner s') (readers s') (writer s') pd H r" for r
      unfolding rd co(2,3) by (rule rw_frame [OF coro_invD(4) [OF i]]) (use pt ow in auto)
    ultimately have "coro_inv s' ?qs pd H" by (rule coro_invI)
    then show ?thesis using new(1) pd by auto
  qed auto
qed

section \<open>Read-write locks\<close>

text \<open>Steps that touch one read-write lock only.\<close>

lemma inv_rw:
  assumes i: "coro_inv s qs pd H" and co: "coro_queues_ok s' qs" "current_thread s' = current_thread s" "nr_threads s' = nr_threads s"
    and ow: "owner s' = owner s"
    and other: "\<And>q. q \<noteq> r \<Longrightarrow> readers s' q = readers s q" "\<And>q. q \<noteq> r \<Longrightarrow> writer s' q = writer s q"
    and H: "H' NO_THREAD = {}" "\<And>t h. h \<noteq> HoldR r \<Longrightarrow> h \<noteq> HoldW r \<Longrightarrow> h \<in> H' t \<longleftrightarrow> h \<in> H t"
    and rw: "rw_ok (ready s qs) qs (owner s) (readers s') (writer s') pd H' r"
  shows "coro_inv s' qs pd H'"
proof (rule coro_invI)
  show "lib_ok s' qs" using coro_invD(1) [OF i] co by (simp add: lib_ok_def is_valid_id_def)
  show "pend_ok (ready s' qs) qs (owner s') pd" using coro_invD(2) [OF i] co(2) ow by simp
  show "hold_ok (owner s') H'" using coro_invD(3) [OF i] H ow by (simp add: hold_ok_def)
  show "fresh_ok s' qs pd" using coro_invD(5) [OF i] co(3) by (simp add: fresh_ok_def)
  show "rw_ok (ready s' qs) qs (owner s') (readers s') (writer s') pd H' q" for q
  proof (cases "q = r")
    case True
    then show ?thesis using rw co(2) ow by simp
  next
    case False
    then show ?thesis by (intro rw_frame [OF coro_invD(4) [OF i]]) (simp_all add: co ow other H)
  qed
qed

lemma no_writer:
  assumes i: "coro_inv s qs pd H" and w: "writer s r = NO_THREAD"
  shows "HoldW r \<notin> H t" "qs (CondWait (WriterQueue r)) = []" "t \<in> ready s qs \<Longrightarrow> pd t \<noteq> Some (writing r)"
proof -
  note D = rw_okD [OF coro_invD(4) [OF i, of r]]
  show "HoldW r \<notin> H t" using D(6) [of t] w coro_invD(3) [OF i] by (auto simp: hold_ok_def)
  show "qs (CondWait (WriterQueue r)) = []"
    using D(8) w cur_free(3) [OF i, of "CondWait (WriterQueue r)"] by (cases "qs (CondWait (WriterQueue r))") auto
  show "t \<in> ready s qs \<Longrightarrow> pd t \<noteq> Some (writing r)" using D(10) [of t] w cur_free(2) [OF i] by auto
qed

lemma free_no_writer: "coro_inv s qs pd H \<Longrightarrow> owner s (ReaderQueue r) = NO_THREAD \<Longrightarrow> writer s r = NO_THREAD"
  using rw_okD(4) [OF coro_invD(4)] by metis

lemma inv_reader:
  assumes i: "coro_inv s qs pd H" and w: "writer s r = NO_THREAD" and c: "HoldR r \<notin> H (current_thread s)" "pd (current_thread s) = None"
  shows "coro_inv (s\<lparr>readers := (readers s)(r := readers s r + 1)\<rparr>) qs pd (H(current_thread s := H (current_thread s) \<union> {HoldR r}))"
proof (rule inv_rw [OF i])
  let ?H = "H(current_thread s := H (current_thread s) \<union> {HoldR r})"
  note D = rw_okD [OF coro_invD(4) [OF i, of r]] and n = no_writer [OF i w]
  have e: "{t. HoldR r \<in> ?H t} = insert (current_thread s) {t. HoldR r \<in> H t}" using c(1) by auto
  show "rw_ok (ready s qs) qs (owner s) (readers (s\<lparr>readers := (readers s)(r := readers s r + 1)\<rparr>))
      (writer (s\<lparr>readers := (readers s)(r := readers s r + 1)\<rparr>)) pd ?H r"
  proof (rule rw_okI)
    show "finite {t. HoldR r \<in> ?H t}" using D(2) unfolding e by simp
    show "readers (s\<lparr>readers := (readers s)(r := readers s r + 1)\<rparr>) r = card {t. HoldR r \<in> ?H t}" using D(2,3) c(1) unfolding e by simp
    show "HoldW r \<notin> ?H t \<and> (oper = Rd r \<longrightarrow> HoldR r \<notin> ?H t)"
      if "pd t = Some (oper, fs)" "waits oper fs = Some (MutexWait (ReaderQueue r))" for t oper fs
      using that D(12) [OF that] D(13) [of t fs] c(2) by auto
  qed (use D(1) n w in \<open>auto split: if_splits\<close>)
qed (use lib_okD(1,4) [OF coro_invD(1) [OF i]] coro_invD(3) [OF i] in \<open>auto simp: hold_ok_def\<close>)

lemma inv_writer:
  assumes i: "coro_inv s qs pd H" and w: "writer s r = NO_THREAD" and o: "owner s (ReaderQueue r) = current_thread s" and z: "readers s r = 0"
    and c: "pd (current_thread s) = None"
  shows "coro_inv (s\<lparr>writer := (writer s)(r := current_thread s)\<rparr>) qs pd (H(current_thread s := H (current_thread s) \<union> {HoldW r}))"
proof (rule inv_rw [OF i])
  let ?H = "H(current_thread s := H (current_thread s) \<union> {HoldW r})"
  note D = rw_okD [OF coro_invD(4) [OF i, of r]] and n = no_writer [OF i w]
  have e: "{t. HoldR r \<in> ?H t} = {t. HoldR r \<in> H t}" by auto
  show "rw_ok (ready s qs) qs (owner s) (readers (s\<lparr>writer := (writer s)(r := current_thread s)\<rparr>))
      (writer (s\<lparr>writer := (writer s)(r := current_thread s)\<rparr>)) pd ?H r"
  proof (rule rw_okI)
    show "HoldW r \<notin> ?H t \<and> (oper = Rd r \<longrightarrow> HoldR r \<notin> ?H t)"
      if "pd t = Some (oper, fs)" "waits oper fs = Some (MutexWait (ReaderQueue r))" for t oper fs
      using that D(12) [OF that] D(13) [of t fs] c by auto
  qed (use D(1,2,3) n o z e in \<open>auto split: if_splits\<close>)
qed (use lib_okD(1,4) [OF coro_invD(1) [OF i]] coro_invD(3) [OF i] in \<open>auto simp: hold_ok_def\<close>)

lemma inv_unwrite:
  assumes i: "coro_inv s qs pd H" and h: "HoldW r \<in> H (current_thread s)" and c: "pd (current_thread s) = None"
  shows "coro_inv (s\<lparr>writer := (writer s)(r := NO_THREAD)\<rparr>) qs pd (H(current_thread s := H (current_thread s) - {HoldR r, HoldW r}))"
proof (rule inv_rw [OF i])
  let ?c = "current_thread s" and ?H = "H(current_thread s := H (current_thread s) - {HoldR r, HoldW r})"
  note D = rw_okD [OF coro_invD(4) [OF i, of r]]
  have w: "writer s r = ?c" "readers s r = 0" using D(6,7) [OF h] by auto
  then have "{t. HoldR r \<in> H t} = {}" using D(2,3) by simp
  then have e: "{t. HoldR r \<in> ?H t} = {}" "{t. HoldR r \<in> H t} = {}" by auto
  show "rw_ok (ready s qs) qs (owner s) (readers (s\<lparr>writer := (writer s)(r := NO_THREAD)\<rparr>))
      (writer (s\<lparr>writer := (writer s)(r := NO_THREAD)\<rparr>)) pd ?H r"
  proof (rule rw_okI)
    show "finite {t. HoldR r \<in> ?H t}" "readers (s\<lparr>writer := (writer s)(r := NO_THREAD)\<rparr>) r = card {t. HoldR r \<in> ?H t}" using w(2) unfolding e by simp_all
    show "writer (s\<lparr>writer := (writer s)(r := NO_THREAD)\<rparr>) r = t \<and> readers (s\<lparr>writer := (writer s)(r := NO_THREAD)\<rparr>) r = 0" if "HoldW r \<in> ?H t" for t
      using that D(6) [of t] w(1) by (auto split: if_splits)
    show "writer (s\<lparr>writer := (writer s)(r := NO_THREAD)\<rparr>) r = t \<and> 0 < readers (s\<lparr>writer := (writer s)(r := NO_THREAD)\<rparr>) r"
      if "t \<in> set (qs (CondWait (WriterQueue r)))" for t using that D(9) [of t] w(2) by simp
    show "writer (s\<lparr>writer := (writer s)(r := NO_THREAD)\<rparr>) r = t \<and> readers (s\<lparr>writer := (writer s)(r := NO_THREAD)\<rparr>) r = 0"
      if "t \<in> ready s qs" "pd t = Some (writing r)" for t using that D(10) [OF that] w(1) c by auto
    show "HoldW r \<notin> ?H t \<and> (oper = Rd r \<longrightarrow> HoldR r \<notin> ?H t)"
      if "pd t = Some (oper, fs)" "waits oper fs = Some (MutexWait (ReaderQueue r))" for t oper fs
      using that D(12) [OF that] D(13) [of t fs] by auto
  qed (use D(1) in auto)
qed (use lib_okD(1,4) [OF coro_invD(1) [OF i]] coro_invD(3) [OF i] in \<open>auto simp: hold_ok_def\<close>)

text \<open>The mutex \<open>reader_queue\<close> that a writer keeps and a reader only passes.\<close>

lemma inv_own_rq:
  assumes i: "coro_inv s qs pd H" and c: "pd (current_thread s) = None" and m: "owner s (ReaderQueue r) = NO_THREAD"
  shows "coro_inv (s\<lparr>owner := (owner s)(ReaderQueue r := current_thread s)\<rparr>) qs pd H"
proof (rule coro_invI)
  let ?s = "s\<lparr>owner := (owner s)(ReaderQueue r := current_thread s)\<rparr>"
  note w = free_no_writer [OF i m]
  show "lib_ok ?s qs" using coro_invD(1) [OF i] by simp
  show "pend_ok (ready ?s qs) qs (owner ?s) pd"
    using pend_own [OF coro_invD(2) [OF i] c lib_okD(4) [OF coro_invD(1) [OF i]] m cur_free(2) [OF i]] by simp
  show "hold_ok (owner ?s) H" using coro_invD(3) [OF i] by (auto simp: hold_ok_def)
  show "fresh_ok ?s qs pd" by (rule fresh_step [OF i]) auto
  show "rw_ok (ready ?s qs) qs (owner ?s) (readers ?s) (writer ?s) pd H q" for q
  proof (cases "q = r")
    case True
    note D = rw_okD [OF coro_invD(4) [OF i, of r]]
    show ?thesis unfolding True
    proof (rule rw_okI)
      show "HoldW r \<notin> H t \<and> (oper = Rd r \<longrightarrow> HoldR r \<notin> H t)"
        if "pd t = Some (oper, fs)" "waits oper fs = Some (MutexWait (ReaderQueue r))" for t oper fs
        using that D(12) [OF that] D(13) [of t fs] by auto
    qed (use D(1-3) no_writer [OF i w] w in auto)
  qed (rule rw_frame [OF coro_invD(4) [OF i]], auto)
qed

lemma inv_release_rq:
  assumes i: "coro_inv s qs pd H" and c: "pd (current_thread s) = None" and m: "owner s (ReaderQueue r) = current_thread s" and w: "writer s r = NO_THREAD"
    and s': "coro_queues_ok s' (woken (MutexWait (ReaderQueue r)) qs)" "same_core s s'" "owner s' = (owner s)(ReaderQueue r := first_of (MutexWait (ReaderQueue r)) qs)"
  shows "coro_inv s' (woken (MutexWait (ReaderQueue r)) qs) pd H"
proof (rule coro_invI)
  let ?q = "MutexWait (ReaderQueue r)"
  note lib = coro_invD(1) [OF i]
  note wk = lib_wake [OF lib wait_queue_simps(1) s'(1,2)]
  have co: "readers s' = readers s" "writer s' = writer s" using s'(2) by (auto simp: same_core_def)
  show "lib_ok s' (woken ?q qs)" by (rule wk(1))
  show "pend_ok (ready s' (woken ?q qs)) (woken ?q qs) (owner s') pd"
    unfolding s'(3) using pend_release [OF coro_invD(2) [OF i] m c queuesD(2) [OF lib_okD(1) [OF lib]] cur_free(3) [OF i] wk(2)] .
  show "hold_ok (owner s') H" using coro_invD(3) [OF i] unfolding s'(3) by (auto simp: hold_ok_def)
  show "fresh_ok s' (woken ?q qs) pd" by (rule fresh_step [OF i]) (use s'(2) in \<open>auto simp: same_core_def woken_free\<close>)
  have rd: "t \<in> ready s qs \<and> pd t = Some (writing q)" if "t \<in> ready s' (woken ?q qs)" "pd t = Some (writing q)" for t q
  proof (cases "qs ?q")
    case (Cons u us)
    then have "t \<noteq> u" using wait_thread [OF i wait_queue_simps(1) Cons] that(2) by auto
    then show ?thesis using that Cons unfolding wk(2) by auto
  qed (use that wk(2) in auto)
  have cq: "woken ?q qs (CondWait k) = qs (CondWait k)" for k by (simp add: woken_def split: list.split)
  show "rw_ok (ready s' (woken ?q qs)) (woken ?q qs) (owner s') (readers s') (writer s') pd H q" for q
  proof (cases "q = r")
    case True
    note D = rw_okD [OF coro_invD(4) [OF i, of r]] and n = no_writer [OF i w]
    show ?thesis unfolding True co
    proof (rule rw_okI)
      show "HoldW r \<notin> H t \<and> (oper = Rd r \<longrightarrow> HoldR r \<notin> H t)"
        if "pd t = Some (oper, fs)" "waits oper fs = Some (MutexWait (ReaderQueue r))" for t oper fs
        using that D(12) [OF that] D(13) [of t fs] by auto
      show "writer s r = t \<and> readers s r = 0" if "t \<in> ready s' (woken ?q qs)" "pd t = Some (writing r)" for t
        using rd [OF that] n(3) [of t] by simp
    qed (use D(1-3) n w s'(3) cq in auto)
  next
    case False
    show ?thesis unfolding co by (rule rw_frame [OF coro_invD(4) [OF i]]) (use rd False s'(3) cq in auto)
  qed
qed

lemma inv_block_rq:
  assumes i: "coro_inv s qs pd H" and c: "current_thread s \<noteq> MAIN_THREAD" "pd (current_thread s) = None"
    and m: "owner s (ReaderQueue r) \<noteq> NO_THREAD" "owner s (ReaderQueue r) \<noteq> current_thread s" and h: "oper = Rd r \<longrightarrow> HoldR r \<notin> H (current_thread s)"
    and w: "waits oper fs = Some (MutexWait (ReaderQueue r))" and rq: "qs RunQueue = t # ts"
    and s': "coro_queues_ok s' (qs(MutexWait (ReaderQueue r) := qs (MutexWait (ReaderQueue r)) @ [current_thread s], RunQueue := ts))" "switched s s' t"
  shows "\<exists>qs'. coro_inv s' qs' (pd(current_thread s := Some (oper, fs))) H"
proof -
  let ?q = "MutexWait (ReaderQueue r)" and ?c = "current_thread s" and ?pd = "pd(current_thread s := Some (oper, fs))"
  let ?qs = "qs(?q := qs ?q @ [?c], RunQueue := ts)"
  have wq: "wait_queue ?q" "\<forall>p. ?q \<noteq> MutexWait (ExitM p) \<and> ?q \<noteq> CondWait (Exited p)" by auto
  note l = lib_block [OF coro_invD(1) [OF i] c(1) wq rq s']
  have ow: "owner s' = owner s" "readers s' = readers s" "writer s' = writer s" using s'(2) by (auto simp: switched_def)
  have nw: "(oper, fs) \<noteq> writing q" for q using w by auto
  have hw: "HoldW r \<notin> H ?c" using rw_okD(4,6) [OF coro_invD(4) [OF i, of r]] m(2) lib_okD(4) [OF coro_invD(1) [OF i]] by metis
  have "pend_ok (ready s' ?qs) ?qs (owner s') ?pd"
    unfolding l(2) ow using pend_block [OF coro_invD(2) [OF i] cur_free(1) [OF i] c(1) w wq(1)] m(1) by simp
  moreover have "rw_ok (ready s' ?qs) ?qs (owner s') (readers s') (writer s') ?pd H q" for q
  proof (cases "q = r")
    case True
    note D = rw_okD [OF coro_invD(4) [OF i, of r]]
    show ?thesis unfolding True l(2) ow
    proof (rule rw_okI)
      show "HoldW r \<notin> H u \<and> (oper' = Rd r \<longrightarrow> HoldR r \<notin> H u)"
        if "?pd u = Some (oper', fs')" "waits oper' fs' = Some ?q" for u oper' fs'
      proof (cases "u = ?c")
        case True
        then show ?thesis using that(1) hw h by auto
      next
        case False
        then show ?thesis using that D(12) [of u oper' fs'] D(13) [of u fs'] by auto
      qed
      show "writer s r = u \<and> readers s r = 0" if "u \<in> ready s qs - {?c}" "?pd u = Some (writing r)" for u
        using that D(10,11) [of u] by auto
      show "HoldW r \<in> H (writer s r) \<or> ?pd (writer s r) = Some (writing r)" if "writer s r \<noteq> NO_THREAD" using that D(5) c(2) by auto
    qed (use D(1-4,6-9) in auto)
  next
    case False
    show ?thesis unfolding l(2) ow by (rule rw_frame [OF coro_invD(4) [OF i]]) (use c w nw False in \<open>auto split: if_splits\<close>)
  qed
  moreover have "fresh_ok s' ?qs ?pd" by (rule fresh_step [OF i]) (use s'(2) in \<open>auto simp: switched_def\<close>)
  ultimately have "coro_inv s' ?qs ?pd H"
    using l(1) coro_invD(3) [OF i] by (intro coro_invI) (simp_all only: ow)
  then show ?thesis by blast
qed

text \<open>A writer waits until the last reader has left.\<close>

lemma inv_block_writer:
  assumes i: "coro_inv s qs pd H" and c: "current_thread s \<noteq> MAIN_THREAD" "pd (current_thread s) = None"
    and m: "owner s (ReaderQueue r) = current_thread s" and w: "writer s r = NO_THREAD" and n: "0 < readers s r" and rq: "qs RunQueue = t # ts"
    and s': "coro_queues_ok s' (qs(CondWait (WriterQueue r) := qs (CondWait (WriterQueue r)) @ [current_thread s], RunQueue := ts))"
      "switched (s\<lparr>writer := (writer s)(r := current_thread s)\<rparr>) s' t"
  shows "\<exists>qs'. coro_inv s' qs' (pd(current_thread s := Some (writing r))) H"
proof -
  let ?q = "CondWait (WriterQueue r)" and ?c = "current_thread s" and ?pd = "pd(current_thread s := Some (writing r))"
  let ?qs = "qs(?q := qs ?q @ [?c], RunQueue := ts)" and ?s = "s\<lparr>writer := (writer s)(r := current_thread s)\<rparr>"
  have wq: "wait_queue ?q" "\<forall>p. ?q \<noteq> MutexWait (ExitM p) \<and> ?q \<noteq> CondWait (Exited p)" by auto
  have "lib_ok s' ?qs \<and> ready s' ?qs = ready s qs - {?c}"
    using lib_block [of ?s qs ?q t ts s'] coro_invD(1) [OF i] c(1) wq rq s' by simp
  then have l: "lib_ok s' ?qs" "ready s' ?qs = ready s qs - {?c}" by auto
  have ow: "owner s' = owner s" "readers s' = readers s" "writer s' = (writer s)(r := ?c)" "nr_threads s' = nr_threads s" using s'(2) by (auto simp: switched_def)
  have "pend_ok (ready s' ?qs) ?qs (owner s') ?pd"
    unfolding l(2) ow(1) using pend_block [OF coro_invD(2) [OF i] cur_free(1) [OF i] c(1) _ wq(1)] by simp
  moreover have "rw_ok (ready s' ?qs) ?qs (owner s') (readers s') (writer s') ?pd H q" for q
  proof (cases "q = r")
    case True
    note D = rw_okD [OF coro_invD(4) [OF i, of r]] and nw = no_writer [OF i w]
    show ?thesis unfolding True l(2) ow
    proof (rule rw_okI)
      show "HoldW r \<notin> H u \<and> (oper' = Rd r \<longrightarrow> HoldR r \<notin> H u)"
        if "?pd u = Some (oper', fs')" "waits oper' fs' = Some (MutexWait (ReaderQueue r))" for u oper' fs'
        using that D(12) [of u oper' fs'] D(13) [of u fs'] by (cases "u = ?c") auto
      show "((writer s)(r := ?c)) r = u \<and> readers s r = 0" if "u \<in> ready s qs - {?c}" "?pd u = Some (writing r)" for u
        using that nw(3) [of u] by auto
    qed (use D(1-3) nw(1,2) n m in auto)
  next
    case False
    show ?thesis unfolding l(2) ow by (rule rw_frame [OF coro_invD(4) [OF i]]) (use c False in \<open>auto split: if_splits\<close>)
  qed
  moreover have "fresh_ok s' ?qs ?pd" by (rule fresh_step [OF i]) (use ow in auto)
  ultimately have "coro_inv s' ?qs ?pd H"
    using l(1) coro_invD(3) [OF i] by (intro coro_invI) (simp_all only: ow(1))
  then show ?thesis by blast
qed

lemma inv_same:
  assumes i: "coro_inv s qs pd H" and s': "coro_queues_ok s' qs" "same_core s s'" "owner s' = owner s"
  shows "coro_inv s' qs pd H"
  by (rule inv_rw [OF i]) (use s' coro_invD(3,4) [OF i] in \<open>auto simp: same_core_def hold_ok_def\<close>)

text \<open>The mutex of a read-write lock is free between calls and nobody waits for it.\<close>

lemma rw_mutex:
  assumes i: "coro_inv s qs pd H"
  shows "owner s (RwMutex r) = NO_THREAD" "qs (MutexWait (RwMutex r)) = []" "(owner s)(RwMutex r := NO_THREAD) = owner s"
  using rw_okD(1) [OF coro_invD(4) [OF i, of r]] pend_okD(4) [OF coro_invD(2) [OF i]] by (auto simp: fun_upd_idem)

lemma unlock_rw:
  assumes ok: "coro_queues_ok s qs" and m: "owner s (RwMutex r) = current_thread s" and q: "qs (MutexWait (RwMutex r)) = []"
  shows "\<exists>s'. coro_mutex_unlock (Some (RwMutex r)) s = Inr (0, s') \<and> coro_queues_ok s' qs \<and> same_core s s' \<and> owner s' = (owner s)(RwMutex r := NO_THREAD)"
  using mutex_unlock_ok [OF ok, of "RwMutex r"] m q by (auto simp: woken_def first_of_def)

text \<open>A thread with \<open>reader_queue\<close> in its hands.\<close>

lemma rd_finish:
  assumes i: "coro_inv s qs pd H" and c: "pd (current_thread s) = None" and m: "owner s (ReaderQueue r) = current_thread s" and w: "writer s r = NO_THREAD"
    and h: "HoldR r \<notin> H (current_thread s)"
  shows "settles (current_thread s) (Rd r) pd H (rdlock_locked r 0 s)"
proof -
  let ?q = "MutexWait (ReaderQueue r)"
  obtain s1 where u: "coro_mutex_unlock (Some (ReaderQueue r)) s = Inr (0, s1)" "coro_queues_ok s1 (woken ?q qs)" "same_core s s1"
      "owner s1 = (owner s)(ReaderQueue r := first_of ?q qs)"
    using mutex_unlock_ok [OF lib_okD(1) [OF coro_invD(1) [OF i]], of "ReaderQueue r"] m by auto
  have c1: "current_thread s1 = current_thread s" "writer s1 r = NO_THREAD" using u(3) w by (auto simp: same_core_def)
  have "coro_inv s1 (woken ?q qs) pd H" by (rule inv_release_rq [OF i c m w u(2-4)])
  from inv_reader [OF this c1(2)] have "coro_inv (s1\<lparr>readers := (readers s1)(r := readers s1 r + 1)\<rparr>) (woken ?q qs) pd (H(current_thread s := H (current_thread s) \<union> {HoldR r}))"
    using c h c1 by simp
  moreover have "pd(current_thread s := None) = pd" using c by auto
  moreover have "rdlock_locked r 0 s = Inr (Ret 0, s1\<lparr>readers := (readers s1)(r := readers s1 r + 1)\<rparr>)" using u(1) by (simp add: rdlock_locked_def)
  ultimately show ?thesis using settles_Ret [of "s1\<lparr>readers := (readers s1)(r := readers s1 r + 1)\<rparr>" "woken ?q qs" pd "current_thread s" 0 H "Rd r"] by simp
qed

lemma wr_finish:
  assumes i: "coro_inv s qs pd H" and c: "pd (current_thread s) = None" and m: "owner s (ReaderQueue r) = current_thread s" and w: "writer s r = NO_THREAD"
    and mm: "current_thread s = MAIN_THREAD \<longrightarrow> readers s r = 0"
  shows "settles (current_thread s) (Wr r) pd H (wrlock_locked r 0 s)"
proof (cases "readers s r = 0")
  case True
  have "pd(current_thread s := None) = pd" using c by auto
  then show ?thesis using inv_writer [OF i w m True c] True
      settles_Ret [of "s\<lparr>writer := (writer s)(r := current_thread s)\<rparr>" qs pd "current_thread s" 0 H "Wr r"] by (simp add: wrlock_locked_def Let_def)
next
  case False
  let ?c = "current_thread s" and ?s = "s\<lparr>writer := (writer s)(r := current_thread s)\<rparr>" and ?q = "CondWait (WriterQueue r)"
  let ?s2 = "?s\<lparr>owner := (owner s)(RwMutex r := ?c)\<rparr>"
  note lib = coro_invD(1) [OF i] and rm = rw_mutex [OF i, of r]
  have cm: "?c \<noteq> MAIN_THREAD" using False mm by auto
  obtain t ts where rq: "qs RunQueue = t # ts" using other_runs [OF lib cm] by blast
  have ok1: "lib_ok ?s qs" "lib_ok ?s2 qs" using lib by simp_all
  have lock: "coro_mutex_lock (Some (RwMutex r)) ?s = Inr (Ret 0, ?s2)" using mutex_lock_ok(2) [OF lib_okD(1-3) [OF ok1(1)], of "RwMutex r"] rm(1) by simp
  obtain s3 where s3: "coro_mutex_unlock (Some (RwMutex r)) ?s2 = Inr (0, s3)" "coro_queues_ok s3 qs" "same_core ?s2 s3" "owner s3 = owner s"
    using unlock_rw [OF lib_okD(1) [OF ok1(2)], of r] rm by auto
  have c3: "current_thread s3 = ?c" "is_valid_id s3 ?c" using s3(3) lib_okD(2) [OF lib] by (auto simp: same_core_def is_valid_id_def)
  obtain s' where s': "bind_res (coro_queue_enqueue ?q (current_thread s3) s3) (coro_suspend CR_BLOCKED) = Inr (Susp [], s')"
      "coro_queues_ok s' (qs(?q := qs ?q @ [?c], RunQueue := ts))" "switched s3 s' t"
    using block_ok [OF s3(2) _ _ rq, of ?q CR_BLOCKED] c3 lib_okD(3) [OF lib] by auto
  have "switched ?s s' t" using s'(3) s3(3,4) by (auto simp: switched_def same_core_def)
  then obtain qs' where i': "coro_inv s' qs' (pd(?c := Some (writing r))) H"
    using inv_block_writer [OF i cm c m w _ rq s'(2)] False by blast
  have "coro_cond_wait (Some (WriterQueue r)) (Some (RwMutex r)) ?s2 = Inr (Susp [Relock (RwMutex r)], s')"
    using s3(1) s'(1) by (auto simp: coro_cond_wait_def and_then_def bind_res_Inr_conv)
  then have "wrlock_locked r 0 s = Inr (Susp [Relock (RwMutex r), WrWaited r], s')"
    using False lock by (simp add: wrlock_locked_def Let_def and_then_def wrlock_mutex_def)
  then show ?thesis using settles_Susp [OF i'] by simp
qed

lemma rq_taken:
  assumes i: "coro_inv s qs pd H" and pc: "pd (current_thread s) = Some (oper, fs)" and w: "waits oper fs = Some (MutexWait (ReaderQueue r))"
  shows "owner s (ReaderQueue r) = current_thread s" "writer s r = NO_THREAD"
proof -
  note D = rw_okD [OF coro_invD(4) [OF i, of r]]
  show o: "owner s (ReaderQueue r) = current_thread s" using pend_okD(3) [OF coro_invD(2) [OF i] _ pc w] by simp
  show "writer s r = NO_THREAD"
  proof (rule ccontr)
    assume n: "writer s r \<noteq> NO_THREAD"
    then show False using D(4,5) [OF n] D(12) [OF pc w] pc w o by auto
  qed
qed

lemma rdlock_settles:
  assumes i: "coro_inv s qs pd H" and c: "pd (current_thread s) = None" and h: "HoldR r \<notin> H (current_thread s)"
    and mm: "current_thread s = MAIN_THREAD \<longrightarrow> owner s (ReaderQueue r) \<in> {NO_THREAD, MAIN_THREAD}"
  shows "settles (current_thread s) (Rd r) pd H (coro_rwlock_rdlock (Some r) s)"
proof -
  note lib = coro_invD(1) [OF i]
  note lock = mutex_lock_ok [OF lib_okD(1-3) [OF lib], of "ReaderQueue r"]
  have pd: "pd(current_thread s := None) = pd" using c by auto
  consider (mine) "owner s (ReaderQueue r) = current_thread s" | (free) "owner s (ReaderQueue r) = NO_THREAD" |
    (busy) "owner s (ReaderQueue r) \<noteq> current_thread s" "owner s (ReaderQueue r) \<noteq> NO_THREAD" by blast
  then show ?thesis
  proof cases
    case mine
    then have "coro_rwlock_rdlock (Some r) s = Inr (Ret EDEADLK, s)" using lock(1) by (simp add: coro_rwlock_rdlock_def and_then_def rdlock_locked_def)
    then show ?thesis using settles_Ret [of s qs pd "current_thread s" EDEADLK H "Rd r"] i pd by simp
  next
    case free
    let ?s = "s\<lparr>owner := (owner s)(ReaderQueue r := current_thread s)\<rparr>"
    have "coro_rwlock_rdlock (Some r) s = rdlock_locked r 0 ?s" using lock(2) [OF free] by (simp add: coro_rwlock_rdlock_def and_then_def)
    then show ?thesis using rd_finish [OF inv_own_rq [OF i c free], of r] c h free_no_writer [OF i free] by simp
  next
    case busy
    then have cm: "current_thread s \<noteq> MAIN_THREAD" using mm by auto
    obtain t ts where rq: "qs RunQueue = t # ts" using other_runs [OF lib cm] by blast
    obtain s' where s': "coro_mutex_lock (Some (ReaderQueue r)) s = Inr (Susp [], s')"
        "coro_queues_ok s' (qs(MutexWait (ReaderQueue r) := qs (MutexWait (ReaderQueue r)) @ [current_thread s], RunQueue := ts))" "switched s s' t"
      using lock(3) [OF busy rq] by blast
    have "coro_rwlock_rdlock (Some r) s = Inr (Susp [Rdlock r], s')" using s'(1) by (simp add: coro_rwlock_rdlock_def and_then_def)
    then show ?thesis using inv_block_rq [OF i cm c busy(2,1) _ _ rq s'(2,3), of "Rd r" "[Rdlock r]"] h settles_Susp by fastforce
  qed
qed

lemma wrlock_settles:
  assumes i: "coro_inv s qs pd H" and c: "pd (current_thread s) = None"
    and mm: "current_thread s = MAIN_THREAD \<longrightarrow> owner s (ReaderQueue r) \<in> {NO_THREAD, MAIN_THREAD} \<and> (owner s (ReaderQueue r) = NO_THREAD \<longrightarrow> readers s r = 0)"
  shows "settles (current_thread s) (Wr r) pd H (coro_rwlock_wrlock (Some r) s)"
proof -
  note lib = coro_invD(1) [OF i]
  note lock = mutex_lock_ok [OF lib_okD(1-3) [OF lib], of "ReaderQueue r"]
  have pd: "pd(current_thread s := None) = pd" using c by auto
  consider (mine) "owner s (ReaderQueue r) = current_thread s" | (free) "owner s (ReaderQueue r) = NO_THREAD" |
    (busy) "owner s (ReaderQueue r) \<noteq> current_thread s" "owner s (ReaderQueue r) \<noteq> NO_THREAD" by blast
  then show ?thesis
  proof cases
    case mine
    then have "coro_rwlock_wrlock (Some r) s = Inr (Ret EDEADLK, s)" using lock(1) by (simp add: coro_rwlock_wrlock_def and_then_def wrlock_locked_def)
    then show ?thesis using settles_Ret [of s qs pd "current_thread s" EDEADLK H "Wr r"] i pd by simp
  next
    case free
    let ?s = "s\<lparr>owner := (owner s)(ReaderQueue r := current_thread s)\<rparr>"
    have "coro_rwlock_wrlock (Some r) s = wrlock_locked r 0 ?s" using lock(2) [OF free] by (simp add: coro_rwlock_wrlock_def and_then_def)
    then show ?thesis using wr_finish [OF inv_own_rq [OF i c free], of r] c mm free free_no_writer [OF i free] by simp
  next
    case busy
    then have cm: "current_thread s \<noteq> MAIN_THREAD" using mm by auto
    obtain t ts where rq: "qs RunQueue = t # ts" using other_runs [OF lib cm] by blast
    obtain s' where s': "coro_mutex_lock (Some (ReaderQueue r)) s = Inr (Susp [], s')"
        "coro_queues_ok s' (qs(MutexWait (ReaderQueue r) := qs (MutexWait (ReaderQueue r)) @ [current_thread s], RunQueue := ts))" "switched s s' t"
      using lock(3) [OF busy rq] by blast
    have "coro_rwlock_wrlock (Some r) s = Inr (Susp [WrLocked r], s')" using s'(1) by (simp add: coro_rwlock_wrlock_def and_then_def)
    then show ?thesis using inv_block_rq [OF i cm c busy(2,1) _ _ rq s'(2,3), of "Wr r" "[WrLocked r]"] settles_Susp by fastforce
  qed
qed

lemma passed_settles:
  assumes i: "coro_inv s qs pd H"
  shows "pd (current_thread s) = Some (Rd r, [Rdlock r]) \<Longrightarrow> settles (current_thread s) (Rd r) pd H (resume [Rdlock r] 0 s)"
    "pd (current_thread s) = Some (Wr r, [WrLocked r]) \<Longrightarrow> settles (current_thread s) (Wr r) pd H (resume [WrLocked r] 0 s)"
proof -
  show "settles (current_thread s) (Rd r) pd H (resume [Rdlock r] 0 s)" if pc: "pd (current_thread s) = Some (Rd r, [Rdlock r])"
  proof -
    have i1: "coro_inv s qs (pd(current_thread s := None)) H" using inv_clear [OF i] pc by simp
    have "HoldR r \<notin> H (current_thread s)" using rw_okD(13) [OF coro_invD(4) [OF i] pc] by simp
    then show ?thesis using rd_finish [OF i1 _ rq_taken [OF i pc]] by (simp add: resume_one del: resume.simps)
  qed
  show "settles (current_thread s) (Wr r) pd H (resume [WrLocked r] 0 s)" if pc: "pd (current_thread s) = Some (Wr r, [WrLocked r])"
  proof -
    have i1: "coro_inv s qs (pd(current_thread s := None)) H" using inv_clear [OF i] pc by simp
    have "current_thread s \<noteq> MAIN_THREAD" using pend_okD(5) [OF coro_invD(2) [OF i]] pc by auto
    then show ?thesis using wr_finish [OF i1 _ rq_taken [OF i pc]] by (simp add: resume_one del: resume.simps)
  qed
qed

text \<open>The last reader has left, and the writer that waited has the lock.\<close>

lemma inv_written:
  assumes i: "coro_inv s qs pd H" and pc: "pd (current_thread s) = Some (writing r)"
  shows "coro_inv s qs (pd(current_thread s := None)) (H(current_thread s := H (current_thread s) \<union> {HoldW r}))"
proof (rule coro_invI)
  let ?c = "current_thread s" and ?H = "H(current_thread s := H (current_thread s) \<union> {HoldW r})" and ?pd = "pd(current_thread s := None)"
  show "pend_ok (ready s qs) qs (owner s) ?pd" using pend_done [OF coro_invD(2) [OF i]] cur_free(1) [OF i] .
  show "hold_ok (owner s) ?H" using coro_invD(3) [OF i] lib_okD(4) [OF coro_invD(1) [OF i]] by (auto simp: hold_ok_def)
  show "fresh_ok s qs ?pd" by (rule fresh_step [OF i]) auto
  show "rw_ok (ready s qs) qs (owner s) (readers s) (writer s) ?pd ?H q" for q
  proof (cases "q = r")
    case True
    note D = rw_okD [OF coro_invD(4) [OF i, of r]]
    have w: "writer s r = ?c" "readers s r = 0" using D(10,11) [OF _ pc] by auto
    have e: "{t. HoldR r \<in> ?H t} = {t. HoldR r \<in> H t}" by auto
    show ?thesis unfolding True
    proof (rule rw_okI)
      show "HoldW r \<notin> ?H t \<and> (oper = Rd r \<longrightarrow> HoldR r \<notin> ?H t)"
        if "?pd t = Some (oper, fs)" "waits oper fs = Some (MutexWait (ReaderQueue r))" for t oper fs
        using that D(12) [of t oper fs] D(13) [of t fs] by (cases "t = ?c") auto
      show "writer s r = t \<and> 0 < readers s r" if "t \<in> set (qs (CondWait (WriterQueue r)))" for t using D(8,9) [OF that] by simp
      show "writer s r = t \<and> readers s r = 0" if "t \<in> ready s qs" "?pd t = Some (writing r)" for t
        using that D(10) [of t] w(1) by (cases "t = ?c") auto
      show "writer s r = t \<and> readers s r = 0" if "HoldW r \<in> ?H t" for t using that D(6) [of t] w by (cases "t = ?c") auto
    qed (use D(1-4) w e in auto)
  next
    case False
    show ?thesis by (rule rw_frame [OF coro_invD(4) [OF i]]) (use pc False in \<open>auto split: if_splits\<close>)
  qed
qed (rule coro_invD(1) [OF i])

lemma written_settles:
  assumes i: "coro_inv s qs pd H" and pc: "pd (current_thread s) = Some (writing r)"
  shows "settles (current_thread s) (Wr r) pd H (resume [Relock (RwMutex r), WrWaited r] 0 s)"
proof -
  let ?c = "current_thread s" and ?s1 = "s\<lparr>owner := (owner s)(RwMutex r := current_thread s)\<rparr>"
  note lib = coro_invD(1) [OF i] and rm = rw_mutex [OF i, of r]
  have "lib_ok ?s1 qs" using lib by simp
  then obtain s2 where s2: "coro_mutex_unlock (Some (RwMutex r)) ?s1 = Inr (0, s2)" "coro_queues_ok s2 qs" "same_core ?s1 s2" "owner s2 = owner s"
    using unlock_rw [OF lib_okD(1), of ?s1 qs r] rm by auto
  have co: "same_core s s2" using s2(3) by (simp add: same_core_def)
  have "current_thread s2 = ?c" using co by (simp add: same_core_def)
  then have "coro_inv s2 qs (pd(?c := None)) (H(?c := H ?c \<union> {HoldW r}))"
    using inv_written [OF inv_same [OF i s2(2) co s2(4)]] pc by simp
  moreover have "resume [Relock (RwMutex r), WrWaited r] 0 s = Inr (Ret 0, s2)"
    using mutex_lock_ok(2) [OF lib_okD(1-3) [OF lib] rm(1)] s2(1) by (simp add: wrlock_waited_def)
  ultimately show ?thesis using settles_Ret [of s2 qs pd ?c 0 H "Wr r"] by simp
qed

text \<open>A reader leaves; the last one lets the writer in that waits.\<close>

lemma inv_leave:
  assumes i: "coro_inv s qs pd H" and c: "pd (current_thread s) = None" and h: "HoldR r \<in> H (current_thread s)"
    and n: "readers s r > 1 \<or> writer s r = NO_THREAD"
  shows "coro_inv (s\<lparr>readers := (readers s)(r := readers s r - 1)\<rparr>) qs pd (H(current_thread s := H (current_thread s) - {HoldR r, HoldW r}))"
proof (rule inv_rw [OF i])
  let ?s = "s\<lparr>readers := (readers s)(r := readers s r - 1)\<rparr>" and ?H = "H(current_thread s := H (current_thread s) - {HoldR r, HoldW r})"
  note D = rw_okD [OF coro_invD(4) [OF i, of r]]
  have e: "{t. HoldR r \<in> ?H t} = {t. HoldR r \<in> H t} - {current_thread s}" by auto
  have r0: "0 < readers s r" using D(2,3) h by (auto simp: card_gt_0_iff)
  have nh: "HoldW r \<notin> H t" for t using D(7) [of t] r0 by auto
  show "rw_ok (ready s qs) qs (owner s) (readers ?s) (writer ?s) pd ?H r"
  proof (rule rw_okI)
    show "finite {t. HoldR r \<in> ?H t}" "readers ?s r = card {t. HoldR r \<in> ?H t}" unfolding e using D(2,3) h by simp_all
    show "HoldW r \<notin> ?H t \<and> (oper = Rd r \<longrightarrow> HoldR r \<notin> ?H t)"
      if "pd t = Some (oper, fs)" "waits oper fs = Some (MutexWait (ReaderQueue r))" for t oper fs
      using that D(12) [OF that] D(13) [of t fs] by auto
    show "writer ?s r = t \<and> 0 < readers ?s r" if "t \<in> set (qs (CondWait (WriterQueue r)))" for t
      using D(8) [OF that] n no_writer(2) [OF i] that by auto
    show "writer ?s r = t \<and> readers ?s r = 0" if "t \<in> ready s qs" "pd t = Some (writing r)" for t using D(11) [OF that] r0 by simp
    show "HoldW r \<in> ?H (writer ?s r) \<or> pd (writer ?s r) = Some (writing r)" if "writer ?s r \<noteq> NO_THREAD" using that D(5) nh by auto
    show "writer ?s r = t \<and> readers ?s r = 0" if "HoldW r \<in> ?H t" for t using that nh by (auto split: if_splits)
  qed (use D(1,4) in auto)
qed (use lib_okD(1,4) [OF coro_invD(1) [OF i]] coro_invD(3) [OF i] in \<open>auto simp: hold_ok_def\<close>)

lemma inv_leave_last:
  assumes i: "coro_inv s qs pd H" and c: "pd (current_thread s) = None" and h: "HoldR r \<in> H (current_thread s)"
    and n: "readers s r = 1" and s': "coro_queues_ok s' (woken (CondWait (WriterQueue r)) qs)" "same_core (s\<lparr>readers := (readers s)(r := 0)\<rparr>) s'" "owner s' = owner s"
  shows "coro_inv s' (woken (CondWait (WriterQueue r)) qs) pd (H(current_thread s := H (current_thread s) - {HoldR r, HoldW r}))"
proof (rule coro_invI)
  let ?q = "CondWait (WriterQueue r)" and ?H = "H(current_thread s := H (current_thread s) - {HoldR r, HoldW r})"
  let ?s = "s\<lparr>readers := (readers s)(r := 0)\<rparr>"
  have "lib_ok ?s qs" using coro_invD(1) [OF i] by simp
  from lib_wake [OF this wait_queue_simps(2) s'(1,2)]
  have w: "lib_ok s' (woken ?q qs)" "ready s' (woken ?q qs) = (case qs ?q of [] \<Rightarrow> ready s qs | t # ts \<Rightarrow> insert t (ready s qs))" by (simp_all split: list.split)
  have co: "readers s' = (readers s)(r := 0)" "writer s' = writer s" "nr_threads s' = nr_threads s" using s'(2) by (auto simp: same_core_def)
  show "lib_ok s' (woken ?q qs)" by (rule w(1))
  show "pend_ok (ready s' (woken ?q qs)) (woken ?q qs) (owner s') pd" unfolding s'(3) using pend_signal [OF coro_invD(2) [OF i] w(2)] .
  show "hold_ok (owner s') ?H" using coro_invD(3) [OF i] s'(3) by (auto simp: hold_ok_def)
  show "fresh_ok s' (woken ?q qs) pd" by (rule fresh_step [OF i]) (use co in \<open>auto simp: woken_free\<close>)
  have new: "t \<in> ready s qs \<or> t \<in> set (qs ?q)" if "t \<in> ready s' (woken ?q qs)" for t using that unfolding w(2) by (auto split: list.splits)
  have sub: "set (woken ?q qs (CondWait k)) \<subseteq> set (qs (CondWait k))" for k by (auto simp: woken_def split: list.splits)
  show "rw_ok (ready s' (woken ?q qs)) (woken ?q qs) (owner s') (readers s') (writer s') pd ?H q" for q
  proof (cases "q = r")
    case True
    note D = rw_okD [OF coro_invD(4) [OF i, of r]]
    have e: "{t. HoldR r \<in> ?H t} = {t. HoldR r \<in> H t} - {current_thread s}" by auto
    have nh: "HoldW r \<notin> H t" for t using D(7) [of t] n by auto
    show ?thesis unfolding True co s'(3)
    proof (rule rw_okI)
      show "finite {t. HoldR r \<in> ?H t}" "((readers s)(r := 0)) r = card {t. HoldR r \<in> ?H t}" unfolding e using D(2,3) h n by simp_all
      show "HoldW r \<notin> ?H t \<and> (oper = Rd r \<longrightarrow> HoldR r \<notin> ?H t)"
        if "pd t = Some (oper, fs)" "waits oper fs = Some (MutexWait (ReaderQueue r))" for t oper fs
        using that D(12) [OF that] D(13) [of t fs] by auto
      show "writer s r = t \<and> 0 < ((readers s)(r := 0)) r" if "t \<in> set (woken ?q qs ?q)" for t
      proof (cases "qs ?q")
        case (Cons u us)
        then have "t \<in> set us" "u \<notin> set us" using that queuesD(2) [OF lib_okD(1) [OF coro_invD(1) [OF i]], of ?q] by (auto simp: woken_def)
        then show ?thesis using D(8) [of t] D(8) [of u] Cons by auto
      qed (use that in \<open>simp add: woken_def\<close>)
      show "writer s r = t \<and> ((readers s)(r := 0)) r = 0" if "t \<in> ready s' (woken ?q qs)" "pd t = Some (writing r)" for t
        using new [OF that(1)] D(8) [of t] D(10) [OF _ that(2)] by auto
      show "HoldW r \<in> ?H (writer s r) \<or> pd (writer s r) = Some (writing r)" if "writer s r \<noteq> NO_THREAD" using that D(5) nh by auto
      show "writer s r = t \<and> ((readers s)(r := 0)) r = 0" if "HoldW r \<in> ?H t" for t using that nh by (auto split: if_splits)
    qed (use D(1,4) in auto)
  next
    case False
    have "t \<in> ready s qs" if "t \<in> ready s' (woken ?q qs)" "pd t = Some (writing q)" for t
      using new [OF that(1)] that(2) pend_okD(2) [OF coro_invD(2) [OF i], of ?q t] False by auto
    then show ?thesis unfolding co s'(3) by (intro rw_frame [OF coro_invD(4) [OF i]]) (use False in \<open>auto simp: woken_def split: list.splits\<close>)
  qed
qed

lemma rwunlock_settles:
  assumes i: "coro_inv s qs pd H" and c: "pd (current_thread s) = None" and h: "HoldR r \<in> H (current_thread s) \<or> HoldW r \<in> H (current_thread s)"
  shows "settles (current_thread s) (RwUnlock r) pd (H(current_thread s := H (current_thread s) - {HoldR r, HoldW r})) (coro_rwlock_unlock (Some r) s)"
proof -
  let ?c = "current_thread s" and ?H = "H(current_thread s := H (current_thread s) - {HoldR r, HoldW r})"
  note lib = coro_invD(1) [OF i] and D = rw_okD [OF coro_invD(4) [OF i, of r]]
  have ret: "settles ?c (RwUnlock r) pd ?H (Inr (Ret 0, s'))" if "coro_inv s' qs' pd ?H" for s' qs'
    using that c settles_Ret [of s' qs' pd ?c 0 ?H "RwUnlock r"] by (simp add: fun_upd_idem)
  consider (wr) "HoldW r \<in> H ?c" | (rd) "HoldR r \<in> H ?c" "HoldW r \<notin> H ?c" using h by blast
  then show ?thesis
  proof cases
    case wr
    let ?s = "s\<lparr>writer := (writer s)(r := NO_THREAD)\<rparr>" and ?q = "MutexWait (ReaderQueue r)"
    have w: "writer s r = ?c" "owner s (ReaderQueue r) = ?c" using D(6) [OF wr] D(4) lib_okD(4) [OF lib] by auto
    note i1 = inv_unwrite [OF i wr c]
    obtain s' where u: "coro_mutex_unlock (Some (ReaderQueue r)) ?s = Inr (0, s')" "coro_queues_ok s' (woken ?q qs)" "same_core ?s s'"
        "owner s' = (owner ?s)(ReaderQueue r := first_of ?q qs)"
      using mutex_unlock_ok [OF lib_okD(1) [OF coro_invD(1) [OF i1]], of "ReaderQueue r"] w(2) by auto
    have "coro_inv s' (woken ?q qs) pd ?H" using inv_release_rq [OF i1 _ _ _ u(2-4)] c w by simp
    moreover have "coro_rwlock_unlock (Some r) s = Inr (Ret 0, s')" using w(1) u(1) by (simp add: coro_rwlock_unlock_def)
    ultimately show ?thesis using ret by simp
  next
    case rd
    have r0: "0 < readers s r" using D(2,3) rd(1) by (auto simp: card_gt_0_iff)
    have w: "writer s r \<noteq> ?c" using D(5) rd(2) c lib_okD(4) [OF lib] by auto
    show ?thesis
    proof (cases "readers s r > 1 \<or> writer s r = NO_THREAD")
      case True
      then have "coro_rwlock_unlock (Some r) s = Inr (Ret 0, s\<lparr>readers := (readers s)(r := readers s r - 1)\<rparr>)"
        using w r0 by (auto simp: coro_rwlock_unlock_def Let_def)
      then show ?thesis using ret [OF inv_leave [OF i c rd(1) True]] by simp
    next
      case False
      then have one: "readers s r = 1" "writer s r \<noteq> NO_THREAD" using r0 by auto
      let ?s = "s\<lparr>readers := (readers s)(r := 0)\<rparr>" and ?q = "CondWait (WriterQueue r)"
      let ?s1 = "?s\<lparr>owner := (owner s)(RwMutex r := ?c)\<rparr>"
      note rm = rw_mutex [OF i, of r]
      have ok: "lib_ok ?s qs" "lib_ok ?s1 qs" using lib by simp_all
      obtain s2 where s2: "coro_cond_signal (Some (WriterQueue r)) ?s1 = Inr (0, s2)" "coro_queues_ok s2 (woken ?q qs)" "same_core ?s1 s2" "owner s2 = owner ?s1"
        using cond_signal_ok [OF lib_okD(1) [OF ok(2)], of "WriterQueue r"] by blast
      have "woken ?q qs (MutexWait (RwMutex r)) = []" using rm(2) by (simp add: woken_def split: list.split)
      then obtain s3 where s3: "coro_mutex_unlock (Some (RwMutex r)) s2 = Inr (0, s3)" "coro_queues_ok s3 (woken ?q qs)" "same_core s2 s3"
          "owner s3 = owner s"
        using unlock_rw [OF s2(2), of r] s2(3,4) rm(3) by (auto simp: same_core_def)
      have "same_core ?s s3" using s2(3) s3(3) by (simp add: same_core_def)
      then have "coro_inv s3 (woken ?q qs) pd ?H" using inv_leave_last [OF i c rd(1) one(1) s3(2) _ s3(4)] by simp
      moreover have "coro_rwlock_unlock (Some r) s = Inr (Ret 0, s3)"
        using mutex_lock_ok(2) [OF lib_okD(1-3) [OF ok(1)], of "RwMutex r"] w one rm(1) s2(1) s3(1)
        by (simp add: coro_rwlock_unlock_def Let_def and_then_def signal_writer_def)
      ultimately show ?thesis using ret by simp
    qed
  qed
qed

section \<open>All runs\<close>

lemma call_settles:
  assumes i: "coro_inv s qs pd H" and c: "pd (current_thread s) = None" and m: "client_may oper (H (current_thread s))"
    and mm: "current_thread s = MAIN_THREAD \<longrightarrow> main_may oper s"
  shows "settles (current_thread s) oper pd (H(current_thread s := H (current_thread s) - taken oper)) (perform oper s)"
proof (cases oper)
  case (Lock k)
  then show ?thesis using lock_settles [OF i c, of k "Lock k"] mm by simp
next
  case (Trylock k)
  then show ?thesis using trylock_settles [OF i c, of k] by simp
next
  case (Unlock k)
  then show ?thesis using unlock_settles [OF i c, of k] by simp
next
  case (Wait d k)
  then show ?thesis using wait_settles [OF i c, of k d] mm by simp
next
  case (Signal d)
  then show ?thesis using signal_settles [OF i c, of d] by simp
next
  case (Broadcast d)
  then show ?thesis using broadcast_settles [OF i c, of d] by simp
next
  case (Rd r)
  then show ?thesis using rdlock_settles [OF i c, of r] m mm by simp
next
  case (Wr r)
  then show ?thesis using wrlock_settles [OF i c, of r] mm by simp
next
  case (RwUnlock r)
  then show ?thesis using rwunlock_settles [OF i c, of r] m by simp
next
  case (Exit v)
  then show ?thesis using exit_settles [OF i c, of v] mm by auto
qed (use yield_settles [OF i c] in simp_all)

lemma resume_settles:
  assumes i: "coro_inv s qs pd H" and pc: "pd (current_thread s) = Some (oper, fs)"
  shows "settles (current_thread s) oper pd H (resume fs 0 s)"
proof -
  have w: "waits oper fs \<noteq> None" using pend_okD(1) [OF coro_invD(2) [OF i] pc] .
  have clear: "coro_inv s qs (pd(current_thread s := None)) H" if "\<forall>r. oper \<noteq> Wr r" using inv_clear [OF i] pc that by auto
  have ret: "settles (current_thread s) oper pd H (resume [] 0 s)" if "\<forall>r. oper \<noteq> Wr r" "given oper = {}"
    using settles_Ret [of s qs pd "current_thread s" 0 H oper] clear that by simp
  show ?thesis
  proof (cases oper)
    case (Lock k)
    then have "fs = []" using w by (cases fs) auto
    then show ?thesis using handed_settles [OF i, of oper k] pc Lock by simp
  next
    case (Wait d k)
    then consider "fs = []" | "fs = [Relock (Mutex k)]" using w by (auto split: if_splits)
    then show ?thesis
    proof cases
      case 1
      then show ?thesis using handed_settles [OF i, of oper k] pc Wait by simp
    next
      case 2
      then show ?thesis using relock_settles [OF i, of d k] pc Wait by simp
    qed
  next
    case (Rd r)
    then show ?thesis using passed_settles(1) [OF i, of r] pc w by (auto split: if_splits)
  next
    case (Wr r)
    then consider "fs = [WrLocked r]" | "fs = [Relock (RwMutex r), WrWaited r]" using w by (auto split: if_splits)
    then show ?thesis
    proof cases
      case 1
      then show ?thesis using passed_settles(2) [OF i, of r] pc Wr by simp
    next
      case 2
      then show ?thesis using written_settles [OF i, of r] pc Wr by simp
    qed
  next
    case Yield
    then have "fs = []" using w by (cases fs) auto
    then show ?thesis using ret Yield by simp
  next
    case YieldEach
    then have "fs = [YieldAll]" using w by (auto split: if_splits)
    then show ?thesis using yield_settles(2) [OF clear] YieldEach by (simp add: resume_one del: resume.simps)
  next
    case (Exit v)
    then have "fs = []" using w by (cases fs) auto
    then show ?thesis using ret Exit by simp
  qed (use w in auto)
qed

lemma settles_world:
  assumes "settles t oper (pend w) H r"
  shows "\<exists>w'. bind_res r (\<lambda>(out, s). Inr (settle t oper out (w\<lparr>lib := s, holds := H\<rparr>))) = Inr w' \<and> world_ok w'"
  using assms by (auto simp: settles_def settle_def world_ok_def split: outcome.splits)

lemma step_ok:
  assumes w: "world_ok w" and a: "allowed e w"
  shows "\<exists>w'. step e w = Inr w' \<and> world_ok w'"
proof -
  obtain qs where i: "coro_inv (lib w) qs (pend w) (holds w)" using w by (auto simp: world_ok_def)
  show ?thesis
  proof (cases e)
    case (Call oper)
    then show ?thesis using settles_world [OF call_settles [OF i, of oper]] a by (simp add: step_def allowed_def Let_def)
  next
    case Resume
    then obtain oper fs where pc: "pend w (current_thread (lib w)) = Some (oper, fs)" using a by (auto simp: allowed_def)
    have "w\<lparr>lib := s, holds := holds w\<rparr> = w\<lparr>lib := s\<rparr>" for s by simp
    then show ?thesis using settles_world [OF resume_settles [OF i pc]] Resume pc by (simp add: step_def Let_def)
  next
    case (Create mem proc)
    then show ?thesis using create_inv [OF i, of mem proc] a i by (auto simp: step_def allowed_def Let_def world_ok_def)
  qed
qed

interpretation cr: safe_events world_ok allowed step
  by unfold_locales (rule step_ok)

text \<open>
  A client starts with the library initialised and with locks that their own initialisation would not change;
  no control block has been allocated yet.
\<close>

definition fresh_locks :: "coro \<Rightarrow> bool" where
  "fresh_locks s \<longleftrightarrow>
     (\<forall>m. coro_mutex_init (Some (Mutex m)) s = (0, s)) \<and> (\<forall>k. coro_cond_init (Some (Cond k)) s = (0, s)) \<and>
     (\<forall>r. coro_rwlock_init (Some r) s = (0, s)) \<and>
     (\<forall>p. coro_queue_init (MutexWait (ExitM p)) s = s \<and> coro_queue_init (CondWait (Exited p)) s = s)"

definition client :: "coro \<Rightarrow> world" where
  "client s = \<lparr>lib = s, pend = (\<lambda>_. None), holds = (\<lambda>_. {})\<rparr>"

lemma queue_init_fix: "coro_queue_init q s = s \<Longrightarrow> queues s q = \<lparr>qhead = None, qtail = None\<rparr>"
  by (drule arg_cong [where f = "\<lambda>s. queues s q"]) (simp add: coro_queue_init_def)

lemma rwlock_init_fix:
  assumes "coro_rwlock_init (Some r) s = (0, s)"
  shows "writer s r = NO_THREAD" "readers s r = 0" "owner s (RwMutex r) = NO_THREAD" "owner s (ReaderQueue r) = NO_THREAD"
    "queues s (MutexWait (ReaderQueue r)) = \<lparr>qhead = None, qtail = None\<rparr>" "queues s (MutexWait (RwMutex r)) = \<lparr>qhead = None, qtail = None\<rparr>"
    "queues s (CondWait (WriterQueue r)) = \<lparr>qhead = None, qtail = None\<rparr>"
proof -
  note d = coro_rwlock_init_def coro_mutex_init_def coro_cond_init_def coro_queue_init_def Let_def
  have f: "f (snd (coro_rwlock_init (Some r) s)) = f s" for f :: "coro \<Rightarrow> 'x" using assms by simp
  show "writer s r = NO_THREAD" using f [of "\<lambda>s. writer s r"] by (simp add: d)
  show "readers s r = 0" using f [of "\<lambda>s. readers s r"] by (simp add: d)
  show "owner s (RwMutex r) = NO_THREAD" using f [of "\<lambda>s. owner s (RwMutex r)"] by (simp add: d)
  show "owner s (ReaderQueue r) = NO_THREAD" using f [of "\<lambda>s. owner s (ReaderQueue r)"] by (simp add: d)
  show "queues s (MutexWait (ReaderQueue r)) = \<lparr>qhead = None, qtail = None\<rparr>" using f [of "\<lambda>s. queues s (MutexWait (ReaderQueue r))"] by (simp add: d)
  show "queues s (MutexWait (RwMutex r)) = \<lparr>qhead = None, qtail = None\<rparr>" using f [of "\<lambda>s. queues s (MutexWait (RwMutex r))"] by (simp add: d)
  show "queues s (CondWait (WriterQueue r)) = \<lparr>qhead = None, qtail = None\<rparr>" using f [of "\<lambda>s. queues s (CondWait (WriterQueue r))"] by (simp add: d)
qed

lemma fresh_queues:
  assumes "fresh_locks s" and "q \<noteq> RunQueue" "q \<noteq> FreeThreads"
  shows "queues s q = \<lparr>qhead = None, qtail = None\<rparr>"
proof -
  have m: "coro_queue_init (MutexWait (Mutex m)) s = s" for m
  proof -
    have "snd (coro_mutex_init (Some (Mutex m)) s) = s" using assms(1) by (simp add: fresh_locks_def)
    then have "queues (snd (coro_mutex_init (Some (Mutex m)) s)) = queues s" by simp
    then show ?thesis by (simp add: coro_mutex_init_def coro_queue_init_def Let_def)
  qed
  have k: "coro_queue_init (CondWait (Cond k)) s = s" for k using assms(1) by (simp add: fresh_locks_def coro_cond_init_def)
  note fix_rw = rwlock_init_fix(5-7) [of _ s] and e = assms(1) [unfolded fresh_locks_def]
  show ?thesis
  proof (cases q)
    case (MutexWait x)
    then show ?thesis using m e fix_rw by (cases x) (auto intro: queue_init_fix)
  next
    case (CondWait x)
    then show ?thesis using k e fix_rw by (cases x) (auto intro: queue_init_fix)
  qed (use assms in auto)
qed

lemma client_ok:
  assumes new: "\<not> initialized s0" and init: "coro_init s0 = Inr s" and locks: "fresh_locks s"
  shows "world_ok (client s)"
proof -
  let ?qs = "\<lambda>_. [] :: int list"
  have s: "queues s RunQueue = \<lparr>qhead = None, qtail = None\<rparr>" "queues s FreeThreads = \<lparr>qhead = None, qtail = None\<rparr>"
      "current_thread s = MAIN_THREAD" "nr_threads s = 0" "tid (tcb s MAIN_THREAD) = MAIN_THREAD" "next_tcb (tcb s MAIN_THREAD) = None"
    using new init by (auto simp: coro_init_def coro_thread_reset_def coro_find_tcb_def is_valid_id_def coro_queue_init_def coro_scheduler_init_def Let_def)
  have q: "queues s q = \<lparr>qhead = None, qtail = None\<rparr>" for q using fresh_queues [OF locks, of q] s by blast
  have "coro_queues_ok s ?qs" using q s by (auto simp: coro_queues_ok_def queue_of_def queued_def is_valid_id_def)
  then have "lib_ok s ?qs" using s by (auto simp: lib_ok_def is_valid_id_def queued_def idle_exits_def)
  moreover have "pend_ok (ready s ?qs) ?qs (owner s) (\<lambda>_. None)" by (simp add: pend_ok_def)
  moreover have "rw_ok (ready s ?qs) ?qs (owner s) (readers s) (writer s) (\<lambda>_. None) (\<lambda>_. {}) r" for r
    using rwlock_init_fix [of r s] locks by (simp add: rw_ok_def fresh_locks_def)
  ultimately have "coro_inv s ?qs (\<lambda>_. None) (\<lambda>_. {})" by (intro coro_invI) (auto simp: hold_ok_def fresh_ok_def)
  then show ?thesis by (auto simp: world_ok_def client_def)
qed

lemma exclusion:
  assumes "world_ok w"
  shows "HoldM k \<in> holds w t \<Longrightarrow> HoldM k \<in> holds w u \<Longrightarrow> t = u" "HoldW r \<in> holds w t \<Longrightarrow> HoldW r \<in> holds w u \<Longrightarrow> t = u"
    "HoldW r \<in> holds w t \<Longrightarrow> HoldR r \<notin> holds w u"
proof -
  obtain qs where i: "coro_inv (lib w) qs (pend w) (holds w)" using assms by (auto simp: world_ok_def)
  note D = rw_okD [OF coro_invD(4) [OF i, of r]]
  show "HoldM k \<in> holds w t \<Longrightarrow> HoldM k \<in> holds w u \<Longrightarrow> t = u" using coro_invD(3) [OF i] unfolding hold_ok_def by metis
  show "HoldW r \<in> holds w t \<Longrightarrow> HoldW r \<in> holds w u \<Longrightarrow> t = u" using D(6) [of t] D(6) [of u] by simp
  show "HoldW r \<in> holds w t \<Longrightarrow> HoldR r \<notin> holds w u" using D(2,3,7) by auto
qed

fun run_all :: "coro_event list \<Rightarrow> world \<Rightarrow> world option" where
  "run_all [] w = Some w"
| "run_all (e # es) w = (if allowed e w then case step e w of Inl _ \<Rightarrow> None | Inr w' \<Rightarrow> run_all es w' else None)"

lemma run_all_runs: "run_all es w1 = Some w2 \<Longrightarrow> runs allowed step w es1 w1 \<Longrightarrow> runs allowed step w (es1 @ es) w2"
proof (induction es arbitrary: es1 w1)
  case (Cons e es)
  then obtain w' where "allowed e w1" "step e w1 = Inr w'" "run_all es w' = Some w2" by (auto split: if_splits sum.splits)
  then show ?case using Cons.IH [of w' "es1 @ [e]"] runs.happens [OF Cons.prems(2)] by simp
qed simp

text \<open>
  C21: From its initialisation on, whichever coroutine runs, and in whatever order coroutines lock, try and
  unlock mutexes, wait on and signal condition variables, take and release read-write locks, yield, exit and
  create threads within \<open>allowed\<close>, no such call ever faults, and the locks do what they are for: a mutex is with
  at most one thread, a read-write lock is with at most one writer, and never with a writer and a reader at
  once.  Outside \<open>allowed\<close> are: the main thread exiting or making a call that has to wait, releasing a
  read-write lock one does not have, reading it twice, joining, and a creation whose table or stack cannot be had.
\<close>

theorem coroutines_safe:
  assumes "\<not> initialized s0" "coro_init s0 = Inr s" "fresh_locks s" and "runs allowed step (client s) es w"
  shows "(\<forall>e. allowed e w \<longrightarrow> (\<exists>w'. step e w = Inr w')) \<and>
    (\<forall>k t u. HoldM k \<in> holds w t \<and> HoldM k \<in> holds w u \<longrightarrow> t = u) \<and>
    (\<forall>r t u. HoldW r \<in> holds w t \<longrightarrow> HoldR r \<notin> holds w u \<and> (HoldW r \<in> holds w u \<longrightarrow> t = u))"
proof -
  have "world_ok w" using cr.run_ok [OF assms(4) client_ok [OF assms(1-3)]] .
  then show ?thesis using exclusion [of w] cr.safe [of w] by blast
qed

definition blank_coro :: coro where
  "blank_coro = \<lparr>tcb = (\<lambda>_. \<lparr>tid = 0, tstate = CR_DEAD, tresult = 0, next_tcb = None\<rparr>), current_thread = 0, nr_threads = 0, initialized = False,
     queues = (\<lambda>_. \<lparr>qhead = None, qtail = None\<rparr>), owner = (\<lambda>_. NO_THREAD), readers = (\<lambda>_. 0), writer = (\<lambda>_. NO_THREAD)\<rparr>"

definition started :: coro where
  "started = (case coro_init blank_coro of Inr s \<Rightarrow> s)"

lemma started_ok: "\<not> initialized blank_coro" "coro_init blank_coro = Inr started" "fresh_locks started"
proof -
  note d = coro_init_def coro_thread_reset_def coro_find_tcb_def is_valid_id_def coro_queue_init_def coro_scheduler_init_def
  show "\<not> initialized blank_coro" by (simp add: blank_coro_def)
  show "coro_init blank_coro = Inr started" by (simp add: started_def d blank_coro_def)
  show "fresh_locks started"
    by (simp add: started_def d blank_coro_def fresh_locks_def coro_mutex_init_def coro_cond_init_def coro_rwlock_init_def upd_tcb_def fun_upd_idem Let_def)
qed

text \<open>The main thread reads, a coroutine waits to write, and has the lock after the main thread has left.\<close>

definition two_threads :: "coro_event list" where
  "two_threads = [Create \<lparr>pool_mem = True, tcb_mem = (\<lambda>_. True), shrink_mem = True, stack_mem = True\<rparr> 1, Call (Rd 0), Call Yield, Call (Wr 0), Resume,
     Call (RwUnlock 0), Call Yield, Resume]"

lemmas coro_eval = client_def started_def blank_coro_def coro_init_def coro_thread_reset_def coro_find_tcb_def is_valid_id_def coro_queue_init_def
  coro_scheduler_init_def upd_tcb_def step_def allowed_def settle_def coro_thread_create_def realloc_thread_pool_def new_tcbs_def coro_queue_empty_def
  coro_queue_enqueue_def coro_queue_dequeue_def coro_thread_init_def coro_cond_init_def coro_mutex_init_def coro_unsuspend_def coro_suspend_def coro_schedule_def
  coro_yield_def coro_rwlock_rdlock_def rdlock_locked_def coro_mutex_lock_def coro_mutex_trylock_def coro_mutex_unlock_def and_then_def coro_rwlock_wrlock_def
  wrlock_locked_def wrlock_mutex_def wrlock_waited_def coro_cond_wait_def coro_rwlock_unlock_def signal_writer_def coro_cond_signal_def Let_def

theorem coroutines_safe_witness:
  "\<exists>w. runs allowed step (client started) two_threads w \<and> HoldW 0 \<in> holds w 0 \<and> HoldR 0 \<notin> holds w MAIN_THREAD"
proof -
  have "\<exists>w. run_all two_threads (client started) = Some w \<and> HoldW 0 \<in> holds w 0"
    by (simp add: two_threads_def coro_eval eval_nat_numeral upto.simps)
  then obtain w where w: "run_all two_threads (client started) = Some w" "HoldW 0 \<in> holds w 0" by blast
  have r: "runs allowed step (client started) two_threads w" using run_all_runs [OF w(1) runs.start] by simp
  show ?thesis using coroutines_safe [OF started_ok r] r w(2) by blast
qed

text \<open>
  C22: The owner of a mutex hands it over: \<open>coro_mutex_unlock\<close> makes the thread that has waited longest the owner
  and puts it, runnable, at the end of the run queue; the other waiting threads keep their order.
\<close>

theorem unlock_hands_over:
  assumes "coro_queues_ok s qs" and "owner s m = current_thread s" and "qs (MutexWait m) = t # ts"
  shows "\<exists>s'. coro_mutex_unlock (Some m) s = Inr (0, s') \<and> owner s' = (owner s)(m := t) \<and> tstate (tcb s' t) = CR_RUNNABLE \<and>
    coro_queues_ok s' (qs(MutexWait m := ts, RunQueue := qs RunQueue @ [t]))"
  using mutex_unlock_ok [OF assms(1), of m] assms(2,3) by (auto simp: woken_def first_of_def)

text \<open>Thread 1 waits for the mutex of thread 0, which runs.\<close>

definition contended :: coro where
  "contended = started\<lparr>tcb := (tcb started)(0 := \<lparr>tid = 0, tstate = CR_RUNNABLE, tresult = 0, next_tcb = None\<rparr>,
       1 := \<lparr>tid = 1, tstate = CR_BLOCKED, tresult = 0, next_tcb = None\<rparr>),
     current_thread := 0, nr_threads := 2, owner := (owner started)(Mutex 0 := 0),
     queues := (queues started)(MutexWait (Mutex 0) := \<lparr>qhead = Some 1, qtail = Some 1\<rparr>)\<rparr>"

theorem unlock_hands_over_witness:
  "\<exists>s'. coro_mutex_unlock (Some (Mutex 0)) contended = Inr (0, s') \<and> owner s' (Mutex 0) = 1 \<and> tstate (tcb s' 1) = CR_RUNNABLE"
proof -
  let ?qs = "(\<lambda>_. [])(MutexWait (Mutex 0) := [1])"
  have "coro_queues_ok contended ?qs"
  proof (rule coro_queues_okI)
    show "queue_of contended q (?qs q)" for q by (cases "q = MutexWait (Mutex 0)") (auto simp: queue_of_def contended_def coro_eval)
  qed (auto simp: queued_def contended_def coro_eval split: if_splits)
  from unlock_hands_over [OF this, of "Mutex 0" 1 "[]"] show ?thesis by (auto simp: contended_def coro_eval)
qed

text \<open>
  C40: The main thread is not made to wait.  With every other thread blocked, \<open>coro_mutex_lock\<close> in the main
  thread on a mutex that another thread owns returns 0, and the other thread still owns the mutex:
  \<open>coro_schedule\<close> returns to its caller when the main thread finds the run queue empty.
\<close>

theorem main_lock_not_owned:
  assumes "\<not> initialized s0" "coro_init s0 = Inr s" "fresh_locks s" and "runs allowed step (client s) es w"
    and "current_thread (lib w) = MAIN_THREAD" "coro_queue_empty RunQueue (lib w)"
    and o: "owner (lib w) (Mutex k) \<noteq> NO_THREAD" "owner (lib w) (Mutex k) \<noteq> MAIN_THREAD"
  shows "\<exists>s'. coro_mutex_lock (Some (Mutex k)) (lib w) = Inr (Ret 0, s') \<and> owner s' (Mutex k) = owner (lib w) (Mutex k)"
proof -
  have "world_ok w" using cr.run_ok [OF assms(4) client_ok [OF assms(1-3)]] .
  then obtain qs where i: "coro_inv (lib w) qs (pend w) (holds w)" by (auto simp: world_ok_def)
  note lib = coro_invD(1) [OF i]
  have r: "qs RunQueue = []" using queue_empty [OF lib_okD(1) [OF lib], of RunQueue] assms(6) by simp
  obtain s1 where s1: "coro_queue_enqueue (MutexWait (Mutex k)) MAIN_THREAD (lib w) = Inr s1"
      "coro_queues_ok s1 (qs(MutexWait (Mutex k) := qs (MutexWait (Mutex k)) @ [MAIN_THREAD]))" "same_core (lib w) s1" "owner s1 = owner (lib w)"
    using enqueue_ok [OF lib_okD(1-3) [OF lib]] assms(5) by auto
  have "coro_queue_empty RunQueue s1" using queue_empty [OF s1(2), of RunQueue] r by simp
  then have "coro_suspend CR_BLOCKED s1 = Inr (Ret 0, upd_tcb MAIN_THREAD (tstate_update (\<lambda>_. CR_BLOCKED)) s1)"
    using s1(3) assms(5) by (simp add: coro_suspend_def coro_schedule_def coro_find_tcb_def is_valid_id_def same_core_def coro_queue_empty_def)
  then show ?thesis using s1(1,4) assms(5) o by (simp add: coro_mutex_lock_def coro_mutex_trylock_def)
qed

definition blocked_owner :: "coro_event list" where
  "blocked_owner = [Create \<lparr>pool_mem = True, tcb_mem = (\<lambda>_. True), shrink_mem = True, stack_mem = True\<rparr> 1, Call Yield, Call (Lock 0), Call (Lock 1),
     Call (Wait 0 1), Resume]"

theorem main_lock_not_owned_witness:
  "\<exists>w s'. runs allowed step (client started) blocked_owner w \<and> coro_mutex_lock (Some (Mutex 0)) (lib w) = Inr (Ret 0, s') \<and> owner s' (Mutex 0) = 0"
proof -
  have "\<exists>w. run_all blocked_owner (client started) = Some w \<and> current_thread (lib w) = MAIN_THREAD \<and> coro_queue_empty RunQueue (lib w) \<and>
      owner (lib w) (Mutex 0) = 0"
    by (simp add: blocked_owner_def coro_eval eval_nat_numeral upto.simps)
  then obtain w where w: "run_all blocked_owner (client started) = Some w" "current_thread (lib w) = MAIN_THREAD" "coro_queue_empty RunQueue (lib w)"
      "owner (lib w) (Mutex 0) = 0" by blast
  have r: "runs allowed step (client started) blocked_owner w" using run_all_runs [OF w(1) runs.start] by simp
  show ?thesis using main_lock_not_owned [OF started_ok r w(2,3), of 0] r w(4) by auto
qed

end
