(* ===== verification/Spec2Isabelle.thy ===== *)
theory Spec2Isabelle
  imports List_Head Ipc_Props Grant_Props Idr Syscall_Props User_Return Kernel_Run Boot Phys_Alloc Coro_Run
begin

text \<open>
  Lyos is a microkernel operating system.  The kernel passes messages between processes, schedules
  them, copies between address spaces under grants, takes interrupts and clock ticks, and offers a few
  dozen kernel calls; the servers (memory, processes, files) are processes built on small C libraries.
  This development models the architecture-independent kernel for one processor and the data structures
  the kernel and the servers share, and proves what their callers rely on.

  \<^bold>\<open>Conventions.\<close>  A C function is a HOL function on an explicit state, returning its C result with the new
  state.  What C leaves undefined or the code aborts on is a value: \<open>'a res\<close> is \<open>fault + 'a\<close> with the faults
  \<open>NullDeref\<close>, \<open>OutOfBounds\<close>, \<open>AssertFail\<close>, \<open>Panic\<close>, \<open>Undefined\<close>, and \<open>Diverge\<close> for a walk over pointers that
  runs out of fuel.  Flag words, addresses and identifiers are machine words where the code masks,
  shifts or wraps them; \<open>C_int\<close> wraps an integer to the 32 bits of \<open>int\<close> where an endpoint is packed.  A process is named by its slot in \<open>proc_table\<close>, so that pointers to processes
  are \<open>nat option\<close>.  A walk gets as much fuel as its table has entries, plus one where the code looks once
  more: \<open>NR_SLOTS\<close> for sending queues and the chains of memory requests, \<open>NR_HOLES + 1\<close> for holes, \<open>NR_IRQ_HOOKS\<close>
  for hooks; the theorems that a routine returns \<open>Inr\<close> show that it is enough.

  \<^bold>\<open>Theories.\<close>
  \<^item> \<open>Lyos_Prelude\<close>: types, faults, error numbers, flag words, linked paths (\<open>qpath\<close>), runs of events.
  \<^item> \<open>List_Head\<close> (\<open>include/lyos/list.h\<close>): the rings of \<open>prev\<close> and \<open>next\<close> pointers; each operation refines one on
    sequences (locale \<open>ring_store\<close>).
  \<^item> \<open>Bitmap\<close> (\<open>include/lyos/bitmap.h\<close>, \<open>lib/liblyos/bitmap.c\<close>): bit operations (locale \<open>bit_set\<close>) and searches.
  \<^item> \<open>Kernel_State\<close> (\<open>include/kernel/proc.h\<close>, \<open>include/lyos/priv.h\<close>, \<open>include/lyos/endpoint.h\<close>): process and privilege
    structures, the kernel state, endpoints and their resolution.
  \<^item> \<open>Sched\<close> (\<open>kernel/sched.c\<close>, the \<open>PST_\<close> macros): run queues and their bitmap; every change of a process
    state keeps them consistent (locale \<open>state_switch\<close>), and the right process is picked.
  \<^item> \<open>Ipc\<close>, \<open>Ipc_Inv\<close>, \<open>Ipc_Steps\<close>, \<open>Ipc_Props\<close> (\<open>kernel/proc.c\<close>): \<open>msg_send\<close>, \<open>msg_receive\<close>, notifications and
    asynchronous messages.  The invariant \<open>ipc_inv\<close> ties the linked sending queues to the states of the
    processes and excludes cycles of senders; with it a call of \<open>sys_sendrec\<close> within \<open>call_ok\<close>
    (readable message, buffer that is not null, a process to send to) returns without a fault and keeps it,
    deadlocks are detected exactly, and messages arrive in order.  Outside \<open>call_ok\<close> the code can assert, which
    is shown too.
  \<^item> \<open>Ipc_Frame\<close>: what message passing, signals and memory requests leave alone, proved once for every
    property their elementary updates keep (locale \<open>kept_by_ipc\<close>); instances are the run queues and the
    identities of processes.
  \<^item> \<open>Grants\<close>, \<open>Grant_Props\<close> (\<open>lib/liblyos/mgrant.c\<close>, \<open>kernel/system/sys_safecopy.c\<close>): the grant table of a process
    and the kernel's check before a copy; what a grant admits, before and after it is revoked.
  \<^item> \<open>Mm_Request\<close>, \<open>Signals\<close> (\<open>kernel/system/sys_vmctl.c\<close>, \<open>kernel/system.c\<close>): the two protocols by which the kernel
    hands a process to the memory manager or the process manager and gets it back.
  \<^item> \<open>Syscalls\<close>, \<open>Syscall_Props\<close> (\<open>kernel/system.c\<close>, \<open>kernel/system/\<close>): dispatching, privileges, fork, clear, tracing,
    and \<open>switch_to_user\<close>.
  \<^item> \<open>User_Return\<close> (\<open>kernel/system.c\<close>, \<open>kernel/proc.c\<close>): the table of kernel calls, filled with the modelled handlers
    except \<open>sys_fork\<close> and \<open>sys_irqctl\<close>, each of which keeps the run queues consistent (locale \<open>keeping_calls\<close>), and
    what holds when \<open>switch_to_user\<close> enters user mode.
  \<^item> \<open>Timers\<close>, \<open>Clock\<close> (\<open>lib/liblyos/timer.c\<close>, \<open>kernel/clock.c\<close>): timer queues on the rings, the tick, alarms;
    \<open>run_due\<close> says which callbacks an expiry runs, and in which order.
  \<^item> \<open>Irq\<close>, \<open>Irq_Props\<close> (\<open>kernel/interrupt.c\<close>, \<open>kernel/system/sys_irqctl.c\<close>): chains of hooks, masking, domains and
    the allocation of interrupts.
  \<^item> \<open>Kernel_Run\<close>: the kernel as a transition system over message passing, alarms, deliveries, ticks and
    interrupts in any order, an instance of the locale \<open>safe_events\<close>: from a well-formed kernel none of the events
    of \<open>possible\<close> faults.  The events left out are listed there; the code fails on them.
  \<^item> \<open>Boot\<close> (\<open>kernel/main.c\<close>): the tables at start, which processes resolve, and who runs first.  The kernel
    reached is not yet \<open>kernel_ok\<close>: several boot processes get their privilege structures only later, by
    \<open>sys_privctl\<close>.
  \<^item> \<open>Avl\<close>, \<open>Avl_Iter\<close>, \<open>Idr\<close> (\<open>include/lyos/avl.h\<close>, \<open>lib/liblyos/idr.c\<close>): balanced trees, their iterators with explicit
    paths, and the identifier allocator on top.
  \<^item> \<open>Phys_Alloc\<close> (\<open>servers/mm/alloc.c\<close>): the linked table of holes refines a sorted list of intervals that are
    apart; allocation is first fit and freeing undoes it.
  \<^item> \<open>Coro\<close>, \<open>Coro_Queues\<close>, \<open>Coro_Run\<close> (\<open>lib/libcoro/\<close>): coroutines over linked queues of control blocks.  \<open>Coro_Queues\<close> shows
    that every operation keeps the queues lists of distinct threads, no thread in two of them.  \<open>Coro_Run\<close> runs
    threads that make the calls of \<open>allowed\<close> in any order, again an instance of \<open>safe_events\<close>: no fault, and locks
    exclude.  A call that blocks is its list of remaining frames; joining is modelled but not among the calls of
    these runs, and the main thread makes no call that has to wait.

  \<^bold>\<open>How the parts meet.\<close>  \<open>kernel_ok\<close> collects the invariants of the scheduler, of message passing and of the
  privilege structures.  Message passing uses the scheduler only through \<open>PST_SET\<close> and \<open>PST_UNSET\<close>; interrupts,
  alarms, signals and memory requests reach processes only through \<open>msg_notify\<close>, whose lemmas they share.
  \<open>Boot\<close> sets up the tables; \<open>Kernel_Run\<close> starts where every live process has its privilege structure, and keeps
  the invariants under every sequence of the events it covers.

  \<^bold>\<open>Parameters.\<close>  Code outside the model is an argument: the copying of messages from and to user memory
  (\<open>fetch_msg\<close>, the memory of the granters), page-table lookups, allocation results of \<open>malloc\<close>, the callbacks of
  timers and hooks, interrupt controllers, the result of \<open>arch_fork_proc\<close>, the layout of the message union.  Each theorem says what it assumes of them, and has an instance.

  \<^bold>\<open>Limits shown.\<close>  Several theorems state what the code does where it falls short: a cleared process stays
  in the queue it was blocked in, a send from unreadable memory leaves its sender stranded, an interrupt
  for a removed driver panics, the main thread of the coroutines returns from locking a mutex that another
  one owns, signals of the last slots are never reported, the last endpoints are rejected, erasure in a
  tree can leave it unbalanced.

  \<^bold>\<open>Not modelled.\<close>  The architecture layer (\<open>kernel/arch/\<close>: page tables, traps, context switches) and the
  multiprocessor code act on machine state without source-level semantics.  Drivers, file systems and
  the network servers are protocols with hardware, disks and third-party code.  The request loops of the
  servers, the stubs of \<open>liblyos\<close> that only fill a message, user programs, tests and build scripts are left
  out.  Locking within the kernel is empty in the uniprocessor configuration and does not appear.
\<close>

unbundle bit_operations_syntax

section \<open>Properties that span components\<close>

text \<open>
  C37: \<open>sys_clear\<close> does not take the process it removes out of the queue it is blocked in.  The process at
  the head of a sending queue can be removed: its slot is free then, but the receiver still has it queued,
  and the invariant of message passing is gone.
\<close>

theorem clear_strands_queue:
  assumes ok: "kernel_ok k cur" and q: "squeue k d (f # ys)" and self: "endpoint (proc_table k f) \<noteq> SELF"
  shows "\<exists>k'. sys_clear k (endpoint (proc_table k f)) = Inr (0, k') \<and> state (proc_table k' f) = PST_FREE_SLOT \<and>
    q_sending (proc_table k' d) = Some f \<and> \<not> ipc_inv k'"
proof -
  have s: "(f, d) \<in> sends_to k" using q by (auto simp: squeue_def senders_def)
  then have r: "resolvable k f" using ipc_invD(1) [OF kernel_okD(1) [OF ok]] by (auto simp: sends_live_def sends_to_def)
  then have v: "verify_endpt k (endpoint (proc_table k f)) = Some (Some n) \<Longrightarrow> proc_addr n = f" for n
    by (simp add: resolvable_def endpt_proc_def)
  have "verify_endpt k (endpoint (proc_table k f)) \<noteq> None" "verify_endpt k (endpoint (proc_table k f)) \<noteq> Some None"
    using r self by (auto simp: resolvable_def endpt_proc_def verify_endpt_def Let_def split: if_splits)
  then obtain n where n: "verify_endpt k (endpoint (proc_table k f)) = Some (Some n)" by auto
  define k' where "k' = upd_proc f (flags_update (\<lambda>f. f AND NOT PF_FPU_INITIALIZED)) (release_fpu f (PST_SETFLAGS f PST_FREE_SLOT k))"
  have c: "sys_clear k (endpoint (proc_table k f)) = Inr (0, k')"
    by (simp add: sys_clear_def n stored_slot_def v [OF n] k'_def Let_def)
  have st: "state (proc_table k' f) = PST_FREE_SLOT" "q_sending (proc_table k' d) = q_sending (proc_table k d)"
    by (simp_all add: k'_def release_fpu_def)
  have h: "q_sending (proc_table k d) = Some f" using q by (simp add: squeue_def)
  have "\<not> squeue k' d qs" for qs
  proof
    assume "squeue k' d qs"
    then have "f \<in> senders k' d" using h st(2) by (cases qs) (auto simp: squeue_def)
    then show False using st(1) by (simp add: senders_def sends_to_def PST_IS_SET_def flag_simps)
  qed
  with c st h show ?thesis by (auto dest: ipc_invD)
qed

theorem clear_strands_queue_witness:
  "\<exists>k'. sys_clear sender_kernel 5 = Inr (0, k') \<and> q_sending (proc_table k' 10) = Some 9 \<and> \<not> ipc_inv k'"
  using clear_strands_queue [OF sender_ok, of 10 9 "[]"] sender_queue(2) [of 10] by (auto simp: sender_table)
end
